(* ===== verification/ZPrelude.thy ===== *)
theory ZPrelude
  imports Main "HOL-Library.Word"
begin

text \<open>
  Shared vocabulary of the development: the machine integer types of the C sources, the
  outcome type of code that may panic, the alignment macros of
  \<^verbatim>\<open>lib/libsolcompat/include/sys/sysmacros.h\<close>, and the generic lemmas on lists and words
  that the component theories use.
\<close>

unbundle bit_operations_syntax

type_synonym u8 = "8 word"
type_synonym u16 = "16 word"
type_synonym u32 = "32 word"
type_synonym u64 = "64 word"

text \<open>
  A C routine that runs a \<^verbatim>\<open>VERIFY\<close> (which stays on in production builds) either finishes or
  stops the process; \<open>Inl\<close> carries the reason: a failed \<^verbatim>\<open>VERIFY\<close>, a panic, an access
  through a null or wild pointer, a division by zero. A plain \<^verbatim>\<open>ASSERT\<close> is compiled out of
  production builds and leaves no branch in the model.
\<close>

datatype panic =
    Verify_failed
  | Zfs_panic
  | Bad_access
  | Div_by_zero

type_synonym 'a outcome = "panic + 'a"

definition verify :: "bool \<Rightarrow> 'a outcome \<Rightarrow> 'a outcome" where
  "verify c k = (if c then k else Inl Verify_failed)"

lemma verify_True [simp]: "verify True k = k"
  by (simp add: verify_def)

lemma verify_False [simp]: "verify False k = Inl Verify_failed"
  by (simp add: verify_def)

lemma verify_eq_Inr_iff: "verify c k = Inr x \<longleftrightarrow> c \<and> k = Inr x"
  by (simp add: verify_def)

definition bind_outcome :: "'a outcome \<Rightarrow> ('a \<Rightarrow> 'b outcome) \<Rightarrow> 'b outcome" where
  "bind_outcome m f = (case m of Inl e \<Rightarrow> Inl e | Inr x \<Rightarrow> f x)"

lemma bind_outcome_simps [simp]:
  "bind_outcome (Inl e) f = Inl e"
  "bind_outcome (Inr x) f = f x"
  by (simp_all add: bind_outcome_def)

lemma bind_outcome_eq_Inr_iff:
  "bind_outcome m f = Inr y \<longleftrightarrow> (\<exists>x. m = Inr x \<and> f x = Inr y)"
  by (cases m) auto

subsection \<open>Alignment macros\<close>

definition ISP2 :: "'a::len word \<Rightarrow> bool" where
  "ISP2 x \<longleftrightarrow> x AND (x - 1) = 0"

definition P2ALIGN :: "'a::len word \<Rightarrow> 'a word \<Rightarrow> 'a word" where
  "P2ALIGN x align = x AND - align"

definition P2PHASE :: "'a::len word \<Rightarrow> 'a word \<Rightarrow> 'a word" where
  "P2PHASE x align = x AND (align - 1)"

definition P2ROUNDUP :: "'a::len word \<Rightarrow> 'a word \<Rightarrow> 'a word" where
  "P2ROUNDUP x align = - (- x AND - align)"

subsection \<open>Ends of a list\<close>

definition first_of :: "'a list \<Rightarrow> 'a option" where
  "first_of xs = (case xs of [] \<Rightarrow> None | x # _ \<Rightarrow> Some x)"

definition last_of :: "'a list \<Rightarrow> 'a option" where
  "last_of xs = first_of (rev xs)"

lemma first_of_simps [simp]: "first_of [] = None" "first_of (x # xs) = Some x"
  by (simp_all add: first_of_def)

lemma last_of_simps [simp]: "last_of [] = None" "last_of (xs @ [x]) = Some x" "last_of [x] = Some x"
  by (simp_all add: last_of_def)

lemma first_of_append:
  "first_of (xs @ ys) = (case first_of xs of None \<Rightarrow> first_of ys | Some x \<Rightarrow> Some x)"
  by (cases xs) auto

lemma last_of_append:
  "last_of (xs @ ys) = (case last_of ys of None \<Rightarrow> last_of xs | Some y \<Rightarrow> Some y)"
  by (simp add: last_of_def first_of_append cong: option.case_cong)

lemma last_of_Cons: "last_of (x # xs) = (case last_of xs of None \<Rightarrow> Some x | Some y \<Rightarrow> Some y)"
  by (simp add: last_of_def first_of_append cong: option.case_cong)

lemma first_of_eq_None [simp]: "first_of xs = None \<longleftrightarrow> xs = []" "None = first_of xs \<longleftrightarrow> xs = []"
  by (cases xs; simp)+

lemma last_of_eq_None [simp]: "last_of xs = None \<longleftrightarrow> xs = []" "None = last_of xs \<longleftrightarrow> xs = []"
  by (simp_all add: last_of_def)

lemma first_of_eq_Some: "first_of xs = Some x \<longleftrightarrow> (\<exists>ys. xs = x # ys)"
  by (cases xs) auto

lemma last_of_eq_Some: "last_of xs = Some x \<longleftrightarrow> (\<exists>ys. xs = ys @ [x])"
  by (metis append_butlast_last_id last_of_eq_None(1) last_of_simps(2) option.distinct(1) option.inject)

subsection \<open>Words\<close>

lemma unat_of_nat_small: "n < 2 ^ LENGTH('a) \<Longrightarrow> unat (of_nat n :: 'a::len word) = n"
  by (simp add: unsigned_of_nat take_bit_nat_eq_self)

lemma unat_less_64: "unat (x :: u64) < 18446744073709551616"
  using unsigned_less [of x, where ?'a = nat] by simp

lemma P2PHASE_take_bit: "P2PHASE x (2 ^ k) = take_bit k x"
proof -
  show ?thesis
    by (simp only: P2PHASE_def take_bit_eq_mask mask_eq_exp_minus_1)
qed

lemma P2PHASE_zero_iff:
  "P2PHASE (x :: 'a::len word) (2 ^ k) = 0 \<longleftrightarrow> 2 ^ min k LENGTH('a) dvd unat x"
proof -
  have "P2PHASE x (2 ^ k) = 0 \<longleftrightarrow> unat (take_bit k x) = 0"
    by (simp add: P2PHASE_take_bit unat_eq_0)
  also have "\<dots> \<longleftrightarrow> unat x mod 2 ^ k = 0"
    unfolding unsigned_take_bit_eq by (simp add: take_bit_eq_mod)
  also have "\<dots> \<longleftrightarrow> unat x mod 2 ^ min k LENGTH('a) = 0"
  proof (cases "k \<le> LENGTH('a)")
    case False
    have "unat x < 2 ^ LENGTH('a)" by (rule unsigned_less)
    moreover have "(2 :: nat) ^ LENGTH('a) \<le> 2 ^ k"
      using False by (intro power_increasing) auto
    ultimately have "unat x < 2 ^ k" by (rule less_le_trans)
    then show ?thesis using False by (simp add: min_def)
  qed (simp add: min_def)
  finally show ?thesis by (simp add: dvd_eq_mod_eq_0)
qed

lemma dvd_unat_add:
  "m \<le> LENGTH('a) \<Longrightarrow> 2 ^ m dvd unat a \<Longrightarrow> 2 ^ m dvd unat b \<Longrightarrow>
    2 ^ m dvd unat (a + b :: 'a::len word)"
  by (simp add: unat_word_ariths dvd_mod_iff le_imp_power_dvd)

lemma P2PHASE_add:
  assumes "P2PHASE a (2 ^ k) = 0" "P2PHASE b (2 ^ k) = 0"
  shows "P2PHASE (a + b) (2 ^ k) = (0 :: 'a::len word)"
  using assms unfolding P2PHASE_zero_iff by (intro dvd_unat_add) auto

lemma P2PHASE_diff:
  assumes "P2PHASE a (2 ^ k) = 0" "P2PHASE b (2 ^ k) = 0" "b \<le> a"
  shows "P2PHASE (a - b) (2 ^ k) = (0 :: 'a::len word)"
  using assms unfolding P2PHASE_zero_iff by (simp add: unat_sub dvd_diff_nat)

end
