(* ===== verification/Avl_Tree.thy ===== *)
theory Avl_Tree
  imports ZPrelude
begin

text \<open>
  The abstract machine behind \<^verbatim>\<open>lib/libavl/avl.c\<close>: balance-annotated binary trees, a position
  as the path of child indices from the root (the C code follows parent pointers, which are the
  frames of the zipper here), and one operation per public routine. Children are indexed by a
  boolean, \<open>False\<close> for \<^verbatim>\<open>avl_child[0]\<close> and \<open>True\<close> for \<^verbatim>\<open>avl_child[1]\<close>.
\<close>

datatype 'a atree = Null | Node "'a atree" 'a int "'a atree"

primrec height :: "'a atree \<Rightarrow> nat" where
  "height Null = 0"
| "height (Node l x b r) = Suc (max (height l) (height r))"

primrec inorder :: "'a atree \<Rightarrow> 'a list" where
  "inorder Null = []"
| "inorder (Node l x b r) = inorder l @ x # inorder r"

primrec balanced :: "'a atree \<Rightarrow> bool" where
  "balanced Null = True"
| "balanced (Node l x b r) \<longleftrightarrow>
     balanced l \<and> balanced r \<and> b = int (height r) - int (height l) \<and> - 1 \<le> b \<and> b \<le> 1"

definition mk :: "bool \<Rightarrow> 'a atree \<Rightarrow> 'a \<Rightarrow> int \<Rightarrow> 'a atree \<Rightarrow> 'a atree" where
  "mk d c x b s = (if d then Node s x b c else Node c x b s)"

primrec sub :: "bool \<Rightarrow> 'a atree \<Rightarrow> 'a atree" where
  "sub d Null = Null"
| "sub d (Node l x b r) = (if d then r else l)"

subsection \<open>Rotation\<close>

definition child2balance :: "bool \<Rightarrow> int" where
  "child2balance d = (if d then 1 else - 1)"

text \<open>
  \<open>rot left c x s\<close> restores the balance of a node with datum \<open>x\<close>, tall child
  \<open>c\<close> on side \<open>left\<close> and other child \<open>s\<close>; the second component says whether
  the subtree became shorter.
\<close>

fun rot :: "bool \<Rightarrow> 'a atree \<Rightarrow> 'a \<Rightarrow> 'a atree \<Rightarrow> 'a atree \<times> bool" where
  "rot left Null x s = (mk left Null x 0 s, False)"
| "rot left (Node cl cx child_bal cr) x s =
     (let left_heavy = child2balance left; right_heavy = - left_heavy;
          outer = (if left then cr else cl); inner = (if left then cl else cr)
      in if child_bal \<noteq> right_heavy
         then let cb = child_bal + right_heavy
              in (mk left outer cx cb (mk left inner x (- cb) s), cb = 0)
         else case inner of
             Null \<Rightarrow> (mk left (Node cl cx child_bal cr) x 0 s, False)
           | Node gl gx balance gr \<Rightarrow>
               let gleft = (if left then gr else gl); gright = (if left then gl else gr)
               in (mk left
                     (mk left outer cx (if balance = right_heavy then left_heavy else 0) gleft)
                     gx 0
                     (mk left gright x (if balance = left_heavy then right_heavy else 0) s),
                   True))"

subsection \<open>Zippers\<close>

type_synonym path = "bool list"
type_synonym 'a frame = "bool \<times> 'a \<times> int \<times> 'a atree"

fun plug :: "'a frame list \<Rightarrow> 'a atree \<Rightarrow> 'a atree" where
  "plug [] t = t"
| "plug ((d, x, b, s) # fs) t = plug fs (mk d t x b s)"

fun zip_to :: "path \<Rightarrow> 'a atree \<Rightarrow> 'a frame list \<Rightarrow> 'a frame list \<times> 'a atree" where
  "zip_to [] t fs = (fs, t)"
| "zip_to (d # p) Null fs = (fs, Null)"
| "zip_to (d # p) (Node l x b r) fs =
     (if d then zip_to p r ((True, x, b, l) # fs) else zip_to p l ((False, x, b, r) # fs))"

text \<open>The data before and after the hole of a zipper, in order.\<close>

fun lefts :: "'a frame list \<Rightarrow> 'a list" where
  "lefts [] = []"
| "lefts ((d, x, b, s) # fs) = lefts fs @ (if d then inorder s @ [x] else [])"

fun rights :: "'a frame list \<Rightarrow> 'a list" where
  "rights [] = []"
| "rights ((d, x, b, s) # fs) = (if d then [] else x # inorder s) @ rights fs"

subsection \<open>Operations\<close>

primrec path_of :: "'a \<Rightarrow> 'a atree \<Rightarrow> path option" where
  "path_of x Null = None"
| "path_of x (Node l y b r) =
     (if x = y then Some []
      else case path_of x l of
          Some p \<Rightarrow> Some (False # p)
        | None \<Rightarrow> map_option (Cons True) (path_of x r))"

text \<open>
  \<open>tree_find cmp t\<close> searches with \<open>cmp = compar value\<close>: the datum found, and otherwise
  the path of the insertion point.
\<close>

primrec tree_find :: "('a \<Rightarrow> int) \<Rightarrow> 'a atree \<Rightarrow> 'a option \<times> path" where
  "tree_find cmp Null = (None, [])"
| "tree_find cmp (Node l x b r) =
     (if cmp x = 0 then (Some x, [])
      else if 0 < cmp x
      then (let (f, p) = tree_find cmp r in (f, True # p))
      else (let (f, p) = tree_find cmp l in (f, False # p)))"

primrec tree_extreme :: "bool \<Rightarrow> 'a atree \<Rightarrow> 'a option" where
  "tree_extreme d Null = None"
| "tree_extreme d (Node l x b r) =
     (case (if d then tree_extreme d r else tree_extreme d l) of None \<Rightarrow> Some x | Some y \<Rightarrow> Some y)"

abbreviation tree_first :: "'a atree \<Rightarrow> 'a option" where
  "tree_first \<equiv> tree_extreme False"

abbreviation tree_last :: "'a atree \<Rightarrow> 'a option" where
  "tree_last \<equiv> tree_extreme True"

fun climb :: "bool \<Rightarrow> 'a frame list \<Rightarrow> 'a option" where
  "climb dir [] = None"
| "climb dir ((d, x, b, s) # fs) = (if d \<noteq> dir then Some x else climb dir fs)"

definition tree_nearest :: "path \<Rightarrow> bool \<Rightarrow> 'a atree \<Rightarrow> 'a option" where
  "tree_nearest p dir t = climb dir (fst (zip_to p t []))"

definition tree_walk :: "'a \<Rightarrow> bool \<Rightarrow> 'a atree \<Rightarrow> 'a option" where
  "tree_walk x dir t =
     (case path_of x t of
        None \<Rightarrow> None
      | Some p \<Rightarrow>
          (let (fs, u) = zip_to p t []
           in if sub dir u \<noteq> Null then tree_extreme (\<not> dir) (sub dir u) else climb dir fs))"

abbreviation tree_next :: "'a \<Rightarrow> 'a atree \<Rightarrow> 'a option" where
  "tree_next x t \<equiv> tree_walk x True t"

abbreviation tree_prev :: "'a \<Rightarrow> 'a atree \<Rightarrow> 'a option" where
  "tree_prev x t \<equiv> tree_walk x False t"

fun insert_up :: "'a frame list \<Rightarrow> 'a atree \<Rightarrow> 'a atree" where
  "insert_up [] t = t"
| "insert_up ((which_child, x, old_balance, s) # fs) t =
     (let new_balance = old_balance + child2balance which_child
      in if new_balance = 0 then plug fs (mk which_child t x 0 s)
         else if old_balance \<noteq> 0 then plug fs (fst (rot which_child t x s))
         else insert_up fs (mk which_child t x new_balance s))"

definition tree_insert :: "'a \<Rightarrow> path \<Rightarrow> 'a atree \<Rightarrow> 'a atree" where
  "tree_insert x p t = insert_up (fst (zip_to p t [])) (Node Null x 0 Null)"

primrec spine :: "bool \<Rightarrow> 'a atree \<Rightarrow> path" where
  "spine d Null = []"
| "spine d (Node l x b r) = d # (if d then spine d r else spine d l)"

definition slot_beside :: "path \<Rightarrow> bool \<Rightarrow> 'a atree \<Rightarrow> path" where
  "slot_beside p dir t =
     (let c = sub dir (snd (zip_to p t [])) in p @ dir # spine (\<not> dir) c)"

definition tree_insert_here :: "'a \<Rightarrow> 'a \<Rightarrow> bool \<Rightarrow> 'a atree \<Rightarrow> 'a atree" where
  "tree_insert_here x here dir t =
     (case path_of here t of None \<Rightarrow> t | Some p \<Rightarrow> tree_insert x (slot_beside p dir t) t)"

fun delete_up :: "'a frame list \<Rightarrow> 'a atree \<Rightarrow> 'a atree" where
  "delete_up [] t = t"
| "delete_up ((which_child, x, old_balance, s) # fs) t =
     (let new_balance = old_balance - child2balance which_child
      in if old_balance = 0 then plug fs (mk which_child t x new_balance s)
         else if new_balance = 0 then delete_up fs (mk which_child t x 0 s)
         else (let (u, shorter) = rot (\<not> which_child) s x t
               in if shorter then delete_up fs u else plug fs u))"

text \<open>
  Removing the node at a path. A node with two children first trades its datum with the
  neighbour on its taller side, which sits at the end of the inner spine of that child.
\<close>

fun delete_at :: "'a frame list \<Rightarrow> 'a atree \<Rightarrow> 'a atree" where
  "delete_at fs Null = plug fs Null"
| "delete_at fs (Node l x b r) =
     (if l \<noteq> Null \<and> r \<noteq> Null
      then let left = (0 < b); c = (if left then r else l); s = (if left then l else r);
               (gs, n) = zip_to (butlast (spine (\<not> left) c)) c []
           in case n of
                Null \<Rightarrow> plug fs (Node l x b r)
              | Node nl y nb nr \<Rightarrow>
                  delete_up (gs @ (left, y, b, s) # fs) (if nl \<noteq> Null then nl else nr)
      else delete_up fs (if l \<noteq> Null then l else r))"

definition tree_remove :: "'a \<Rightarrow> 'a atree \<Rightarrow> 'a atree" where
  "tree_remove x t =
     (case path_of x t of None \<Rightarrow> t | Some p \<Rightarrow> (let (fs, u) = zip_to p t [] in delete_at fs u))"

definition tree_add :: "('a \<Rightarrow> 'a \<Rightarrow> int) \<Rightarrow> 'a \<Rightarrow> 'a atree \<Rightarrow> 'a atree" where
  "tree_add compar x t = tree_insert x (snd (tree_find (compar x) t)) t"

text \<open>
  The nodes a client loop \<^verbatim>\<open>for (; x; x = AVL_NEXT(t, x))\<close> visits. The fuel is the number of
  nodes, which the loop cannot exceed.
\<close>

fun walk_up :: "nat \<Rightarrow> 'a option \<Rightarrow> 'a atree \<Rightarrow> 'a list" where
  "walk_up (Suc n) (Some x) t = x # walk_up n (tree_next x t) t"
| "walk_up _ _ t = []"

definition tree_visit :: "'a option \<Rightarrow> 'a atree \<Rightarrow> 'a list" where
  "tree_visit x t = walk_up (length (inorder t)) x t"

text \<open>A client rewriting the data of one node in place.\<close>

definition tree_modify :: "'a \<Rightarrow> 'a \<Rightarrow> 'a atree \<Rightarrow> 'a atree" where
  "tree_modify x y = map_atree (\<lambda>z. if z = x then y else z)"

text \<open>The order in which the teardown walk hands nodes out.\<close>

primrec postorder :: "'a atree \<Rightarrow> 'a list" where
  "postorder Null = []"
| "postorder (Node l x b r) = postorder l @ postorder r @ [x]"

subsection \<open>Zipper lemmas\<close>

lemma inorder_mk [simp]:
  "inorder (mk d c x b s) = (if d then inorder s @ x # inorder c else inorder c @ x # inorder s)"
  by (simp add: mk_def)

lemma height_mk [simp]: "height (mk d c x b s) = Suc (max (height c) (height s))"
  by (simp add: mk_def max.commute)

lemma mk_neq_Null [simp]: "mk d c x b s \<noteq> Null" "Null \<noteq> mk d c x b s"
  by (simp_all add: mk_def)

lemma balanced_mk [simp]:
  "balanced (mk d c x b s) \<longleftrightarrow>
     balanced c \<and> balanced s \<and> b = child2balance d * (int (height c) - int (height s))
     \<and> - 1 \<le> b \<and> b \<le> 1"
  by (auto simp: mk_def child2balance_def)

lemma inorder_plug [simp]: "inorder (plug fs t) = lefts fs @ inorder t @ rights fs"
  by (induction fs t rule: plug.induct) auto

lemma plug_append [simp]: "plug (fs @ gs) t = plug gs (plug fs t)"
  by (induction fs t rule: plug.induct) auto

lemma plug_zip_to: "zip_to p t fs = (gs, u) \<Longrightarrow> plug gs u = plug fs t"
  by (induction p t fs rule: zip_to.induct) (auto simp: mk_def split: if_splits)

lemma inorder_zip_to:
  "zip_to p t [] = (fs, u) \<Longrightarrow> inorder t = lefts fs @ inorder u @ rights fs"
  using plug_zip_to [of p t "[]" fs u] by (metis inorder_plug plug.simps(1))

text \<open>A context accepts subtrees of one height: plugging such a subtree keeps the balances true.\<close>

fun ctx_ok :: "'a frame list \<Rightarrow> nat \<Rightarrow> bool" where
  "ctx_ok [] h = True"
| "ctx_ok ((d, x, b, s) # fs) h \<longleftrightarrow>
     balanced s \<and> b = child2balance d * (int h - int (height s)) \<and> - 1 \<le> b \<and> b \<le> 1
     \<and> ctx_ok fs (Suc (max h (height s)))"

lemma balanced_plug: "balanced (plug fs t) \<longleftrightarrow> balanced t \<and> ctx_ok fs (height t)"
  by (induction fs t rule: plug.induct) auto

lemma ctx_ok_append:
  "ctx_ok (fs @ gs) (height t) \<longleftrightarrow> ctx_ok fs (height t) \<and> ctx_ok gs (height (plug fs t))"
  by (induction fs t rule: plug.induct) auto

lemma ctx_ok_zip_to:
  assumes "balanced t" "zip_to p t [] = (fs, u)"
  shows "ctx_ok fs (height u)" "balanced u"
  using assms plug_zip_to [OF assms(2)] by (auto simp: balanced_plug)

subsection \<open>Rotation is correct\<close>

fun bal :: "'a atree \<Rightarrow> int" where
  "bal Null = 0"
| "bal (Node l x b r) = b"

lemma inorder_rot [simp]:
  "inorder (fst (rot d c x s)) =
     (if d then inorder s @ x # inorder c else inorder c @ x # inorder s)"
  by (cases c) (auto simp: Let_def split: atree.splits)

lemma balanced_Node_cases:
  assumes "balanced (Node l x b r)" "height (Node l x b r) = Suc h"
  obtains (lh) "b = - 1" "height l = h" "height r = h - 1" "0 < h"
    | (eq) "b = 0" "height l = h" "height r = h"
    | (rh) "b = 1" "height l = h - 1" "height r = h" "0 < h"
proof -
  have "b = - 1 \<and> height l = h \<and> height r = h - 1 \<and> 0 < h
    \<or> b = 0 \<and> height l = h \<and> height r = h
    \<or> b = 1 \<and> height l = h - 1 \<and> height r = h \<and> 0 < h"
    using assms by auto
  then show thesis using that by metis
qed

lemma balanced_rot_True:
  assumes "balanced c" "balanced s" "height s = n" "height c = Suc (Suc n)"
  shows "balanced (fst (rot True c x s))
     \<and> height (fst (rot True c x s)) = (if snd (rot True c x s) then height c else Suc (height c))
     \<and> (snd (rot True c x s) \<longleftrightarrow> bal c \<noteq> 0)"
proof -
  obtain cl cx cb cr where c: "c = Node cl cx cb cr"
    using assms(4) by (cases c) auto
  have "balanced (Node cl cx cb cr)" "height (Node cl cx cb cr) = Suc (Suc n)"
    using assms c by simp_all
  then show ?thesis
  proof (cases rule: balanced_Node_cases)
    case lh
    obtain gl gx gb gr where g: "cl = Node gl gx gb gr"
      using lh by (cases cl) auto
    have "balanced (Node gl gx gb gr)" "height (Node gl gx gb gr) = Suc n"
      using assms(1) c g lh by auto
    then show ?thesis
      using assms(1-3) lh unfolding c g
      by (cases rule: balanced_Node_cases) (simp_all add: child2balance_def mk_def)
  qed (use assms(1-3) c in \<open>simp_all add: child2balance_def mk_def\<close>)
qed

lemma balanced_rot_False:
  assumes "balanced c" "balanced s" "height s = n" "height c = Suc (Suc n)"
  shows "balanced (fst (rot False c x s))
     \<and> height (fst (rot False c x s)) = (if snd (rot False c x s) then height c else Suc (height c))
     \<and> (snd (rot False c x s) \<longleftrightarrow> bal c \<noteq> 0)"
proof -
  obtain cl cx cb cr where c: "c = Node cl cx cb cr"
    using assms(4) by (cases c) auto
  have "balanced (Node cl cx cb cr)" "height (Node cl cx cb cr) = Suc (Suc n)"
    using assms c by simp_all
  then show ?thesis
  proof (cases rule: balanced_Node_cases)
    case rh
    obtain gl gx gb gr where g: "cr = Node gl gx gb gr"
      using rh by (cases cr) auto
    have "balanced (Node gl gx gb gr)" "height (Node gl gx gb gr) = Suc n"
      using assms(1) c g rh by auto
    then show ?thesis
      using assms(1-3) rh unfolding c g
      by (cases rule: balanced_Node_cases) (simp_all add: child2balance_def mk_def)
  qed (use assms(1-3) c in \<open>simp_all add: child2balance_def mk_def\<close>)
qed

lemma balanced_rot:
  assumes "balanced c" "balanced s" "height c = height s + 2"
  shows "balanced (fst (rot d c x s))"
    and "height (fst (rot d c x s)) = (if snd (rot d c x s) then height c else Suc (height c))"
    and "snd (rot d c x s) \<longleftrightarrow> bal c \<noteq> 0"
  using balanced_rot_True [OF assms(1,2) refl, of x] balanced_rot_False [OF assms(1,2) refl, of x]
    assms(3) by (cases d; simp)+

subsection \<open>Insertion and deletion keep the balance\<close>

lemma inorder_insert_up [simp]: "inorder (insert_up fs t) = lefts fs @ inorder t @ rights fs"
  by (induction fs t rule: insert_up.induct) (auto simp: Let_def)

lemma balanced_insert_up:
  assumes "balanced t" "ctx_ok fs h" "height t = Suc h" "h = 0 \<or> bal t \<noteq> 0"
  shows "balanced (insert_up fs t)"
  using assms
proof (induction fs t arbitrary: h rule: insert_up.induct)
  case (1 t)
  then show ?case by simp
next
  case (2 d x b s fs t)
  let ?nb = "b + child2balance d"
  consider "?nb = 0" | "?nb \<noteq> 0" "b \<noteq> 0" | "?nb \<noteq> 0" "b = 0" by blast
  then show ?case
  proof cases
    case 1
    then show ?thesis using 2 by (auto simp: balanced_plug child2balance_def max_def split: if_splits)
  next
    case 2
    have h: "height t = height s + 2" "balanced s" "ctx_ok fs (Suc h)"
      using 2 "2.prems" by (auto simp: child2balance_def max_def split: if_splits)
    have "snd (rot d t x s)"
      using balanced_rot(3) [OF \<open>balanced t\<close> h(2,1)] "2.prems"(3,4) h(1) by auto
    then show ?thesis
      using balanced_rot(1,2) [OF \<open>balanced t\<close> h(2,1), of d x] h(3) 2 "2.prems"(3)
      by (simp add: balanced_plug Let_def)
  next
    case 3
    then have "height s = h" "ctx_ok fs (Suc h)" "balanced s"
      using "2.prems" by (auto simp: child2balance_def split: if_splits)
    then show ?thesis
      using "2.IH" [OF refl, of "Suc h"] 3 "2.prems"
      by (auto simp: Let_def child2balance_def mk_def split: if_splits)
  qed
qed

lemma inorder_delete_up [simp]: "inorder (delete_up fs t) = lefts fs @ inorder t @ rights fs"
proof (induction fs t rule: delete_up.induct)
  case (2 d x b s fs t)
  obtain u sh where u: "rot (\<not> d) s x t = (u, sh)" by fastforce
  then have "inorder u = inorder (mk d t x b s)"
    using inorder_rot [of "\<not> d" s x t] by simp
  with 2 u show ?case by (auto simp: Let_def)
qed simp

lemma balanced_delete_up:
  assumes "balanced t" "ctx_ok fs (Suc (height t))"
  shows "balanced (delete_up fs t)"
  using assms
proof (induction fs t rule: delete_up.induct)
  case (1 t)
  then show ?case by simp
next
  case (2 d x b s fs t)
  let ?nb = "b - child2balance d"
  consider "b = 0" | "b \<noteq> 0" "?nb = 0" | "b \<noteq> 0" "?nb \<noteq> 0" by blast
  then show ?case
  proof cases
    case 1
    then show ?thesis using 2 by (auto simp: balanced_plug child2balance_def max_def split: if_splits)
  next
    case 2
    then show ?thesis
      using "2.IH"(1) [OF refl] "2.prems"
      by (auto simp: Let_def child2balance_def max_def split: if_splits)
  next
    case 3
    have h: "height s = height t + 2" "balanced s" "ctx_ok fs (Suc (height s))"
      using 3 "2.prems" by (auto simp: child2balance_def max_def split: if_splits)
    obtain u sh where u: "rot (\<not> d) s x t = (u, sh)" by fastforce
    have "balanced u" "height u = (if sh then height s else Suc (height s))"
      using balanced_rot(1,2) [OF h(2) \<open>balanced t\<close> h(1), of "\<not> d" x] u by auto
    then show ?thesis
      using "2.IH"(2) [OF refl _ _ u [symmetric] refl] 3 u h by (auto simp: balanced_plug Let_def)
  qed
qed

end
