(* ===== verification/Avl_Spec.thy ===== *)
theory Avl_Spec
  imports Avl_Tree
begin

text \<open>
  What a client of the AVL trees may rely on, as a locale over the in-order sequence of the
  data, and the proof that the trees of \<open>Avl_Tree\<close> keep that contract. A slot is the
  \<^verbatim>\<open>avl_index_t\<close> cookie: it splits the sequence into the data before and after it.
\<close>

subsection \<open>Slots\<close>

definition before :: "path \<Rightarrow> 'a atree \<Rightarrow> 'a list" where
  "before p t = lefts (fst (zip_to p t []))"

definition after :: "path \<Rightarrow> 'a atree \<Rightarrow> 'a list" where
  "after p t = rights (fst (zip_to p t []))"

definition is_slot :: "path \<Rightarrow> 'a atree \<Rightarrow> bool" where
  "is_slot p t \<longleftrightarrow> snd (zip_to p t []) = Null"

lemma zip_to_stack:
  "zip_to p t fs = (fst (zip_to p t []) @ fs, snd (zip_to p t []))"
proof (induction p arbitrary: t fs)
  case (Cons d p)
  show ?case
  proof (cases t)
    case (Node l x b r)
    then show ?thesis
      using Cons [of r "(True, x, b, l) # fs"] Cons [of r "[(True, x, b, l)]"]
        Cons [of l "(False, x, b, r) # fs"] Cons [of l "[(False, x, b, r)]"]
      by simp
  qed simp
qed simp

lemma zip_to_Null [simp]: "zip_to p Null fs = (fs, Null)"
  by (cases p) auto

lemma zip_to_append:
  "zip_to (p @ q) t fs = (let (gs, u) = zip_to p t fs in zip_to q u gs)"
  by (induction p t fs rule: zip_to.induct) auto

lemma lefts_append [simp]: "lefts (fs @ gs) = lefts gs @ lefts fs"
  by (induction fs) auto

lemma rights_append [simp]: "rights (fs @ gs) = rights fs @ rights gs"
  by (induction fs) auto

lemma slot_splits: "is_slot p t \<Longrightarrow> inorder t = before p t @ after p t"
  using inorder_zip_to [of p t]
  by (auto simp: is_slot_def before_def after_def prod_eq_iff)

lemma slot_Node [simp]:
  "before (d # p) (Node l x b r) = (if d then inorder l @ x # before p r else before p l)"
  "after (d # p) (Node l x b r) = (if d then after p r else after p l @ x # inorder r)"
  "is_slot (d # p) (Node l x b r) \<longleftrightarrow> is_slot p (if d then r else l)"
  using zip_to_stack [of p r "[(True, x, b, l)]"] zip_to_stack [of p l "[(False, x, b, r)]"]
  by (simp_all add: before_def after_def is_slot_def)

lemma slot_Null [simp]: "before p Null = []" "after p Null = []" "is_slot p Null"
  by (simp_all add: before_def after_def is_slot_def)

subsection \<open>Searching\<close>

text \<open>
  \<open>descending cmp xs\<close>: along the sequence the comparison of the searched value against the
  data goes from positive over zero to negative. It is all that the binary search needs, and it
  holds as well for comparison functions such as that of the space maps, which call
  overlapping segments equal.
\<close>

definition descending :: "('a \<Rightarrow> int) \<Rightarrow> 'a list \<Rightarrow> bool" where
  "descending cmp = sorted_wrt (\<lambda>x y. sgn (cmp y) \<le> sgn (cmp x))"

lemma descending_append:
  "descending cmp (xs @ ys) \<longleftrightarrow>
     descending cmp xs \<and> descending cmp ys \<and> (\<forall>x\<in>set xs. \<forall>y\<in>set ys. sgn (cmp y) \<le> sgn (cmp x))"
  by (simp add: descending_def sorted_wrt_append)

lemma descending_Cons:
  "descending cmp (x # xs) \<longleftrightarrow> (\<forall>y\<in>set xs. sgn (cmp y) \<le> sgn (cmp x)) \<and> descending cmp xs"
  by (simp add: descending_def)

lemma descending_Nil [simp]: "descending cmp []"
  by (simp add: descending_def)

lemma tree_find_Some: "tree_find cmp t = (Some x, p) \<Longrightarrow> x \<in> set (inorder t) \<and> cmp x = 0"
  by (induction t arbitrary: p) (auto split: if_splits prod.splits)

lemma tree_find_None:
  assumes "descending cmp (inorder t)" "tree_find cmp t = (None, p)"
  shows "is_slot p t \<and> (\<forall>x\<in>set (before p t). 0 < cmp x) \<and> (\<forall>x\<in>set (after p t). cmp x < 0)"
  using assms
proof (induction t arbitrary: p)
  case (Node l x b r)
  show ?case
  proof (cases "0 < cmp x")
    case True
    then obtain q where q: "tree_find cmp r = (None, q)" "p = True # q"
      using Node.prems(2) by (auto split: prod.splits if_splits)
    then show ?thesis
      using True Node.IH(2) [OF _ q(1)] Node.prems(1)
      by (auto simp: descending_append descending_Cons sgn_if split: if_splits)
  next
    case False
    then have "cmp x < 0" using Node.prems(2) by (auto split: if_splits)
    then obtain q where q: "tree_find cmp l = (None, q)" "p = False # q"
      using Node.prems(2) by (auto split: prod.splits if_splits)
    then show ?thesis
      using \<open>cmp x < 0\<close> Node.IH(1) [OF _ q(1)] Node.prems(1)
      by (auto simp: descending_append descending_Cons sgn_if split: if_splits)
  qed
qed simp

lemma tree_find_complete:
  assumes "descending cmp (inorder t)" "x \<in> set (inorder t)" "cmp x = 0"
  shows "\<exists>y p. tree_find cmp t = (Some y, p)"
proof (cases "tree_find cmp t")
  case (Pair f p)
  show ?thesis
  proof (cases f)
    case None
    then have "\<forall>y\<in>set (before p t) \<union> set (after p t). cmp y \<noteq> 0"
        "inorder t = before p t @ after p t"
      using tree_find_None [OF assms(1), of p] Pair by (auto simp: slot_splits)
    then show ?thesis using assms(2,3) by auto
  qed (use Pair in auto)
qed

subsection \<open>Neighbours\<close>

lemma tree_extreme_ends:
  "tree_extreme False t = first_of (inorder t)" "tree_extreme True t = last_of (inorder t)"
  by (induction t) (auto simp: first_of_append last_of_append last_of_Cons split: option.splits)

lemma climb_ends: "climb False fs = last_of (lefts fs)" "climb True fs = first_of (rights fs)"
  by (induction fs) (auto simp: first_of_append last_of_append split: option.splits)

lemma tree_nearest_ends:
  "tree_nearest p False t = last_of (before p t)" "tree_nearest p True t = first_of (after p t)"
  by (simp_all add: tree_nearest_def before_def after_def climb_ends)

lemma path_of_None: "path_of x t = None \<longleftrightarrow> x \<notin> set (inorder t)"
  by (induction t) (auto split: option.splits)

lemma path_of_Some: "path_of x t = Some p \<Longrightarrow> \<exists>fs l b r. zip_to p t [] = (fs, Node l x b r)"
proof (induction t arbitrary: p)
  case (Node l y b r)
  then show ?case
    using zip_to_stack [of _ r "[(True, y, b, l)]"] zip_to_stack [of _ l "[(False, y, b, r)]"]
    by (fastforce split: if_splits option.splits)
qed simp

lemma path_ofE:
  assumes "x \<in> set (inorder t)"
  obtains p fs l b r where "path_of x t = Some p" "zip_to p t [] = (fs, Node l x b r)"
    "inorder t = (lefts fs @ inorder l) @ x # (inorder r @ rights fs)"
proof -
  obtain p where p: "path_of x t = Some p"
    using assms path_of_None [of x t] by auto
  obtain fs l b r where z: "zip_to p t [] = (fs, Node l x b r)"
    using path_of_Some [OF p] by blast
  show thesis
    using that [OF p z] inorder_zip_to [OF z] by simp
qed

lemma distinct_split_unique:
  assumes "distinct (as @ x # bs)" "as @ x # bs = cs @ x # ds"
  shows "as = cs \<and> bs = ds"
proof -
  have "x \<notin> set as" "x \<notin> set bs"
    using assms(1) by auto
  then show ?thesis
    using assms(2) by (simp add: append_Cons_eq_iff)
qed

lemma tree_walk_at:
  assumes "distinct (inorder t)" "inorder t = as @ x # bs"
  shows "tree_walk x True t = first_of bs" "tree_walk x False t = last_of as"
proof -
  obtain p fs l b r where p: "path_of x t = Some p" and z: "zip_to p t [] = (fs, Node l x b r)"
    and i: "inorder t = (lefts fs @ inorder l) @ x # (inorder r @ rights fs)"
    using assms(2) by (metis in_set_conv_decomp path_ofE)
  have "as = lefts fs @ inorder l" "bs = inorder r @ rights fs"
    using distinct_split_unique [of as x bs] assms i by metis+
  moreover have "u = Null \<longleftrightarrow> inorder u = []" for u :: "'a atree"
    by (cases u) auto
  ultimately show "tree_walk x True t = first_of bs" "tree_walk x False t = last_of as"
    using p z
    by (auto simp: tree_walk_def tree_extreme_ends climb_ends first_of_append last_of_append
        split: option.splits)
qed

subsection \<open>Insertion\<close>

lemma walk_up_at:
  assumes "distinct (inorder t)" "inorder t = as @ bs" "length bs \<le> n"
  shows "walk_up n (first_of bs) t = bs"
  using assms(2,3)
proof (induction bs arbitrary: as n)
  case (Cons x bs)
  then obtain m where "n = Suc m" by (cases n) auto
  with Cons show ?case
    using tree_walk_at(1) [OF assms(1), of as x bs] Cons.IH [of "as @ [x]" m] by simp
qed simp

lemma tree_visit_from:
  assumes "distinct (inorder t)" "inorder t = as @ bs"
  shows "tree_visit (first_of bs) t = bs"
  unfolding tree_visit_def using assms by (intro walk_up_at) auto

lemma tree_visit_first: "distinct (inorder t) \<Longrightarrow> tree_visit (tree_first t) t = inorder t"
  using tree_visit_from [of t "[]"] by (simp add: tree_extreme_ends)

lemma inorder_tree_insert:
  "is_slot p t \<Longrightarrow> inorder (tree_insert x p t) = before p t @ x # after p t"
  by (simp add: tree_insert_def before_def after_def)

lemma balanced_tree_insert:
  assumes "balanced t" "is_slot p t"
  shows "balanced (tree_insert x p t)"
proof -
  obtain fs where z: "zip_to p t [] = (fs, Null)"
    using assms(2) by (cases "zip_to p t []") (auto simp: is_slot_def)
  have "ctx_ok fs 0"
    using ctx_ok_zip_to(1) [OF assms(1) z] by simp
  then show ?thesis
    using z balanced_insert_up [of "Node Null x 0 Null" fs 0] by (simp add: tree_insert_def)
qed

lemma zip_to_spine:
  "is_slot (spine d c) c"
  "before (spine False c) c = []" "after (spine False c) c = inorder c"
  "before (spine True c) c = inorder c" "after (spine True c) c = []"
  by (induction c) auto

lemma slot_beside_at:
  assumes "distinct (inorder t)" "inorder t = as @ x # bs" "path_of x t = Some p"
  shows "is_slot (slot_beside p dir t) t"
    and "before (slot_beside p dir t) t = (if dir then as @ [x] else as)"
    and "after (slot_beside p dir t) t = (if dir then bs else x # bs)"
proof -
  obtain fs l b r where z: "zip_to p t [] = (fs, Node l x b r)"
    using path_of_Some [OF assms(3)] by blast
  have e: "as = lefts fs @ inorder l" "bs = inorder r @ rights fs"
    using distinct_split_unique [of as x bs "lefts fs @ inorder l" "inorder r @ rights fs"]
      inorder_zip_to [OF z] assms(1,2) by simp_all
  have "zip_to (slot_beside p dir t) t [] =
      (let q = spine (\<not> dir) (if dir then r else l); (gs, u) = zip_to q (if dir then r else l) []
       in (gs @ (if dir then (True, x, b, l) else (False, x, b, r)) # fs, u))"
    using zip_to_stack [of "spine False r" r "(True, x, b, l) # fs"]
      zip_to_stack [of "spine True l" l "(False, x, b, r) # fs"]
    by (auto simp: slot_beside_def zip_to_append z Let_def split: prod.splits)
  then show "is_slot (slot_beside p dir t) t"
    and "before (slot_beside p dir t) t = (if dir then as @ [x] else as)"
    and "after (slot_beside p dir t) t = (if dir then bs else x # bs)"
    using zip_to_spine(1) [of False r] zip_to_spine(2,3) [of r] zip_to_spine(1) [of True l]
      zip_to_spine(4,5) [of l]
    by (auto simp: is_slot_def before_def after_def e Let_def split: prod.splits)
qed

lemma tree_insert_here_at:
  assumes "distinct (inorder t)" "inorder t = as @ here # bs"
  shows "inorder (tree_insert_here x here dir t) =
      (if dir then as @ here # x # bs else as @ x # here # bs)"
    and "balanced t \<Longrightarrow> balanced (tree_insert_here x here dir t)"
proof -
  obtain p where p: "path_of here t = Some p"
    using assms(2) path_of_None [of here t] by auto
  note s = slot_beside_at [OF assms p]
  show "inorder (tree_insert_here x here dir t) =
      (if dir then as @ here # x # bs else as @ x # here # bs)"
    using s by (simp add: tree_insert_here_def p inorder_tree_insert)
  show "balanced t \<Longrightarrow> balanced (tree_insert_here x here dir t)"
    using s(1) by (simp add: tree_insert_here_def p balanced_tree_insert)
qed

subsection \<open>Removal\<close>

lemma zip_to_butlast_spine:
  assumes "c \<noteq> Null"
  shows "\<exists>gs l y b r. zip_to (butlast (spine d c)) c [] = (gs, Node l y b r)
    \<and> (if d then r = Null \<and> rights gs = [] else l = Null \<and> lefts gs = [])"
  using assms
proof (induction c)
  case (Node l x b r)
  let ?c = "if d then r else l"
  show ?case
  proof (cases "?c = Null")
    case True
    then show ?thesis by (auto split: if_splits)
  next
    case False
    then have ne: "spine d ?c \<noteq> []" by (cases ?c) auto
    have "\<exists>gs l y b r. zip_to (butlast (spine d ?c)) ?c [] = (gs, Node l y b r)
        \<and> (if d then r = Null \<and> rights gs = [] else l = Null \<and> lefts gs = [])"
      using Node.IH False by (cases d) auto
    then show ?thesis
      using ne zip_to_stack [of "butlast (spine d r)" r "[(True, x, b, l)]"]
        zip_to_stack [of "butlast (spine d l)" l "[(False, x, b, r)]"]
      by (cases d) auto
  qed
qed simp

lemma delete_at_two:
  assumes "l \<noteq> Null" "r \<noteq> Null"
  shows "\<exists>gs nl y nb nr.
    delete_at fs (Node l x b r) =
       delete_up (gs @ (0 < b, y, b, if 0 < b then l else r) # fs) (if nl \<noteq> Null then nl else nr)
    \<and> plug gs (Node nl y nb nr) = (if 0 < b then r else l)
    \<and> (if 0 < b then nl = Null \<and> lefts gs = [] else nr = Null \<and> rights gs = [])"
proof -
  define left where "left \<longleftrightarrow> 0 < b"
  define c where "c = (if left then r else l)"
  have "c \<noteq> Null" using assms by (simp add: c_def)
  then obtain gs nl y nb nr where
    z: "zip_to (butlast (spine (\<not> left) c)) c [] = (gs, Node nl y nb nr)" and
    e: "if \<not> left then nr = Null \<and> rights gs = [] else nl = Null \<and> lefts gs = []"
    using zip_to_butlast_spine [of c "\<not> left"] by blast
  have "delete_at fs (Node l x b r) =
       delete_up (gs @ (left, y, b, if left then l else r) # fs) (if nl \<noteq> Null then nl else nr)"
    using assms z by (simp add: Let_def flip: left_def c_def)
  then show ?thesis
    using e plug_zip_to [OF z] unfolding left_def c_def
    by (intro exI [of _ gs] exI [of _ nl] exI [of _ y] exI [of _ nb] exI [of _ nr]) simp
qed

lemma inorder_delete_at:
  "inorder (delete_at fs (Node l x b r)) = lefts fs @ inorder l @ inorder r @ rights fs"
proof (cases "l \<noteq> Null \<and> r \<noteq> Null")
  case True
  obtain gs nl y nb nr where
    d: "delete_at fs (Node l x b r) =
      delete_up (gs @ (0 < b, y, b, if 0 < b then l else r) # fs) (if nl \<noteq> Null then nl else nr)"
    and p: "plug gs (Node nl y nb nr) = (if 0 < b then r else l)"
    and e: "if 0 < b then nl = Null \<and> lefts gs = [] else nr = Null \<and> rights gs = []"
    using delete_at_two [of l r fs x b] True by blast
  have "lefts gs @ inorder nl @ y # inorder nr @ rights gs = inorder (if 0 < b then r else l)"
    using arg_cong [OF p, of inorder] by simp
  then show ?thesis
    unfolding d using e by (auto split: if_splits)
qed auto

lemma balanced_delete_at:
  assumes "balanced (Node l x b r)" "ctx_ok fs (height (Node l x b r))"
  shows "balanced (delete_at fs (Node l x b r))"
proof (cases "l \<noteq> Null \<and> r \<noteq> Null")
  case True
  obtain gs nl y nb nr where
    d: "delete_at fs (Node l x b r) =
      delete_up (gs @ (0 < b, y, b, if 0 < b then l else r) # fs) (if nl \<noteq> Null then nl else nr)"
    and p: "plug gs (Node nl y nb nr) = (if 0 < b then r else l)"
    and e: "if 0 < b then nl = Null \<and> lefts gs = [] else nr = Null \<and> rights gs = []"
    using delete_at_two [of l r fs x b] True by blast
  let ?n = "Node nl y nb nr" and ?u = "if nl \<noteq> Null then nl else nr"
  have "balanced (plug gs ?n)"
    using assms(1) unfolding p by simp
  then have n: "balanced ?n" "ctx_ok gs (height ?n)"
    unfolding balanced_plug by blast+
  have h: "height ?n = Suc (height ?u)"
    using e by (auto split: if_splits)
  have "ctx_ok ((0 < b, y, b, if 0 < b then l else r) # fs) (height (plug gs ?n))"
    unfolding p using assms by (auto simp: child2balance_def max.commute)
  with n(2) have "ctx_ok (gs @ (0 < b, y, b, if 0 < b then l else r) # fs) (Suc (height ?u))"
    unfolding h [symmetric] ctx_ok_append by blast
  then show ?thesis
    unfolding d using n(1) by (intro balanced_delete_up) auto
next
  case False
  then show ?thesis
    using assms by (auto intro!: balanced_delete_up split: if_splits)
qed

lemma tree_remove_at:
  assumes "distinct (inorder t)" "inorder t = as @ x # bs"
  shows "inorder (tree_remove x t) = as @ bs"
    and "balanced t \<Longrightarrow> balanced (tree_remove x t)"
proof -
  obtain p fs l b r where p: "path_of x t = Some p" and z: "zip_to p t [] = (fs, Node l x b r)"
    and i: "inorder t = (lefts fs @ inorder l) @ x # (inorder r @ rights fs)"
    using assms(2) by (metis in_set_conv_decomp path_ofE)
  have "as = lefts fs @ inorder l" "bs = inorder r @ rights fs"
    using distinct_split_unique [of as x bs] assms i by metis+
  then show "inorder (tree_remove x t) = as @ bs"
    using p z by (simp add: tree_remove_def inorder_delete_at del: delete_at.simps)
  show "balanced t \<Longrightarrow> balanced (tree_remove x t)"
    using p z ctx_ok_zip_to [OF _ z]
    by (simp add: tree_remove_def balanced_delete_at del: delete_at.simps balanced.simps height.simps)
qed

subsection \<open>Rewriting data in place, teardown\<close>

lemma height_map [simp]: "height (map_atree f t) = height t"
  by (induction t) auto

lemma balanced_map [simp]: "balanced (map_atree f t) = balanced t"
  by (induction t) auto

lemma inorder_map [simp]: "inorder (map_atree f t) = map f (inorder t)"
  by (induction t) auto

lemma tree_modify_at:
  assumes "distinct (inorder t)" "inorder t = as @ x # bs"
  shows "inorder (tree_modify x y t) = as @ y # bs"
    and "balanced (tree_modify x y t) \<longleftrightarrow> balanced t"
proof -
  have "x \<notin> set as" "x \<notin> set bs"
    using assms by auto
  then have "map (\<lambda>z. if z = x then y else z) as = as" "map (\<lambda>z. if z = x then y else z) bs = bs"
    by (auto intro!: map_idI)
  then show "inorder (tree_modify x y t) = as @ y # bs"
    by (simp add: tree_modify_def assms(2))
  show "balanced (tree_modify x y t) \<longleftrightarrow> balanced t"
    by (simp add: tree_modify_def)
qed

lemma set_postorder [simp]: "set (postorder t) = set (inorder t)"
  by (induction t) auto

lemma distinct_postorder: "distinct (inorder t) \<Longrightarrow> distinct (postorder t)"
  by (induction t) auto

subsection \<open>The contract\<close>

text \<open>
  The interface the space maps, the block allocators and the range locks are written against:
  \<open>seq\<close> is the sequence of data in ascending order, \<open>ok\<close> the representation
  invariant, \<open>pre\<close> and \<open>post\<close> the two halves at a slot.
\<close>

locale ordered_tree =
  fixes ok :: "'t \<Rightarrow> bool"
    and seq :: "'t \<Rightarrow> 'a list"
    and slot :: "'w \<Rightarrow> 't \<Rightarrow> bool"
    and pre :: "'w \<Rightarrow> 't \<Rightarrow> 'a list"
    and post :: "'w \<Rightarrow> 't \<Rightarrow> 'a list"
    and find :: "('a \<Rightarrow> int) \<Rightarrow> 't \<Rightarrow> 'a option \<times> 'w"
    and nearest :: "'w \<Rightarrow> bool \<Rightarrow> 't \<Rightarrow> 'a option"
    and walk :: "'a \<Rightarrow> bool \<Rightarrow> 't \<Rightarrow> 'a option"
    and insert :: "'a \<Rightarrow> 'w \<Rightarrow> 't \<Rightarrow> 't"
    and remove :: "'a \<Rightarrow> 't \<Rightarrow> 't"
    and modify :: "'a \<Rightarrow> 'a \<Rightarrow> 't \<Rightarrow> 't"
  assumes find_Some: "find cmp t = (Some x, w) \<Longrightarrow> x \<in> set (seq t) \<and> cmp x = 0"
    and find_None: "descending cmp (seq t) \<Longrightarrow> find cmp t = (None, w) \<Longrightarrow>
      slot w t \<and> (\<forall>x\<in>set (pre w t). 0 < cmp x) \<and> (\<forall>x\<in>set (post w t). cmp x < 0)"
    and slot_seq: "slot w t \<Longrightarrow> seq t = pre w t @ post w t"
    and nearest_before: "nearest w False t = last_of (pre w t)"
    and nearest_after: "nearest w True t = first_of (post w t)"
    and walk_next: "distinct (seq t) \<Longrightarrow> seq t = as @ x # bs \<Longrightarrow> walk x True t = first_of bs"
    and walk_prev: "distinct (seq t) \<Longrightarrow> seq t = as @ x # bs \<Longrightarrow> walk x False t = last_of as"
    and insert_seq: "slot w t \<Longrightarrow> seq (insert x w t) = pre w t @ x # post w t"
    and remove_seq: "distinct (seq t) \<Longrightarrow> seq t = as @ x # bs \<Longrightarrow> seq (remove x t) = as @ bs"
    and modify_seq: "distinct (seq t) \<Longrightarrow> seq t = as @ x # bs \<Longrightarrow> seq (modify x y t) = as @ y # bs"
    and insert_ok: "ok t \<Longrightarrow> slot w t \<Longrightarrow> ok (insert x w t)"
    and remove_ok: "ok t \<Longrightarrow> distinct (seq t) \<Longrightarrow> x \<in> set (seq t) \<Longrightarrow> ok (remove x t)"
    and modify_ok: "ok t \<Longrightarrow> ok (modify x y t)"
begin

lemma find_decides:
  assumes "descending cmp (seq t)"
  shows "fst (find cmp t) = None \<longleftrightarrow> (\<forall>x\<in>set (seq t). cmp x \<noteq> 0)"
proof (cases "find cmp t")
  case (Pair f w)
  then show ?thesis
    using find_None [OF assms, of w] find_Some [of cmp t _ w] slot_seq [of w t]
    by (cases f) fastforce+
qed

lemma find_slot:
  assumes "descending cmp (seq t)" "fst (find cmp t) = None"
  obtains w where "find cmp t = (None, w)" "slot w t" "seq t = pre w t @ post w t"
    "\<forall>x\<in>set (pre w t). 0 < cmp x" "\<forall>x\<in>set (post w t). cmp x < 0"
  using assms find_None slot_seq by (metis prod.collapse)

lemma set_remove:
  assumes "distinct (seq t)" "x \<in> set (seq t)"
  shows "set (seq (remove x t)) = set (seq t) - {x}"
    and "distinct (seq (remove x t))"
proof -
  obtain as bs where s: "seq t = as @ x # bs"
    using assms(2) by (meson split_list)
  then show "set (seq (remove x t)) = set (seq t) - {x}" "distinct (seq (remove x t))"
    using assms(1) remove_seq [OF assms(1) s] by auto
qed

lemma sorted_remove:
  assumes "sorted_wrt R (seq t)" "distinct (seq t)" "x \<in> set (seq t)"
  shows "sorted_wrt R (seq (remove x t))"
proof -
  obtain as bs where s: "seq t = as @ x # bs"
    using assms(3) by (meson split_list)
  then show ?thesis
    using assms remove_seq [OF assms(2) s] by (auto simp: sorted_wrt_append)
qed

lemma sorted_insert:
  assumes "sorted_wrt R (seq t)" "descending cmp (seq t)" "find cmp t = (None, w)"
    and "\<And>y. y \<in> set (seq t) \<Longrightarrow> 0 < cmp y \<Longrightarrow> R y x"
    and "\<And>y. y \<in> set (seq t) \<Longrightarrow> cmp y < 0 \<Longrightarrow> R x y"
  shows "sorted_wrt R (seq (insert x w t))"
    and "set (seq (insert x w t)) = Set.insert x (set (seq t))"
proof -
  have w: "slot w t" "\<forall>x\<in>set (pre w t). 0 < cmp x" "\<forall>x\<in>set (post w t). cmp x < 0"
    using find_None [OF assms(2,3)] by auto
  note s = slot_seq [OF w(1)] and i = insert_seq [OF w(1), of x]
  show "sorted_wrt R (seq (insert x w t))"
    using assms(1,4,5) w(2,3) unfolding s i by (auto simp: sorted_wrt_append)
  show "set (seq (insert x w t)) = Set.insert x (set (seq t))"
    unfolding s i by auto
qed

end

interpretation avl: ordered_tree balanced inorder is_slot before after
  tree_find tree_nearest tree_walk tree_insert tree_remove tree_modify
proof unfold_locales
  fix t :: "'a atree" and x
  assume "balanced t" "distinct (inorder t)" "x \<in> set (inorder t)"
  then show "balanced (tree_remove x t)"
    by (metis split_list tree_remove_at(2))
next
  fix t :: "'a atree" and x y
  assume "balanced t"
  then show "balanced (tree_modify x y t)" by (simp add: tree_modify_def)
qed (auto simp: tree_find_Some tree_find_None slot_splits tree_nearest_ends tree_walk_at
    inorder_tree_insert tree_remove_at tree_modify_at balanced_tree_insert
    dest: tree_find_Some tree_find_None)

subsection \<open>Comparison functions\<close>

text \<open>
  What \<^verbatim>\<open>avl_compar\<close> callbacks that order whole keys promise: a strict weak order. A tree
  sorted by such a function can be searched for any key, and \<^verbatim>\<open>avl_add()\<close> of a new key keeps
  it sorted.
\<close>

locale compare_fn =
  fixes compar :: "'a \<Rightarrow> 'a \<Rightarrow> int"
  assumes flip: "compar y x < 0 \<longleftrightarrow> 0 < compar x y"
    and trans: "compar x y < 0 \<Longrightarrow> compar y z < 0 \<Longrightarrow> compar x z < 0"
    and eq_left: "compar x y = 0 \<Longrightarrow> compar y z < 0 \<Longrightarrow> compar x z < 0"
begin

lemma compar_self [simp]: "compar x x = 0"
  using flip [of x x] by linarith

lemma descending_sorted:
  assumes "sorted_wrt (\<lambda>a b. compar a b < 0) xs"
  shows "descending (compar x) xs"
proof -
  have "sgn (compar x b) \<le> sgn (compar x a)" if "compar a b < 0" for a b
  proof -
    consider "compar x a < 0" | "compar x a = 0" | "0 < compar x a" by linarith
    then show ?thesis
      using that trans [of x a b] eq_left [of x a b] by cases (auto simp: sgn_if)
  qed
  then show ?thesis
    unfolding descending_def by (rule sorted_wrt_mono_rel [rotated, OF assms])
qed

lemma distinct_sorted: "sorted_wrt (\<lambda>a b. compar a b < 0) xs \<Longrightarrow> distinct xs"
  by (induction xs) auto

lemma tree_add_new:
  assumes "balanced t" "sorted_wrt (\<lambda>a b. compar a b < 0) (inorder t)"
    and "\<forall>y\<in>set (inorder t). compar x y \<noteq> 0"
  shows "balanced (tree_add compar x t)"
    and "sorted_wrt (\<lambda>a b. compar a b < 0) (inorder (tree_add compar x t))"
    and "set (inorder (tree_add compar x t)) = Set.insert x (set (inorder t))"
proof -
  note d = descending_sorted [OF assms(2), of x]
  have f: "fst (tree_find (compar x) t) = None"
    using avl.find_decides [OF d] assms(3) by simp
  define w where "w = snd (tree_find (compar x) t)"
  have w: "tree_find (compar x) t = (None, w)"
    using f by (simp add: w_def prod_eq_iff)
  have sl: "is_slot w t"
    using avl.find_None [OF d w] by simp
  have flip': "0 < compar x y \<Longrightarrow> compar y x < 0" for y
    using flip by blast
  show "balanced (tree_add compar x t)"
    using w sl assms(1) by (simp add: tree_add_def avl.insert_ok)
  show "sorted_wrt (\<lambda>a b. compar a b < 0) (inorder (tree_add compar x t))"
    and "set (inorder (tree_add compar x t)) = Set.insert x (set (inorder t))"
    using avl.sorted_insert [OF assms(2) d w, of x] flip' w by (auto simp: tree_add_def)
qed

lemma tree_remove_sorted:
  assumes "balanced t" "sorted_wrt (\<lambda>a b. compar a b < 0) (inorder t)" "x \<in> set (inorder t)"
  shows "balanced (tree_remove x t)"
    and "sorted_wrt (\<lambda>a b. compar a b < 0) (inorder (tree_remove x t))"
    and "set (inorder (tree_remove x t)) = set (inorder t) - {x}"
proof -
  note d = distinct_sorted [OF assms(2)]
  show "balanced (tree_remove x t)"
    by (rule avl.remove_ok [OF assms(1) d assms(3)])
  show "sorted_wrt (\<lambda>a b. compar a b < 0) (inorder (tree_remove x t))"
    by (rule avl.sorted_remove [OF assms(2) d assms(3)])
  show "set (inorder (tree_remove x t)) = set (inorder t) - {x}"
    by (rule avl.set_remove(1) [OF d assms(3)])
qed

end

end
