(* ===== verification/Space_Map.thy ===== *)
theory Space_Map
  imports Avl_Spec
begin

text \<open>
  The in-core space maps of \<^verbatim>\<open>lib/libzpool/space_map.c\<close>: a set of 64-bit offsets kept as an
  AVL tree of maximal disjoint segments, with the size-ordered picker tree of
  \<^verbatim>\<open>lib/libzpool/metaslab.c\<close> beside it. Locks and condition variables are left out: the callers
  hold \<^verbatim>\<open>sm_lock\<close> around every routine here.
\<close>

record space_seg =
  ss_start :: u64
  ss_end :: u64

datatype space_map_ops = Metaslab_ff_ops | Metaslab_df_ops | Metaslab_cdf_ops | Metaslab_ndf_ops

record space_map =
  sm_root :: "space_seg atree"
  sm_space :: u64
  sm_start :: u64
  sm_size :: u64
  sm_shift :: u8
  sm_loaded :: bool
  sm_loading :: bool
  sm_ops :: "space_map_ops option"
  sm_pp_root :: "space_seg atree option"
  sm_ppd :: "u64 list option"

definition space_map_seg_compare :: "space_seg \<Rightarrow> space_seg \<Rightarrow> int" where
  "space_map_seg_compare s1 s2 =
     (if ss_start s1 < ss_start s2
      then (if ss_start s2 < ss_end s1 then 0 else - 1)
      else if ss_start s2 < ss_start s1
      then (if ss_start s1 < ss_end s2 then 0 else 1)
      else 0)"

definition metaslab_segsize_compare :: "space_seg \<Rightarrow> space_seg \<Rightarrow> int" where
  "metaslab_segsize_compare s1 s2 =
     (let ss_size1 = ss_end s1 - ss_start s1; ss_size2 = ss_end s2 - ss_start s2
      in if ss_size1 < ss_size2 then - 1
         else if ss_size2 < ss_size1 then 1
         else if ss_start s1 < ss_start s2 then - 1
         else if ss_start s2 < ss_start s1 then 1
         else 0)"

definition space_map_create :: "u64 \<Rightarrow> u64 \<Rightarrow> u8 \<Rightarrow> space_map" where
  "space_map_create start sz shift =
     \<lparr>sm_root = Null, sm_space = 0, sm_start = start, sm_size = sz, sm_shift = shift,
      sm_loaded = False, sm_loading = False, sm_ops = None, sm_pp_root = None, sm_ppd = None\<rparr>"

definition space_map_destroy :: "space_map \<Rightarrow> unit outcome" where
  "space_map_destroy sm = verify (sm_space sm = 0) (Inr ())"

text \<open>
  \<^verbatim>\<open>zfs_panic_recover()\<close> panics unless the tunable \<^verbatim>\<open>zfs_recover\<close> is set, in which case the
  caller carries on.
\<close>

definition zfs_panic_recover :: "bool \<Rightarrow> 'a \<Rightarrow> 'a outcome" where
  "zfs_panic_recover zfs_recover k = (if zfs_recover then Inr k else Inl Zfs_panic)"

text \<open>\<^verbatim>\<open>1ULL << sm->sm_shift\<close>, the unit in which space is handed out.\<close>

abbreviation sm_unit :: "space_map \<Rightarrow> u64" where
  "sm_unit sm \<equiv> 2 ^ unat (sm_shift sm)"

definition pp_remove :: "space_seg \<Rightarrow> space_seg atree option \<Rightarrow> space_seg atree option" where
  "pp_remove s = map_option (tree_remove s)"

definition pp_modify :: "space_seg \<Rightarrow> space_seg \<Rightarrow> space_seg atree option \<Rightarrow> space_seg atree option" where
  "pp_modify s s' = map_option (tree_modify s s')"

definition pp_add :: "space_seg \<Rightarrow> space_seg atree option \<Rightarrow> space_seg atree option" where
  "pp_add s = map_option (tree_add metaslab_segsize_compare s)"

text \<open>
  The linking half of \<^verbatim>\<open>space_map_add()\<close>: \<open>merge_before\<close> and \<open>merge_after\<close> hold the
  neighbours the new segment touches. The segments are shared by both trees, so rewriting
  \<^verbatim>\<open>ss_end\<close> or \<^verbatim>\<open>ss_start\<close> in place shows in the picker tree too, from which the segment is
  then unlinked by its node.
\<close>

definition space_map_add_link ::
  "space_map \<Rightarrow> path \<Rightarrow> u64 \<Rightarrow> u64 \<Rightarrow> space_seg atree \<times> space_seg atree option \<times> space_seg" where
  "space_map_add_link sm loc start fin =
    (let ss_before = tree_nearest loc False (sm_root sm);
         ss_after = tree_nearest loc True (sm_root sm);
         merge_before = Option.bind ss_before (\<lambda>b. if ss_end b = start then Some b else None);
         merge_after = Option.bind ss_after (\<lambda>a. if ss_start a = fin then Some a else None)
     in case (merge_before, merge_after) of
          (Some b, Some a) \<Rightarrow>
            let a' = a\<lparr>ss_start := ss_start b\<rparr>
            in (tree_modify a a' (tree_remove b (sm_root sm)),
                pp_remove a (pp_remove b (sm_pp_root sm)), a')
        | (Some b, None) \<Rightarrow>
            let b' = b\<lparr>ss_end := fin\<rparr>
            in (tree_modify b b' (sm_root sm), pp_remove b' (pp_modify b b' (sm_pp_root sm)), b')
        | (None, Some a) \<Rightarrow>
            let a' = a\<lparr>ss_start := start\<rparr>
            in (tree_modify a a' (sm_root sm), pp_remove a' (pp_modify a a' (sm_pp_root sm)), a')
        | (None, None) \<Rightarrow>
            let s = \<lparr>ss_start = start, ss_end = fin\<rparr>
            in (tree_insert s loc (sm_root sm), sm_pp_root sm, s))"

definition space_map_add :: "bool \<Rightarrow> space_map \<Rightarrow> u64 \<Rightarrow> u64 \<Rightarrow> space_map outcome" where
  "space_map_add zfs_recover sm start sz =
    (let fin = start + sz in
     verify (sz \<noteq> 0) (
     verify (sm_start sm \<le> start) (
     verify (fin \<le> sm_start sm + sm_size sm) (
     verify (sm_space sm + sz \<le> sm_size sm) (
     verify (P2PHASE start (sm_unit sm) = 0) (
     verify (P2PHASE sz (sm_unit sm) = 0) (
     let ssearch = \<lparr>ss_start = start, ss_end = fin\<rparr>;
         (ss, loc) = tree_find (space_map_seg_compare ssearch) (sm_root sm)
     in case ss of
          Some s \<Rightarrow>
            if ss_start s \<le> start \<and> fin \<le> ss_end s
            then zfs_panic_recover zfs_recover sm
            else Inl Verify_failed
        | None \<Rightarrow>
            let (root, pp, s) = space_map_add_link sm loc start fin
            in Inr (sm\<lparr>sm_root := root, sm_pp_root := pp_add s pp,
                       sm_space := sm_space sm + sz\<rparr>))))))))"

text \<open>
  The unlinking half of \<^verbatim>\<open>space_map_remove()\<close>: the segment \<open>s\<close> leaves the picker tree, and
  what is left of it on either side stays in, or goes back into, both trees.
\<close>

definition space_map_remove_link ::
  "space_map \<Rightarrow> space_seg \<Rightarrow> u64 \<Rightarrow> u64 \<Rightarrow> space_seg atree \<times> space_seg atree option" where
  "space_map_remove_link sm s start fin =
    (let left_over = (ss_start s \<noteq> start); right_over = (ss_end s \<noteq> fin);
         pp = pp_remove s (sm_pp_root sm)
     in if left_over \<and> right_over
        then let newseg = \<lparr>ss_start = fin, ss_end = ss_end s\<rparr>; s' = s\<lparr>ss_end := start\<rparr>
             in (tree_insert_here newseg s' True (tree_modify s s' (sm_root sm)),
                 pp_add s' (pp_add newseg pp))
        else if left_over
        then let s' = s\<lparr>ss_end := start\<rparr> in (tree_modify s s' (sm_root sm), pp_add s' pp)
        else if right_over
        then let s' = s\<lparr>ss_start := fin\<rparr> in (tree_modify s s' (sm_root sm), pp_add s' pp)
        else (tree_remove s (sm_root sm), pp))"

definition space_map_remove :: "bool \<Rightarrow> space_map \<Rightarrow> u64 \<Rightarrow> u64 \<Rightarrow> space_map outcome" where
  "space_map_remove zfs_recover sm start sz =
    (let fin = start + sz in
     verify (sz \<noteq> 0) (
     verify (P2PHASE start (sm_unit sm) = 0) (
     verify (P2PHASE sz (sm_unit sm) = 0) (
     let ssearch = \<lparr>ss_start = start, ss_end = fin\<rparr>;
         (ss, loc) = tree_find (space_map_seg_compare ssearch) (sm_root sm)
     in case ss of
       None \<Rightarrow> zfs_panic_recover zfs_recover sm
     | Some s \<Rightarrow>
         verify (ss_start s \<le> start) (
         verify (fin \<le> ss_end s) (
         verify (sm_space sm - sz \<le> sm_size sm) (
         let (root, pp) = space_map_remove_link sm s start fin
         in Inr (sm\<lparr>sm_root := root, sm_pp_root := pp, sm_space := sm_space sm - sz\<rparr>))))))))"

definition space_map_contains :: "space_map \<Rightarrow> u64 \<Rightarrow> u64 \<Rightarrow> bool outcome" where
  "space_map_contains sm start sz =
    (let fin = start + sz in
     verify (sz \<noteq> 0) (
     verify (P2PHASE start (sm_unit sm) = 0) (
     verify (P2PHASE sz (sm_unit sm) = 0) (
     let ssearch = \<lparr>ss_start = start, ss_end = fin\<rparr>;
         ss = fst (tree_find (space_map_seg_compare ssearch) (sm_root sm))
     in Inr (case ss of None \<Rightarrow> False | Some s \<Rightarrow> ss_start s \<le> start \<and> fin \<le> ss_end s)))))"

subsection \<open>Segment lists\<close>

definition seg_gap :: "space_seg \<Rightarrow> space_seg \<Rightarrow> bool" where
  "seg_gap a b \<longleftrightarrow> ss_end a < ss_start b"

definition seg_ok :: "u64 \<Rightarrow> u64 \<Rightarrow> u64 \<Rightarrow> space_seg \<Rightarrow> bool" where
  "seg_ok unit lo hi s \<longleftrightarrow>
     ss_start s < ss_end s \<and> lo \<le> ss_start s \<and> ss_end s \<le> hi
     \<and> P2PHASE (ss_start s) unit = 0 \<and> P2PHASE (ss_end s) unit = 0"

definition segs_ok :: "u64 \<Rightarrow> u64 \<Rightarrow> u64 \<Rightarrow> space_seg list \<Rightarrow> bool" where
  "segs_ok unit lo hi xs \<longleftrightarrow> sorted_wrt seg_gap xs \<and> (\<forall>s\<in>set xs. seg_ok unit lo hi s)"

definition seg_set :: "space_seg \<Rightarrow> u64 set" where
  "seg_set s = {ss_start s..<ss_end s}"

definition cover :: "space_seg list \<Rightarrow> u64 set" where
  "cover xs = (\<Union>s\<in>set xs. seg_set s)"

definition seg_len :: "space_seg \<Rightarrow> nat" where
  "seg_len s = unat (ss_end s) - unat (ss_start s)"

definition total :: "space_seg list \<Rightarrow> nat" where
  "total xs = sum_list (map seg_len xs)"

lemma cover_simps [simp]:
  "cover [] = {}" "cover (x # xs) = seg_set x \<union> cover xs" "cover (xs @ ys) = cover xs \<union> cover ys"
  by (auto simp: cover_def)

lemma total_simps [simp]:
  "total [] = 0" "total (x # xs) = seg_len x + total xs" "total (xs @ ys) = total xs + total ys"
  by (simp_all add: total_def)

lemma segs_ok_Nil [simp]: "segs_ok unit lo hi []"
  by (simp add: segs_ok_def)

lemma segs_ok_Cons:
  "segs_ok unit lo hi (x # xs) \<longleftrightarrow>
     seg_ok unit lo hi x \<and> (\<forall>y\<in>set xs. seg_gap x y) \<and> segs_ok unit lo hi xs"
  by (auto simp: segs_ok_def)

lemma segs_ok_append:
  "segs_ok unit lo hi (xs @ ys) \<longleftrightarrow>
     segs_ok unit lo hi xs \<and> segs_ok unit lo hi ys \<and> (\<forall>x\<in>set xs. \<forall>y\<in>set ys. seg_gap x y)"
  by (auto simp: segs_ok_def sorted_wrt_append)

lemma segs_ok_distinct: "segs_ok unit lo hi xs \<Longrightarrow> distinct xs"
  by (induction xs) (force simp: segs_ok_Cons seg_ok_def seg_gap_def)+

lemma card_seg_set: "card (seg_set s) = seg_len s"
proof -
  have "unat ` seg_set s = {unat (ss_start s)..<unat (ss_end s)}"
  proof (intro set_eqI iffI)
    fix n assume "n \<in> {unat (ss_start s)..<unat (ss_end s)}"
    then have n: "unat (ss_start s) \<le> n" "n < unat (ss_end s)" by auto
    then have "n < 2 ^ 64" using unsigned_less [of "ss_end s", where ?'a = nat] by simp
    then have "unat (of_nat n :: u64) = n" by (simp add: unat_of_nat_small)
    then show "n \<in> unat ` seg_set s"
      using n by (intro image_eqI [of _ _ "of_nat n"]) (auto simp: seg_set_def word_le_nat_alt word_less_nat_alt)
  qed (auto simp: seg_set_def word_le_nat_alt word_less_nat_alt)
  moreover have "card (unat ` seg_set s) = card (seg_set s)"
    by (intro card_image inj_onI) (simp add: word_unat_eq_iff)
  ultimately show ?thesis by (simp add: seg_len_def)
qed

lemma card_cover: "segs_ok unit lo hi xs \<Longrightarrow> card (cover xs) = total xs"
proof (induction xs)
  case (Cons x xs)
  have "seg_set x \<inter> cover xs = {}"
    using Cons.prems by (fastforce simp: segs_ok_Cons seg_gap_def seg_set_def cover_def)
  then show ?case
    using Cons by (simp add: segs_ok_Cons card_Un_disjoint card_seg_set)
qed simp

subsection \<open>Searching the segments\<close>

lemma seg_compare_iff:
  assumes "ss_start q < ss_end q" "ss_start s < ss_end s"
  shows "0 < space_map_seg_compare q s \<longleftrightarrow> ss_end s \<le> ss_start q"
    and "space_map_seg_compare q s < 0 \<longleftrightarrow> ss_end q \<le> ss_start s"
    and "space_map_seg_compare q s = 0 \<longleftrightarrow> ss_start q < ss_end s \<and> ss_start s < ss_end q"
  using assms by (auto simp: space_map_seg_compare_def)

lemma segs_ok_descending:
  assumes "segs_ok unit lo hi xs" "ss_start q < ss_end q"
  shows "descending (space_map_seg_compare q) xs"
proof -
  have "sgn (space_map_seg_compare q b) \<le> sgn (space_map_seg_compare q a)"
    if "a \<in> set xs" "b \<in> set xs" "seg_gap a b" for a b
  proof -
    have s: "ss_start a < ss_end a" "ss_start b < ss_end b"
      using assms(1) that by (auto simp: segs_ok_def seg_ok_def)
    have "space_map_seg_compare q a < 0 \<Longrightarrow> space_map_seg_compare q b < 0"
      "space_map_seg_compare q a = 0 \<Longrightarrow> space_map_seg_compare q b < 0 \<or> space_map_seg_compare q b = 0"
      using s that(3) assms(2) by (auto simp: seg_compare_iff seg_gap_def)
    then show ?thesis
      by (cases "space_map_seg_compare q a" "0 :: int" rule: linorder_cases) (auto simp: sgn_if)
  qed
  then show ?thesis
    using assms(1) unfolding descending_def segs_ok_def
    by (blast intro: sorted_wrt_mono_rel)
qed

interpretation seg_size: compare_fn metaslab_segsize_compare
  by unfold_locales (auto simp: metaslab_segsize_compare_def Let_def split: if_splits)

lemma segsize_compare_eq: "metaslab_segsize_compare a b = 0 \<longleftrightarrow> a = (b :: space_seg)"
  by (cases a; cases b) (auto simp: metaslab_segsize_compare_def Let_def split: if_splits)

subsection \<open>The picker tree\<close>

definition pp_ok :: "space_seg atree option \<Rightarrow> space_seg set \<Rightarrow> bool" where
  "pp_ok pp S \<longleftrightarrow>
     (case pp of
        None \<Rightarrow> True
      | Some t \<Rightarrow> balanced t \<and> sorted_wrt (\<lambda>a b. metaslab_segsize_compare a b < 0) (inorder t)
          \<and> set (inorder t) = S)"

lemma pp_remove_ok: "pp_ok pp S \<Longrightarrow> s \<in> S \<Longrightarrow> pp_ok (pp_remove s pp) (S - {s})"
  by (cases pp) (auto simp: pp_ok_def pp_remove_def seg_size.tree_remove_sorted)

lemma pp_add_ok: "pp_ok pp S \<Longrightarrow> s \<notin> S \<Longrightarrow> pp_ok (pp_add s pp) (insert s S)"
proof (cases pp)
  case (Some t)
  assume "pp_ok pp S" "s \<notin> S"
  then have t: "balanced t" "sorted_wrt (\<lambda>a b. metaslab_segsize_compare a b < 0) (inorder t)"
    "set (inorder t) = S" "\<forall>y\<in>set (inorder t). metaslab_segsize_compare s y \<noteq> 0"
    using Some by (auto simp: pp_ok_def segsize_compare_eq)
  show ?thesis
    using seg_size.tree_add_new [OF t(1,2,4)] t(3) Some by (simp add: pp_ok_def pp_add_def)
qed (simp add: pp_ok_def pp_add_def)

lemma pp_modify_remove_ok:
  assumes "pp_ok pp S" "s \<in> S" "s' \<notin> S"
  shows "pp_ok (pp_remove s' (pp_modify s s' pp)) (S - {s})"
proof (cases pp)
  case (Some t)
  with assms have t: "balanced t" "sorted_wrt (\<lambda>a b. metaslab_segsize_compare a b < 0) (inorder t)"
    "set (inorder t) = S"
    by (auto simp: pp_ok_def)
  obtain as bs where i: "inorder t = as @ s # bs"
    using assms(2) t(3) by (metis split_list)
  have d: "distinct (inorder t)"
    by (rule seg_size.distinct_sorted [OF t(2)])
  let ?u = "tree_modify s s' t"
  have m: "inorder ?u = as @ s' # bs" "balanced ?u"
    using tree_modify_at [OF d i, of s'] t(1) by auto
  have du: "distinct (inorder ?u)"
    using d m(1) i assms(3) t(3) by auto
  have r: "inorder (tree_remove s' ?u) = as @ bs" "balanced (tree_remove s' ?u)"
    using tree_remove_at [OF du m(1)] m(2) by auto
  have "sorted_wrt (\<lambda>a b. metaslab_segsize_compare a b < 0) (as @ bs)"
    using t(2) unfolding i by (auto simp: sorted_wrt_append)
  moreover have "set (as @ bs) = S - {s}"
    using t(3) d unfolding i by auto
  ultimately show ?thesis
    using r Some by (simp add: pp_ok_def pp_remove_def pp_modify_def)
qed (simp add: pp_ok_def pp_remove_def pp_modify_def)

subsection \<open>Invariant and abstraction\<close>

abbreviation segs :: "space_map \<Rightarrow> space_seg list" where
  "segs sm \<equiv> inorder (sm_root sm)"

definition sm_set :: "space_map \<Rightarrow> u64 set" where
  "sm_set sm = cover (segs sm)"

definition sm_ok :: "space_map \<Rightarrow> bool" where
  "sm_ok sm \<longleftrightarrow>
     balanced (sm_root sm)
     \<and> segs_ok (sm_unit sm) (sm_start sm) (sm_start sm + sm_size sm) (segs sm)
     \<and> unat (sm_start sm) + unat (sm_size sm) < 2 ^ 64
     \<and> unat (sm_space sm) = total (segs sm)
     \<and> pp_ok (sm_pp_root sm) (set (segs sm))"

subsection \<open>Adding a segment to the list\<close>

lemma seg_set_union:
  "a \<le> b \<Longrightarrow> b \<le> c \<Longrightarrow> {a..<b} \<union> {b..<c} = {a..<c :: u64}"
  by (auto simp: not_less)

text \<open>
  \<open>join as q bs\<close> is the segment list after \<open>q\<close> was added between \<open>as\<close> and
  \<open>bs\<close>, fused with the neighbours it touches.
\<close>

definition touches_before :: "space_seg list \<Rightarrow> space_seg \<Rightarrow> bool" where
  "touches_before as q \<longleftrightarrow> (\<exists>b. last_of as = Some b \<and> ss_end b = ss_start q)"

definition touches_after :: "space_seg \<Rightarrow> space_seg list \<Rightarrow> bool" where
  "touches_after q bs \<longleftrightarrow> (\<exists>a. first_of bs = Some a \<and> ss_start a = ss_end q)"

definition fused :: "space_seg list \<Rightarrow> space_seg \<Rightarrow> space_seg list \<Rightarrow> space_seg" where
  "fused as q bs =
     \<lparr>ss_start = (if touches_before as q then ss_start (last as) else ss_start q),
      ss_end = (if touches_after q bs then ss_end (hd bs) else ss_end q)\<rparr>"

definition join :: "space_seg list \<Rightarrow> space_seg \<Rightarrow> space_seg list \<Rightarrow> space_seg list" where
  "join as q bs =
     (if touches_before as q then butlast as else as) @ fused as q bs
       # (if touches_after q bs then tl bs else bs)"

lemma join_ok:
  assumes "segs_ok unit lo hi (as @ bs)" "seg_ok unit lo hi q"
    and "\<forall>s\<in>set as. ss_end s \<le> ss_start q" "\<forall>s\<in>set bs. ss_end q \<le> ss_start s"
  shows "segs_ok unit lo hi (join as q bs)"
    and "cover (join as q bs) = cover (as @ bs) \<union> seg_set q"
    and "total (join as q bs) = total (as @ bs) + seg_len q"
proof -
  note defs = join_def fused_def touches_before_def touches_after_def
  have q: "ss_start q < ss_end q" using assms(2) by (simp add: seg_ok_def)
  have ok: "\<forall>s\<in>set as \<union> set bs. ss_start s < ss_end s"
    using assms(1) by (auto simp: segs_ok_append segs_ok_def seg_ok_def)
  show "segs_ok unit lo hi (join as q bs)"
    using assms q
    by (cases as rule: rev_cases; cases bs)
      (force simp: defs segs_ok_append segs_ok_Cons seg_gap_def seg_ok_def)+
  show "cover (join as q bs) = cover (as @ bs) \<union> seg_set q"
    using q ok assms(3,4)
    by (cases as rule: rev_cases; cases bs)
      (auto simp: defs seg_set_def seg_set_union [symmetric] less_imp_le)
  show "total (join as q bs) = total (as @ bs) + seg_len q"
    using q ok assms(3,4)
    by (cases as rule: rev_cases; cases bs)
      (auto simp: defs seg_len_def word_less_nat_alt)
qed

subsection \<open>space_map_add\<close>

lemma segs_gap_fresh:
  assumes "segs_ok unit lo hi xs" "a \<in> set xs" "b \<in> set xs" "ss_start a = ss_start b \<or> ss_end a = ss_end b"
  shows "a = b"
proof -
  have ne: "ss_start s < ss_end s" if "s \<in> set xs" for s
    using assms(1) that by (simp add: segs_ok_def seg_ok_def)
  have "seg_gap a b \<or> seg_gap b a" if "a \<noteq> b"
    using assms(1-3) that by (induction xs) (auto simp: segs_ok_Cons)
  moreover have "\<not> seg_gap a b" "\<not> seg_gap b a"
    using ne [OF assms(2)] ne [OF assms(3)] assms(4) by (auto simp: seg_gap_def)
  ultimately show ?thesis by blast
qed

lemma space_map_add_link_correct:
  assumes ok: "sm_ok sm" and slot: "is_slot loc (sm_root sm)"
    and q: "seg_ok (sm_unit sm) (sm_start sm) (sm_start sm + sm_size sm) q"
    and as: "\<forall>s\<in>set as. ss_end s \<le> ss_start q" and bs: "\<forall>s\<in>set bs. ss_end q \<le> ss_start s"
    and ab: "before loc (sm_root sm) = as" "after loc (sm_root sm) = bs"
    and link: "space_map_add_link sm loc (ss_start q) (ss_end q) = (root, pp, s)"
  shows "inorder root = join as q bs \<and> balanced root \<and> pp_ok (pp_add s pp) (set (join as q bs))"
proof -
  let ?u = "sm_unit sm" and ?lo = "sm_start sm" and ?hi = "sm_start sm + sm_size sm"
  have inord: "segs sm = as @ bs"
    using avl.slot_seq [OF slot] ab by simp
  have segs: "segs_ok ?u ?lo ?hi (as @ bs)" and bal: "balanced (sm_root sm)"
    and pp_old: "pp_ok (sm_pp_root sm) (set (as @ bs))"
    using ok inord by (auto simp: sm_ok_def)
  have d: "distinct (as @ bs)"
    by (rule segs_ok_distinct [OF segs])
  have ne: "ss_start q < ss_end q" "\<forall>s\<in>set (as @ bs). ss_start s < ss_end s"
    using q segs by (auto simp: seg_ok_def segs_ok_def)
  have near: "tree_nearest loc False (sm_root sm) = last_of as"
    "tree_nearest loc True (sm_root sm) = first_of bs"
    using ab by (simp_all add: avl.nearest_before avl.nearest_after)
  note fresh = segs_gap_fresh [OF segs]
  have tb: "touches_before as q \<Longrightarrow> \<exists>as' b. as = as' @ [b] \<and> ss_end b = ss_start q"
    by (auto simp: touches_before_def last_of_eq_Some)
  have ta: "touches_after q bs \<Longrightarrow> \<exists>a bs'. bs = a # bs' \<and> ss_start a = ss_end q"
    by (auto simp: touches_after_def first_of_eq_Some)
  have mb: "Option.bind (last_of as) (\<lambda>b. if ss_end b = ss_start q then Some b else None) =
      (if touches_before as q then Some (last as) else None)"
    by (cases as rule: rev_cases) (auto simp: touches_before_def)
  have ma: "Option.bind (first_of bs) (\<lambda>a. if ss_start a = ss_end q then Some a else None) =
      (if touches_after q bs then Some (hd bs) else None)"
    by (cases bs) (auto simp: touches_after_def)
  note link' = link [unfolded space_map_add_link_def near mb ma Let_def]
  have qeq: "\<lparr>ss_start = ss_start q, ss_end = ss_end q\<rparr> = q" by simp
  note I = inord [symmetric]
  show ?thesis
  proof (cases "touches_before as q"; cases "touches_after q bs")
    assume t: "\<not> touches_before as q" "\<not> touches_after q bs"
    then have j: "join as q bs = as @ q # bs" by (simp add: join_def fused_def)
    have r: "root = tree_insert q loc (sm_root sm)" "pp = sm_pp_root sm" "s = q"
      using link' t unfolding qeq by auto
    have "q \<notin> set (as @ bs)"
      using bspec [OF as, of q] bspec [OF bs, of q] ne(1) by auto
    then have "pp_ok (pp_add q (sm_pp_root sm)) (insert q (set (as @ bs)))"
      by (rule pp_add_ok [OF pp_old])
    then show ?thesis
      using r j ab bal slot by (simp add: avl.insert_seq avl.insert_ok)
  next
    assume t: "touches_before as q" "\<not> touches_after q bs"
    obtain as' b where a: "as = as' @ [b]" "ss_end b = ss_start q" using tb [OF t(1)] by blast
    define b' where "b' = b\<lparr>ss_end := ss_end q\<rparr>"
    have j: "join as q bs = as' @ b' # bs"
      using t a by (cases b) (simp add: join_def fused_def b'_def)
    have r: "root = tree_modify b b' (sm_root sm)"
        "pp = pp_remove b' (pp_modify b b' (sm_pp_root sm))" "s = b'"
      using link' t a by (auto simp: b'_def)
    have b'_new: "b' \<notin> set (as @ bs)"
    proof
      assume "b' \<in> set (as @ bs)"
      then have "b' = b" using fresh [of b' b] a by (auto simp: b'_def)
      then have "ss_end b' = ss_end b" by simp
      then show False using a(2) ne(1) by (simp add: b'_def)
    qed
    have sp: "segs sm = as' @ b # bs" using inord a by simp
    have "pp_ok pp (set (as @ bs) - {b})"
      unfolding r by (rule pp_modify_remove_ok [OF pp_old _ b'_new]) (simp add: a)
    then have "pp_ok (pp_add b' pp) (insert b' (set (as @ bs) - {b}))"
      by (rule pp_add_ok) (use b'_new in auto)
    moreover have "insert b' (set (as @ bs) - {b}) = set (join as q bs)"
      using d a j by auto
    ultimately show ?thesis
      using tree_modify_at [OF _ sp, of b'] d sp inord bal j r by simp
  next
    assume t: "\<not> touches_before as q" "touches_after q bs"
    obtain a bs' where a: "bs = a # bs'" "ss_start a = ss_end q" using ta [OF t(2)] by blast
    define a' where "a' = a\<lparr>ss_start := ss_start q\<rparr>"
    have j: "join as q bs = as @ a' # bs'"
      using t a by (cases a) (simp add: join_def fused_def a'_def)
    have r: "root = tree_modify a a' (sm_root sm)"
        "pp = pp_remove a' (pp_modify a a' (sm_pp_root sm))" "s = a'"
      using link' t a by (auto simp: a'_def)
    have a'_new: "a' \<notin> set (as @ bs)"
    proof
      assume "a' \<in> set (as @ bs)"
      then have "a' = a" using fresh [of a' a] a by (auto simp: a'_def)
      then have "ss_start a' = ss_start a" by simp
      then show False using a(2) ne(1) by (simp add: a'_def)
    qed
    have "pp_ok pp (set (as @ bs) - {a})"
      unfolding r by (rule pp_modify_remove_ok [OF pp_old _ a'_new]) (simp add: a)
    then have "pp_ok (pp_add a' pp) (insert a' (set (as @ bs) - {a}))"
      by (rule pp_add_ok) (use a'_new in auto)
    moreover have "insert a' (set (as @ bs) - {a}) = set (join as q bs)"
      using d a j by auto
    ultimately show ?thesis
      using tree_modify_at [of "sm_root sm" as a bs' a'] d a inord bal j r by simp
  next
    assume t: "touches_before as q" "touches_after q bs"
    obtain as' b where b: "as = as' @ [b]" "ss_end b = ss_start q" using tb [OF t(1)] by blast
    obtain a bs' where a: "bs = a # bs'" "ss_start a = ss_end q" using ta [OF t(2)] by blast
    define a' where "a' = a\<lparr>ss_start := ss_start b\<rparr>"
    have j: "join as q bs = as' @ a' # bs'"
      using t a b by (cases a) (simp add: join_def fused_def a'_def)
    have r: "root = tree_modify a a' (tree_remove b (sm_root sm))"
        "pp = pp_remove a (pp_remove b (sm_pp_root sm))" "s = a'"
      using link' t a b by (auto simp: a'_def)
    have a'_new: "a' \<notin> set (as @ bs)"
    proof
      assume in_set: "a' \<in> set (as @ bs)"
      have "a' = b" by (rule fresh [OF in_set]) (simp_all add: b a'_def)
      moreover have "a' = a" by (rule fresh [OF in_set]) (simp_all add: a a'_def)
      ultimately show False using d a b by auto
    qed
    let ?t = "tree_remove b (sm_root sm)"
    have t1: "inorder ?t = as' @ a # bs'" "balanced ?t"
      using tree_remove_at [of "sm_root sm" as' b "a # bs'"] d inord a b bal by auto
    have "pp_ok pp (set (as @ bs) - {b} - {a})"
      unfolding r using d a b by (intro pp_remove_ok pp_old) auto
    then have "pp_ok (pp_add a' pp) (insert a' (set (as @ bs) - {b} - {a}))"
      by (rule pp_add_ok) (use a'_new in auto)
    moreover have "insert a' (set (as @ bs) - {b} - {a}) = set (join as q bs)"
      using d a b j by auto
    ultimately show ?thesis
      using tree_modify_at [of ?t as' a bs' a'] d a b t1 j r by simp
  qed
qed

text \<open>The range \<open>[start, start + sz)\<close> of a call, when it does not wrap around.\<close>

abbreviation seg_of :: "u64 \<Rightarrow> u64 \<Rightarrow> space_seg" where
  "seg_of start sz \<equiv> \<lparr>ss_start = start, ss_end = start + sz\<rparr>"

lemma no_wrap:
  assumes "unat start + unat sz < 2 ^ 64" "sz \<noteq> (0 :: u64)"
  shows "start < start + sz" "unat (start + sz) = unat start + unat sz"
    "seg_len (seg_of start sz) = unat sz"
proof -
  show u: "unat (start + sz) = unat start + unat sz"
    using assms(1) by (simp add: unat_word_ariths)
  have "0 < unat sz" using assms(2) by (simp add: unat_gt_0)
  then show "start < start + sz" using u by (simp add: word_less_nat_alt)
  show "seg_len (seg_of start sz) = unat sz" using u by (simp add: seg_len_def)
qed

lemma overlap_iff_find:
  assumes "segs_ok unit lo hi (inorder t)" "ss_start q < ss_end q" "balanced t"
  shows "fst (tree_find (space_map_seg_compare q) t) = None \<longleftrightarrow> seg_set q \<inter> cover (inorder t) = {}"
proof -
  have ne: "\<forall>s\<in>set (inorder t). ss_start s < ss_end s"
    using assms(1) by (simp add: segs_ok_def seg_ok_def)
  have "seg_set q \<inter> seg_set s = {} \<longleftrightarrow> space_map_seg_compare q s \<noteq> 0" if "s \<in> set (inorder t)" for s
    using ne that assms(2) by (force simp: seg_compare_iff seg_set_def)
  then show ?thesis
    using avl.find_decides [OF segs_ok_descending [OF assms(1,2)]] by (auto simp: cover_def)
qed

lemma segs_total_le:
  assumes "segs_ok unit lo hi xs" "lo \<le> hi"
  shows "total xs \<le> unat hi - unat lo"
proof -
  have "cover xs \<subseteq> seg_set \<lparr>ss_start = lo, ss_end = hi\<rparr>"
    using assms(1) by (force simp: cover_def seg_set_def segs_ok_def seg_ok_def)
  then have "card (cover xs) \<le> card (seg_set \<lparr>ss_start = lo, ss_end = hi\<rparr>)"
    by (intro card_mono) auto
  then show ?thesis
    using card_cover [OF assms(1)] card_seg_set by (simp add: seg_len_def)
qed

lemma space_map_add_effect:
  assumes ok: "sm_ok sm" and sz: "sz \<noteq> 0" and nw: "unat start + unat sz < 2 ^ 64"
    and range: "sm_start sm \<le> start" "start + sz \<le> sm_start sm + sm_size sm"
    and align: "P2PHASE start (sm_unit sm) = 0" "P2PHASE sz (sm_unit sm) = 0"
    and free: "seg_set (seg_of start sz) \<inter> sm_set sm = {}"
  shows "\<exists>sm'. space_map_add rec sm start sz = Inr sm' \<and> sm_ok sm'
    \<and> sm_set sm' = sm_set sm \<union> seg_set (seg_of start sz)
    \<and> unat (sm_space sm') = unat (sm_space sm) + unat sz
    \<and> sm' = sm\<lparr>sm_root := sm_root sm', sm_pp_root := sm_pp_root sm', sm_space := sm_space sm'\<rparr>"
proof -
  let ?q = "seg_of start sz" and ?u = "sm_unit sm"
  let ?lo = "sm_start sm" and ?hi = "sm_start sm + sm_size sm"
  note w = no_wrap [OF nw sz]
  have segs: "segs_ok ?u ?lo ?hi (segs sm)" and bal: "balanced (sm_root sm)"
    and sp: "unat (sm_space sm) = total (segs sm)" and hi: "unat ?lo + unat (sm_size sm) < 2 ^ 64"
    using ok by (auto simp: sm_ok_def)
  have q: "seg_ok ?u ?lo ?hi ?q"
    using w range align by (simp add: seg_ok_def P2PHASE_add)
  have qne: "ss_start ?q < ss_end ?q" using w by simp
  have "fst (tree_find (space_map_seg_compare ?q) (sm_root sm)) = None"
    using overlap_iff_find [OF segs qne bal] free by (simp add: sm_set_def)
  then obtain loc where f: "tree_find (space_map_seg_compare ?q) (sm_root sm) = (None, loc)"
    by (metis prod.collapse)
  let ?as = "before loc (sm_root sm)" and ?bs = "after loc (sm_root sm)"
  have sl: "is_slot loc (sm_root sm)"
    and c: "\<forall>s\<in>set ?as. 0 < space_map_seg_compare ?q s" "\<forall>s\<in>set ?bs. space_map_seg_compare ?q s < 0"
    using avl.find_None [OF segs_ok_descending [OF segs qne] f] by auto
  have i: "segs sm = ?as @ ?bs" by (rule avl.slot_seq [OF sl])
  have ne: "\<forall>s\<in>set ?as \<union> set ?bs. ss_start s < ss_end s"
    using segs by (auto simp: i segs_ok_def seg_ok_def)
  have as: "\<forall>s\<in>set ?as. ss_end s \<le> ss_start ?q" and bs: "\<forall>s\<in>set ?bs. ss_end ?q \<le> ss_start s"
    using c ne qne by (auto simp: seg_compare_iff)
  obtain root pp s where l: "space_map_add_link sm loc (ss_start ?q) (ss_end ?q) = (root, pp, s)"
    by (metis prod.collapse)
  note r = space_map_add_link_correct [OF ok sl q as bs refl refl l]
  note j = join_ok [OF segs [unfolded i] q as bs]
  have hiu: "unat ?hi = unat ?lo + unat (sm_size sm)" "?lo \<le> ?hi"
    using hi by (simp_all add: unat_word_ariths word_le_nat_alt)
  have "total (join ?as ?q ?bs) \<le> unat (sm_size sm)"
    using segs_total_le [OF j(1) hiu(2)] hiu(1) by simp
  then have le: "unat (sm_space sm) + unat sz \<le> unat (sm_size sm)"
    using j(3) sp i w(3) by simp
  then have space: "unat (sm_space sm + sz) = unat (sm_space sm) + unat sz"
    using unat_less_64 [of "sm_size sm"] by (simp add: unat_word_ariths)
  then have v: "sm_space sm + sz \<le> sm_size sm"
    using le by (simp add: word_le_nat_alt)
  let ?sm' = "sm\<lparr>sm_root := root, sm_pp_root := pp_add s pp, sm_space := sm_space sm + sz\<rparr>"
  have "space_map_add rec sm start sz = Inr ?sm'"
    using sz range align v f l by (simp add: space_map_add_def)
  moreover have "sm_ok ?sm'"
    using r j hi space sp i w(3) by (simp add: sm_ok_def)
  moreover have "sm_set ?sm' = sm_set sm \<union> seg_set ?q"
    using r j(2) i by (simp add: sm_set_def)
  ultimately show ?thesis using space by (intro exI [of _ ?sm']) simp
qed

lemma space_map_add_overlap:
  assumes ok: "sm_ok sm" and sz: "sz \<noteq> 0" and nw: "unat start + unat sz < 2 ^ 64"
    and ov: "seg_set (seg_of start sz) \<inter> sm_set sm \<noteq> {}"
  shows "space_map_add False sm start sz \<in> {Inl Verify_failed, Inl Zfs_panic}"
    and "space_map_add True sm start sz \<in> {Inl Verify_failed, Inr sm}"
proof -
  let ?q = "seg_of start sz"
  have segs: "segs_ok (sm_unit sm) (sm_start sm) (sm_start sm + sm_size sm) (segs sm)"
    and bal: "balanced (sm_root sm)"
    using ok by (auto simp: sm_ok_def)
  have qne: "ss_start ?q < ss_end ?q" using no_wrap [OF nw sz] by simp
  have "fst (tree_find (space_map_seg_compare ?q) (sm_root sm)) \<noteq> None"
    using overlap_iff_find [OF segs qne bal] ov by (simp add: sm_set_def)
  then obtain s loc where f: "tree_find (space_map_seg_compare ?q) (sm_root sm) = (Some s, loc)"
    by (metis not_None_eq prod.collapse)
  show "space_map_add False sm start sz \<in> {Inl Verify_failed, Inl Zfs_panic}"
    and "space_map_add True sm start sz \<in> {Inl Verify_failed, Inr sm}"
    using f by (auto simp: space_map_add_def verify_def zfs_panic_recover_def Let_def)
qed

subsection \<open>space_map_remove and space_map_contains\<close>

lemma cover_contiguous:
  assumes "segs_ok unit lo hi xs" "ss_start q < ss_end q"
  shows "seg_set q \<subseteq> cover xs \<longleftrightarrow> (\<exists>s\<in>set xs. ss_start s \<le> ss_start q \<and> ss_end q \<le> ss_end s)"
proof
  assume sub: "seg_set q \<subseteq> cover xs"
  then obtain s where s: "s \<in> set xs" "ss_start s \<le> ss_start q" "ss_start q < ss_end s"
    using assms(2) by (force simp: seg_set_def cover_def)
  have "ss_end q \<le> ss_end s"
  proof (rule ccontr)
    assume "\<not> ss_end q \<le> ss_end s"
    then have "ss_end s \<in> cover xs"
      by (intro subsetD [OF sub]) (use s(3) in \<open>auto simp: seg_set_def\<close>)
    then obtain t where t: "t \<in> set xs" "ss_start t \<le> ss_end s" "ss_end s < ss_end t"
      by (auto simp: cover_def seg_set_def)
    obtain as bs where xs: "xs = as @ s # bs"
      using s(1) by (meson split_list)
    have "t = s \<or> seg_gap t s \<or> seg_gap s t"
      using assms(1) t(1) unfolding xs by (auto simp: segs_ok_append segs_ok_Cons)
    then show False
      using t s by (auto simp: seg_gap_def)
  qed
  with s show "\<exists>s\<in>set xs. ss_start s \<le> ss_start q \<and> ss_end q \<le> ss_end s" by blast
next
  assume "\<exists>s\<in>set xs. ss_start s \<le> ss_start q \<and> ss_end q \<le> ss_end s"
  then obtain s where "s \<in> set xs" "seg_set q \<subseteq> seg_set s"
    by (auto simp: seg_set_def)
  then show "seg_set q \<subseteq> cover xs" by (auto simp: cover_def)
qed

lemma find_container:
  assumes "segs_ok unit lo hi (inorder t)" "balanced t" "ss_start q < ss_end q"
    and "s \<in> set (inorder t)" "ss_start s \<le> ss_start q" "ss_end q \<le> ss_end s"
  shows "fst (tree_find (space_map_seg_compare q) t) = Some s"
proof -
  have "seg_set q \<inter> cover (inorder t) \<noteq> {}"
    using assms(3-6) by (force simp: cover_def seg_set_def)
  then obtain x p where f: "tree_find (space_map_seg_compare q) t = (Some x, p)"
    using overlap_iff_find [OF assms(1,3,2)] by (metis not_None_eq prod.collapse)
  have x: "x \<in> set (inorder t)" "space_map_seg_compare q x = 0"
    using avl.find_Some [OF f] by auto
  have ne: "ss_start x < ss_end x"
    using assms(1) x(1) by (simp add: segs_ok_def seg_ok_def)
  obtain as bs where xs: "inorder t = as @ s # bs"
    using assms(4) by (meson split_list)
  have "x = s \<or> seg_gap x s \<or> seg_gap s x"
    using assms(1) x(1) unfolding xs by (auto simp: segs_ok_append segs_ok_Cons)
  then have "x = s"
    using x(2) ne assms(3,5,6) by (auto simp: seg_compare_iff seg_gap_def)
  with f show ?thesis by simp
qed

text \<open>The segment list after \<open>q\<close> was cut out of \<open>s\<close>.\<close>

definition pieces :: "space_seg \<Rightarrow> space_seg \<Rightarrow> space_seg list" where
  "pieces s q =
     (if ss_start s \<noteq> ss_start q then [\<lparr>ss_start = ss_start s, ss_end = ss_start q\<rparr>] else [])
     @ (if ss_end s \<noteq> ss_end q then [\<lparr>ss_start = ss_end q, ss_end = ss_end s\<rparr>] else [])"

lemma pieces_ok:
  assumes "segs_ok unit lo hi (as @ s # bs)" "seg_ok unit lo hi q"
    and "ss_start s \<le> ss_start q" "ss_end q \<le> ss_end s"
  shows "segs_ok unit lo hi (as @ pieces s q @ bs)"
    and "cover (as @ pieces s q @ bs) = cover (as @ s # bs) - seg_set q"
    and "total (as @ pieces s q @ bs) + seg_len q = total (as @ s # bs)"
proof -
  have q: "ss_start q < ss_end q" using assms(2) by (simp add: seg_ok_def)
  show "segs_ok unit lo hi (as @ pieces s q @ bs)"
    using assms q
    by (fastforce simp: pieces_def segs_ok_append segs_ok_Cons seg_gap_def seg_ok_def)
  have "seg_set q \<inter> cover as = {}" "seg_set q \<inter> cover bs = {}"
    using assms by (fastforce simp: segs_ok_append segs_ok_Cons seg_gap_def seg_set_def cover_def)+
  moreover have "cover (pieces s q) = seg_set s - seg_set q"
    using assms(3,4) q by (auto simp: pieces_def seg_set_def)
  ultimately show "cover (as @ pieces s q @ bs) = cover (as @ s # bs) - seg_set q"
    by auto
  show "total (as @ pieces s q @ bs) + seg_len q = total (as @ s # bs)"
    using assms(3,4) q by (auto simp: pieces_def seg_len_def word_less_nat_alt word_le_nat_alt)
qed

lemma space_map_remove_link_correct:
  assumes ok: "sm_ok sm" and i: "segs sm = as @ s # bs"
    and q: "seg_ok (sm_unit sm) (sm_start sm) (sm_start sm + sm_size sm) q"
      "ss_start s \<le> ss_start q" "ss_end q \<le> ss_end s"
    and r: "space_map_remove_link sm s (ss_start q) (ss_end q) = (root, pp')"
  shows "inorder root = as @ pieces s q @ bs \<and> balanced root \<and> pp_ok pp' (set (as @ pieces s q @ bs))"
proof -
  let ?t = "sm_root sm" and ?pp = "pp_remove s (sm_pp_root sm)"
  have segs: "segs_ok (sm_unit sm) (sm_start sm) (sm_start sm + sm_size sm) (inorder ?t)"
    and bal: "balanced ?t" and pp: "pp_ok (sm_pp_root sm) (set (inorder ?t))"
    using ok by (auto simp: sm_ok_def)
  define l where "l = \<lparr>ss_start = ss_start s, ss_end = ss_start q\<rparr>"
  define h where "h = \<lparr>ss_start = ss_end q, ss_end = ss_end s\<rparr>"
  have upd: "s\<lparr>ss_end := ss_start q\<rparr> = l" "s\<lparr>ss_start := ss_end q\<rparr> = h"
    by (cases s; simp add: l_def h_def)+
  note r = r [unfolded space_map_remove_link_def Let_def upd, folded h_def]
  have d: "distinct (as @ s # bs)"
    using segs_ok_distinct [OF segs] i by simp
  have qne: "ss_start q < ss_end q" using q(1) by (simp add: seg_ok_def)
  have pr: "pp_ok ?pp (set (as @ bs))"
    using pp_remove_ok [OF pp, of s] d i by (simp add: Un_commute insert_Diff_if)
  have lh: "l \<noteq> h" using qne q(2) by (auto simp: l_def h_def)
  have new: "l \<notin> set (as @ bs)" "h \<notin> set (as @ bs)"
    using segs_gap_fresh [OF segs, of l s] segs_gap_fresh [OF segs, of h s] d
    by (auto simp: i l_def h_def)
  have m: "inorder (tree_modify s y ?t) = as @ y # bs" "balanced (tree_modify s y ?t)" for y
    using tree_modify_at [of ?t as s bs y] d i bal by auto
  consider "ss_start s \<noteq> ss_start q" "ss_end s \<noteq> ss_end q" | "ss_start s \<noteq> ss_start q" "ss_end s = ss_end q"
    | "ss_start s = ss_start q" "ss_end s \<noteq> ss_end q" | "ss_start s = ss_start q" "ss_end s = ss_end q"
    by blast
  then show ?thesis
  proof cases
    case 1
    have "distinct (inorder (tree_modify s l ?t))" using m(1) d new by auto
    note ins = tree_insert_here_at [OF this m(1), of h True]
    have "pp_ok (pp_add l (pp_add h ?pp)) (insert l (insert h (set (as @ bs))))"
      using new lh by (intro pp_add_ok pr) auto
    then show ?thesis
      using 1 r ins m(2) by (simp add: pieces_def l_def [symmetric] h_def [symmetric] insert_commute)
  next
    case 2
    have "pp_ok (pp_add l ?pp) (insert l (set (as @ bs)))"
      using new by (intro pp_add_ok pr) auto
    then show ?thesis using 2 r m by (auto simp: pieces_def l_def [symmetric])
  next
    case 3
    have "pp_ok (pp_add h ?pp) (insert h (set (as @ bs)))"
      using new by (intro pp_add_ok pr) auto
    then show ?thesis using 3 r m by (auto simp: pieces_def h_def [symmetric])
  next
    case 4
    then show ?thesis
      using r pr tree_remove_at [of ?t as s bs] d i bal by (auto simp: pieces_def)
  qed
qed

lemma space_map_remove_effect:
  assumes ok: "sm_ok sm" and sz: "sz \<noteq> 0" and nw: "unat start + unat sz < 2 ^ 64"
    and align: "P2PHASE start (sm_unit sm) = 0" "P2PHASE sz (sm_unit sm) = 0"
    and sub: "seg_set (seg_of start sz) \<subseteq> sm_set sm"
  shows "\<exists>sm'. space_map_remove rec sm start sz = Inr sm' \<and> sm_ok sm'
    \<and> sm_set sm' = sm_set sm - seg_set (seg_of start sz)
    \<and> unat (sm_space sm') + unat sz = unat (sm_space sm)
    \<and> sm' = sm\<lparr>sm_root := sm_root sm', sm_pp_root := sm_pp_root sm', sm_space := sm_space sm'\<rparr>"
proof -
  let ?q = "seg_of start sz" and ?u = "sm_unit sm"
  let ?lo = "sm_start sm" and ?hi = "sm_start sm + sm_size sm"
  note w = no_wrap [OF nw sz]
  have segs: "segs_ok ?u ?lo ?hi (segs sm)" and bal: "balanced (sm_root sm)"
    and sp: "unat (sm_space sm) = total (segs sm)" and hi: "unat ?lo + unat (sm_size sm) < 2 ^ 64"
    and pp: "pp_ok (sm_pp_root sm) (set (segs sm))"
    using ok by (auto simp: sm_ok_def)
  have qne: "ss_start ?q < ss_end ?q" using w by simp
  obtain s where s: "s \<in> set (segs sm)" "ss_start s \<le> ss_start ?q" "ss_end ?q \<le> ss_end s"
    using sub cover_contiguous [OF segs qne] by (auto simp: sm_set_def)
  obtain loc where f: "tree_find (space_map_seg_compare ?q) (sm_root sm) = (Some s, loc)"
    using find_container [OF segs bal qne s] by (metis prod.collapse)
  obtain as bs where i: "segs sm = as @ s # bs"
    using s(1) by (meson split_list)
  have "seg_ok ?u ?lo ?hi s" using segs s(1) by (simp add: segs_ok_def)
  then have q: "seg_ok ?u ?lo ?hi ?q"
    using w s(2,3) align by (auto simp: seg_ok_def P2PHASE_add)
  note p = pieces_ok [OF segs [unfolded i] q s(2,3)]
  have le: "unat sz \<le> unat (sm_space sm)" using p(3) sp i w(3) by simp
  then have space: "unat (sm_space sm - sz) = unat (sm_space sm) - unat sz"
    by (simp add: unat_sub word_le_nat_alt)
  have "?lo \<le> ?hi" "unat ?hi = unat ?lo + unat (sm_size sm)"
    using hi by (simp_all add: unat_word_ariths word_le_nat_alt)
  then have v: "sm_space sm - sz \<le> sm_size sm"
    using segs_total_le [OF segs] sp space by (simp add: word_le_nat_alt)
  obtain root pp' where l: "space_map_remove_link sm s (ss_start ?q) (ss_end ?q) = (root, pp')"
    by (metis prod.collapse)
  note t = space_map_remove_link_correct [OF ok i q s(2,3) l]
  let ?sm' = "sm\<lparr>sm_root := root, sm_pp_root := pp', sm_space := sm_space sm - sz\<rparr>"
  have "space_map_remove rec sm start sz = Inr ?sm'"
    using f sz align s(2,3) v l by (simp add: space_map_remove_def)
  moreover have "sm_ok ?sm'"
    using t p hi space sp i w(3) by (simp add: sm_ok_def)
  moreover have "sm_set ?sm' = sm_set sm - seg_set ?q"
    using t p(2) i by (simp add: sm_set_def)
  ultimately show ?thesis using space le by (intro exI [of _ ?sm']) simp
qed

lemma space_map_contains_iff:
  assumes ok: "sm_ok sm" and sz: "sz \<noteq> 0" and nw: "unat start + unat sz < 2 ^ 64"
    and align: "P2PHASE start (sm_unit sm) = 0" "P2PHASE sz (sm_unit sm) = 0"
  shows "space_map_contains sm start sz = Inr (seg_set (seg_of start sz) \<subseteq> sm_set sm)"
proof -
  let ?q = "seg_of start sz"
  have segs: "segs_ok (sm_unit sm) (sm_start sm) (sm_start sm + sm_size sm) (segs sm)"
    and bal: "balanced (sm_root sm)"
    using ok by (auto simp: sm_ok_def)
  have qne: "ss_start ?q < ss_end ?q" using no_wrap [OF nw sz] by simp
  have "(case fst (tree_find (space_map_seg_compare ?q) (sm_root sm)) of
      None \<Rightarrow> False | Some s \<Rightarrow> ss_start s \<le> start \<and> start + sz \<le> ss_end s)
    \<longleftrightarrow> seg_set ?q \<subseteq> sm_set sm" (is "?found \<longleftrightarrow> _")
  proof
    assume ?found
    then obtain s p where f: "tree_find (space_map_seg_compare ?q) (sm_root sm) = (Some s, p)"
      and c: "ss_start s \<le> ss_start ?q" "ss_end ?q \<le> ss_end s"
      by (cases "tree_find (space_map_seg_compare ?q) (sm_root sm)") (auto split: option.splits)
    have "s \<in> set (segs sm)" using avl.find_Some [OF f] by simp
    then show "seg_set ?q \<subseteq> sm_set sm"
      unfolding sm_set_def cover_contiguous [OF segs qne] using c by (intro bexI [of _ s] conjI)
  next
    assume "seg_set ?q \<subseteq> sm_set sm"
    then obtain s where "s \<in> set (segs sm)" "ss_start s \<le> ss_start ?q" "ss_end ?q \<le> ss_end s"
      unfolding sm_set_def cover_contiguous [OF segs qne] by (elim bexE conjE)
    then show ?found
      using find_container [OF segs bal qne, of s] by simp
  qed
  then show ?thesis
    using sz align by (simp add: space_map_contains_def)
qed

lemma space_map_remove_missing:
  assumes ok: "sm_ok sm" and sz: "sz \<noteq> 0" and nw: "unat start + unat sz < 2 ^ 64"
    and ov: "\<not> seg_set (seg_of start sz) \<subseteq> sm_set sm"
  shows "space_map_remove False sm start sz \<in> {Inl Verify_failed, Inl Zfs_panic}"
    and "space_map_remove True sm start sz \<in> {Inl Verify_failed, Inr sm}"
proof -
  let ?q = "seg_of start sz"
  have segs: "segs_ok (sm_unit sm) (sm_start sm) (sm_start sm + sm_size sm) (segs sm)"
    using ok by (auto simp: sm_ok_def)
  have qne: "ss_start ?q < ss_end ?q" using no_wrap [OF nw sz] by simp
  obtain ss loc where f: "tree_find (space_map_seg_compare ?q) (sm_root sm) = (ss, loc)"
    by (metis prod.collapse)
  have "\<not> (ss_start s \<le> start \<and> start + sz \<le> ss_end s)" if "ss = Some s" for s
  proof -
    have "s \<in> set (segs sm)" using avl.find_Some [OF f [unfolded that]] by (rule conjunct1)
    moreover have "\<not> (\<exists>s\<in>set (segs sm). ss_start s \<le> start \<and> start + sz \<le> ss_end s)"
      using ov cover_contiguous [OF segs qne] by (simp only: sm_set_def space_seg.simps not_False_eq_True)
    ultimately show ?thesis by blast
  qed
  then have r: "space_map_remove rec sm start sz \<in>
      {Inl Verify_failed, zfs_panic_recover rec sm}" for rec
    using f by (cases ss) (auto simp: space_map_remove_def verify_def Let_def)
  show "space_map_remove False sm start sz \<in> {Inl Verify_failed, Inl Zfs_panic}"
    and "space_map_remove True sm start sz \<in> {Inl Verify_failed, Inr sm}"
    using r [of False] r [of True] by (simp_all add: zfs_panic_recover_def)
qed

subsection \<open>Properties\<close>

text \<open>The map used in the examples: one megabyte in sectors of 512 bytes, all of it allocated.\<close>

definition example_map :: space_map where
  "example_map = space_map_create 0x10000 0x100000 9"

lemma example_map_ok: "sm_ok example_map" "sm_set example_map = {}" "sm_shift example_map = 9"
    "sm_start example_map = 0x10000" "sm_size example_map = 0x100000"
  by (simp_all add: example_map_def space_map_create_def sm_ok_def segs_ok_def total_def pp_ok_def
      sm_set_def cover_def)

text \<open>
  (C3) \<^verbatim>\<open>space_map_add()\<close>. Adding an aligned range that lies inside the map and is disjoint from it
  succeeds, keeps the representation invariant (a balanced tree of maximal aligned segments, the
  running total, the picker tree in step) and represents the union; the total grows by the size.
\<close>

theorem space_map_add_correct:
  assumes "sm_ok sm" and "sz \<noteq> 0" and "unat start + unat sz < 2 ^ 64"
    and "sm_start sm \<le> start" and "start + sz \<le> sm_start sm + sm_size sm"
    and "P2PHASE start (sm_unit sm) = 0" and "P2PHASE sz (sm_unit sm) = 0"
    and "{start..<start + sz} \<inter> sm_set sm = {}"
  shows "\<exists>sm'. space_map_add rec sm start sz = Inr sm' \<and> sm_ok sm'
    \<and> sm_set sm' = sm_set sm \<union> {start..<start + sz}
    \<and> unat (sm_space sm') = unat (sm_space sm) + unat sz"
  using space_map_add_effect [OF assms(1-7), of rec] assms(8) by (auto simp: seg_set_def)

theorem space_map_add_correct_witness:
  "\<exists>sm'. space_map_add False example_map 0x10200 0x400 = Inr sm' \<and> sm_ok sm'
    \<and> sm_set sm' = {0x10200..<0x10600} \<and> unat (sm_space sm') = 0x400"
  using space_map_add_correct [of example_map "0x400" "0x10200" False] example_map_ok
  by (simp add: P2PHASE_def) (simp add: example_map_def space_map_create_def)

text \<open>
  (C4) \<^verbatim>\<open>space_map_remove()\<close>. Removing an aligned range that the map contains succeeds, keeps the
  invariant and represents the difference, whether the range is a whole segment, one end of it or
  its middle; the total shrinks by the size.
\<close>

theorem space_map_remove_correct:
  assumes "sm_ok sm" and "sz \<noteq> 0" and "unat start + unat sz < 2 ^ 64"
    and "P2PHASE start (sm_unit sm) = 0" and "P2PHASE sz (sm_unit sm) = 0"
    and "{start..<start + sz} \<subseteq> sm_set sm"
  shows "\<exists>sm'. space_map_remove rec sm start sz = Inr sm' \<and> sm_ok sm'
    \<and> sm_set sm' = sm_set sm - {start..<start + sz}
    \<and> unat (sm_space sm') + unat sz = unat (sm_space sm)"
  using space_map_remove_effect [OF assms(1-5), of rec] assms(6) by (auto simp: seg_set_def)

definition example_seg_map :: space_map where
  "example_seg_map = example_map\<lparr>sm_root := Node Null \<lparr>ss_start = 0x10200, ss_end = 0x10800\<rparr> 0 Null, sm_space := 0x600\<rparr>"

lemma example_seg_map_ok: "sm_ok example_seg_map" "sm_set example_seg_map = {0x10200..<0x10800}"
    "sm_shift example_seg_map = 9" "sm_space example_seg_map = 0x600"
    "sm_start example_seg_map = 0x10000" "sm_size example_seg_map = 0x100000"
  by (simp_all add: example_seg_map_def example_map_def space_map_create_def sm_ok_def segs_ok_def total_def
      seg_len_def seg_ok_def pp_ok_def sm_set_def cover_def seg_set_def P2PHASE_def)

theorem space_map_remove_correct_witness:
  "\<exists>sm'. space_map_remove False example_seg_map 0x10400 0x200 = Inr sm' \<and> sm_ok sm'
    \<and> sm_set sm' = {0x10200..<0x10800} - {0x10400..<0x10600} \<and> unat (sm_space sm') = 0x400"
  using space_map_remove_correct [of example_seg_map "0x200" "0x10400" False] example_seg_map_ok
  by (simp add: P2PHASE_def)

text \<open>
  (C21) Double free and stray ranges. Adding a range that meets the map never changes it: it fails a
  check, or panics, or is ignored when \<^verbatim>\<open>zfs_recover\<close> is set. Removing a range that the map does not
  contain is caught in the same way.
\<close>

theorem space_map_misuse_caught:
  assumes "sm_ok sm" and "sz \<noteq> 0" and "unat start + unat sz < 2 ^ 64"
  shows "({start..<start + sz} \<inter> sm_set sm \<noteq> {} \<longrightarrow>
      space_map_add rec sm start sz \<in> {Inl Verify_failed, zfs_panic_recover rec sm})
    \<and> (\<not> {start..<start + sz} \<subseteq> sm_set sm \<longrightarrow>
      space_map_remove rec sm start sz \<in> {Inl Verify_failed, zfs_panic_recover rec sm})"
  using space_map_add_overlap [OF assms] space_map_remove_missing [OF assms]
  by (cases rec) (auto simp: seg_set_def zfs_panic_recover_def)

theorem space_map_misuse_caught_witness:
  "space_map_add True example_seg_map 0x10400 0x200 \<in> {Inl Verify_failed, Inr example_seg_map}
    \<and> space_map_remove True example_seg_map 0x10000 0x400 \<in> {Inl Verify_failed, Inr example_seg_map}"
proof -
  have "{0x10400..<0x10400 + 0x200} \<inter> sm_set example_seg_map \<noteq> {}"
    unfolding example_seg_map_ok(2) by (rule notI, drule equalityD1, drule subsetD [of _ _ "0x10400"]) simp_all
  moreover have "\<not> {0x10000..<0x10000 + 0x400} \<subseteq> sm_set example_seg_map"
    unfolding example_seg_map_ok(2) by (rule notI, drule subsetD [of _ _ "0x10000"]) simp_all
  ultimately show ?thesis
    using space_map_misuse_caught [OF example_seg_map_ok(1), of "0x200" "0x10400" True]
      space_map_misuse_caught [OF example_seg_map_ok(1), of "0x400" "0x10000" True]
    by (simp add: zfs_panic_recover_def)
qed

text \<open>
  (C22) \<^verbatim>\<open>space_map_contains()\<close> decides containment of an aligned range, although it looks at a single
  segment: the segments are maximal.
\<close>

theorem space_map_contains_decides:
  assumes "sm_ok sm" and "sz \<noteq> 0" and "unat start + unat sz < 2 ^ 64"
    and "P2PHASE start (sm_unit sm) = 0" and "P2PHASE sz (sm_unit sm) = 0"
  shows "space_map_contains sm start sz = Inr ({start..<start + sz} \<subseteq> sm_set sm)"
  using space_map_contains_iff [OF assms] by (simp add: seg_set_def)

theorem space_map_contains_decides_witness: "space_map_contains example_seg_map 0x10400 0x400 = Inr True"
  using space_map_contains_decides [of example_seg_map "0x400" "0x10400"] example_seg_map_ok
  by (simp add: P2PHASE_def)

end
