(* ===== verification/Bitops.thy ===== *)
theory Bitops
  imports ZPrelude
begin

text \<open>
  Bit scanning (\<^verbatim>\<open>highbit()\<close> and \<^verbatim>\<open>lowbit()\<close> of \<^verbatim>\<open>lib/libumem/misc.c\<close>) and the bit-field
  macros of \<^verbatim>\<open>lib/libzfscommon/include/sys/spa.h\<close>, with the arithmetic meaning of the rounding
  macros that the block pickers depend on.
\<close>

definition highbit :: "u64 \<Rightarrow> nat" where
  "highbit i =
     (if i = 0 then 0
      else
        let h = 1;
            (h, i) = (if i AND 0xffffffff00000000 \<noteq> 0 then (h + 32, drop_bit 32 i) else (h, i));
            (h, i) = (if i AND 0xffff0000 \<noteq> 0 then (h + 16, drop_bit 16 i) else (h, i));
            (h, i) = (if i AND 0xff00 \<noteq> 0 then (h + 8, drop_bit 8 i) else (h, i));
            (h, i) = (if i AND 0xf0 \<noteq> 0 then (h + 4, drop_bit 4 i) else (h, i));
            (h, i) = (if i AND 0xc \<noteq> 0 then (h + 2, drop_bit 2 i) else (h, i))
        in if i AND 0x2 \<noteq> 0 then h + 1 else h)"

definition lowbit :: "u64 \<Rightarrow> nat" where
  "lowbit i =
     (if i = 0 then 0
      else
        let h = 1;
            (h, i) = (if i AND 0xffffffff = 0 then (h + 32, drop_bit 32 i) else (h, i));
            (h, i) = (if i AND 0xffff = 0 then (h + 16, drop_bit 16 i) else (h, i));
            (h, i) = (if i AND 0xff = 0 then (h + 8, drop_bit 8 i) else (h, i));
            (h, i) = (if i AND 0xf = 0 then (h + 4, drop_bit 4 i) else (h, i));
            (h, i) = (if i AND 0x3 = 0 then (h + 2, drop_bit 2 i) else (h, i))
        in if i AND 0x1 = 0 then h + 1 else h)"

definition BF64_DECODE :: "u64 \<Rightarrow> nat \<Rightarrow> nat \<Rightarrow> u64" where
  "BF64_DECODE x low len = P2PHASE (drop_bit low x) (push_bit len 1)"

definition BF64_ENCODE :: "u64 \<Rightarrow> nat \<Rightarrow> nat \<Rightarrow> u64" where
  "BF64_ENCODE x low len = push_bit low (P2PHASE x (push_bit len 1))"

definition BF64_GET :: "u64 \<Rightarrow> nat \<Rightarrow> nat \<Rightarrow> u64" where
  "BF64_GET x low len = BF64_DECODE x low len"

definition BF64_SET :: "u64 \<Rightarrow> nat \<Rightarrow> nat \<Rightarrow> u64 \<Rightarrow> u64" where
  "BF64_SET x low len val = x XOR BF64_ENCODE (drop_bit low x XOR val) low len"

subsection \<open>Scanning\<close>

lemma and_mask_zero: "(i :: 'a::len word) AND mask k = 0 \<longleftrightarrow> take_bit k i = 0"
  by (simp add: take_bit_eq_mask)

text \<open>One halving step of the scan: \<open>m\<close> selects bits \<open>k\<close> to \<open>2 k - 1\<close>.\<close>

definition scan_ok :: "u64 \<Rightarrow> nat \<Rightarrow> nat \<Rightarrow> u64 \<Rightarrow> bool" where
  "scan_ok x k h i \<longleftrightarrow> 0 < h \<and> i = drop_bit (h - 1) x \<and> i \<noteq> 0 \<and> drop_bit k i = 0"

lemma drop_bit_zero_iff: "drop_bit k i = 0 \<longleftrightarrow> (\<forall>n. \<not> bit (i :: 'a::len word) (k + n))"
  using bit_imp_le_length [of i] by (fastforce simp: bit_eq_iff bit_drop_bit_eq)

lemma and_field_zero:
  assumes "drop_bit (2 * k) i = 0"
  shows "(i :: 'a::len word) AND push_bit k (mask k) = 0 \<longleftrightarrow> drop_bit k i = 0"
proof -
  have b: "n < k" if "bit i (k + n)" for n
  proof (rule ccontr)
    assume "\<not> n < k"
    then have "k + n = 2 * k + (n - k)" by simp
    then show False using that assms unfolding drop_bit_zero_iff by metis
  qed
  have f: "bit (i AND push_bit k (mask k)) n \<longleftrightarrow> k \<le> n \<and> bit i n" for n
    using b [of "n - k"] bit_imp_le_length [of i n] by (auto simp: bit_simps)
  show ?thesis
    unfolding drop_bit_zero_iff bit_eq_iff [of "i AND push_bit k (mask k)"] f
    using bit_imp_le_length [of i] by (auto simp: le_iff_add)
qed

lemma scan_step:
  assumes "scan_ok x (2 * k) h i" "m = push_bit k (mask k)"
  shows "case (if i AND m \<noteq> 0 then (h + k, drop_bit k i) else (h, i)) of (h, i) \<Rightarrow> scan_ok x k h i"
proof -
  have i: "0 < h" "i = drop_bit (h - 1) x" "i \<noteq> 0" "drop_bit (2 * k) i = 0"
    using assms(1) by (auto simp: scan_ok_def)
  have "i AND m = 0 \<longleftrightarrow> drop_bit k i = 0"
    unfolding assms(2) by (rule and_field_zero [OF i(4)])
  moreover have "drop_bit k i = drop_bit (h + k - 1) x"
    unfolding i(2) using i(1) by (simp add: drop_bit_drop_bit add.commute)
  moreover have "drop_bit k (drop_bit k i) = 0"
    using i(4) by (simp only: drop_bit_drop_bit mult_2)
  ultimately show ?thesis
    using i by (simp add: scan_ok_def)
qed

lemma highbit_scan:
  assumes "x \<noteq> 0"
  shows "scan_ok x 1 (highbit x) (drop_bit (highbit x - 1) x)"
proof -
  have masks: "0xffffffff00000000 = push_bit 32 (mask 32 :: u64)" "0xffff0000 = push_bit 16 (mask 16 :: u64)"
    "0xff00 = push_bit 8 (mask 8 :: u64)" "0xf0 = push_bit 4 (mask 4 :: u64)"
    "0xc = push_bit 2 (mask 2 :: u64)" "0x2 = push_bit 1 (mask 1 :: u64)"
    by (simp_all add: mask_eq_exp_minus_1)
  have 0: "scan_ok x (2 * 32) 1 x"
    using assms by (simp add: scan_ok_def)
  obtain h1 i1 where 1: "(if x AND 0xffffffff00000000 \<noteq> 0 then (1 + 32 :: nat, drop_bit 32 x) else (1, x)) = (h1, i1)"
    by (metis prod.collapse)
  have o1: "scan_ok x (2 * 16) h1 i1" using scan_step [OF 0 masks(1)] unfolding 1 by simp
  obtain h2 i2 where 2: "(if i1 AND 0xffff0000 \<noteq> 0 then (h1 + 16, drop_bit 16 i1) else (h1, i1)) = (h2, i2)"
    by (metis prod.collapse)
  have o2: "scan_ok x (2 * 8) h2 i2" using scan_step [OF o1 masks(2)] unfolding 2 by simp
  obtain h3 i3 where 3: "(if i2 AND 0xff00 \<noteq> 0 then (h2 + 8, drop_bit 8 i2) else (h2, i2)) = (h3, i3)"
    by (metis prod.collapse)
  have o3: "scan_ok x (2 * 4) h3 i3" using scan_step [OF o2 masks(3)] unfolding 3 by simp
  obtain h4 i4 where 4: "(if i3 AND 0xf0 \<noteq> 0 then (h3 + 4, drop_bit 4 i3) else (h3, i3)) = (h4, i4)"
    by (metis prod.collapse)
  have o4: "scan_ok x (2 * 2) h4 i4" using scan_step [OF o3 masks(4)] unfolding 4 by simp
  obtain h5 i5 where 5: "(if i4 AND 0xc \<noteq> 0 then (h4 + 2, drop_bit 2 i4) else (h4, i4)) = (h5, i5)"
    by (metis prod.collapse)
  have o5: "scan_ok x (2 * 1) h5 i5" using scan_step [OF o4 masks(5)] unfolding 5 by simp
  obtain h6 i6 where 6: "(if i5 AND 0x2 \<noteq> 0 then (h5 + 1, drop_bit 1 i5) else (h5, i5)) = (h6, i6)"
    by (metis prod.collapse)
  have o6: "scan_ok x 1 h6 i6" using scan_step [OF o5 masks(6)] unfolding 6 by simp
  have "highbit x = (if i5 AND 0x2 \<noteq> 0 then h5 + 1 else h5)"
    using assms 1 2 3 4 5 by (simp only: highbit_def Let_def prod.case if_False)
  also have "\<dots> = h6" using 6 by (simp split: if_splits)
  finally have h: "highbit x = h6" .
  have "i6 = drop_bit (h6 - 1) x" using o6 by (simp add: scan_ok_def)
  then show ?thesis using o6 unfolding h by simp
qed

lemma highbit_bounds:
  assumes "x \<noteq> 0"
  shows "2 ^ (highbit x - 1) \<le> unat x" "unat x < 2 ^ highbit x" "0 < highbit x" "highbit x \<le> 64"
proof -
  let ?h = "highbit x"
  have s: "0 < ?h" "drop_bit (?h - 1) x \<noteq> 0" "drop_bit 1 (drop_bit (?h - 1) x) = 0"
    using highbit_scan [OF assms] by (auto simp: scan_ok_def)
  show h: "0 < ?h" by (rule s(1))
  have "unat (drop_bit (?h - 1) x) \<noteq> 0" using s(2) by (simp only: unat_eq_0 not_False_eq_True)
  then have "unat x div 2 ^ (?h - 1) \<noteq> 0" unfolding unat_drop_bit_eq unfolding drop_bit_eq_div .
  then show l: "2 ^ (?h - 1) \<le> unat x" by (simp add: div_eq_0_iff not_less)
  have "drop_bit ?h x = 0" using s(3) h by (simp add: drop_bit_drop_bit)
  then have "unat x div 2 ^ ?h = 0" by (metis drop_bit_eq_div unat_drop_bit_eq unsigned_0)
  then show "unat x < 2 ^ ?h" by (simp add: div_eq_0_iff)
  have "(2 :: nat) ^ (?h - 1) < 2 ^ 64" using l unat_less_64 [of x] by simp
  then have "?h - 1 < 64" by (rule power_less_imp_less_exp [rotated]) simp
  then show "?h \<le> 64" by simp
qed

lemma highbit_exp: "k < 64 \<Longrightarrow> highbit (2 ^ k) = k + 1"
proof -
  assume k: "k < 64"
  then have "(2 :: nat) ^ k < 2 ^ 64" by (rule power_strict_increasing) simp
  then have u: "unat (2 ^ k :: u64) = 2 ^ k" using unat_of_nat_small [of "2 ^ k", where ?'a = 64] by simp
  then have n: "(2 ^ k :: u64) \<noteq> 0"
    by (metis power_not_zero unsigned_0 zero_neq_numeral)
  note b = highbit_bounds [OF n, unfolded u]
  have "highbit (2 ^ k) - 1 \<le> k" using b(1) by (simp add: power_le_imp_le_exp)
  moreover have "k < highbit (2 ^ k)" using b(2) by (simp add: power_less_imp_less_exp)
  ultimately show ?thesis by simp
qed

subsection \<open>Rounding\<close>

lemma and_not_mask: "x AND NOT (mask k) = x - take_bit k (x :: 'a::len word)"
proof -
  have "x - take_bit k x = x AND NOT (take_bit k x)"
    by (rule disjunctive_diff_eq_and_not) (simp add: bit_eq_iff bit_simps)
  also have "\<dots> = x AND NOT (mask k)"
    by (rule bit_word_eqI) (auto simp: bit_simps)
  finally show ?thesis by simp
qed

lemma P2ROUNDUP_add: "P2ROUNDUP x (2 ^ k) = x + take_bit k (- x :: 'a::len word)"
proof -
  have "- x AND - (2 ^ k) = - x - take_bit k (- x)"
    by (simp only: minus_exp_eq_not_mask and_not_mask)
  then show ?thesis by (simp add: P2ROUNDUP_def)
qed

text \<open>
  Rounding up gives the least aligned address from \<open>x\<close> on, as long as there is one below the
  top of the address space.
\<close>

lemma P2ROUNDUP_least:
  fixes x y :: "'a::len word"
  assumes "P2PHASE y (2 ^ k) = 0" "x \<le> y" "k < LENGTH('a)"
  shows "x \<le> P2ROUNDUP x (2 ^ k)" "P2ROUNDUP x (2 ^ k) \<le> y" "P2PHASE (P2ROUNDUP x (2 ^ k)) (2 ^ k) = 0"
proof -
  let ?m = "2 ^ k :: nat" and ?r = "unat (take_bit k (- x))"
  have L: "?m dvd 2 ^ LENGTH('a)" using assms(3) by (simp add: le_imp_power_dvd)
  have "unat (- x) = (2 ^ LENGTH('a) - unat x) mod 2 ^ LENGTH('a)"
  proof -
    have "- x = of_nat (2 ^ LENGTH('a) - unat x)"
      using unsigned_less [of x, where ?'a = nat] by (simp add: of_nat_diff less_imp_le)
    then show ?thesis by (simp only: unat_of_nat)
  qed
  then have "?r = (2 ^ LENGTH('a) - unat x) mod 2 ^ LENGTH('a) mod ?m"
    unfolding unsigned_take_bit_eq by (simp only: take_bit_eq_mod)
  then have r: "?r = (2 ^ LENGTH('a) - unat x) mod ?m"
    by (simp only: mod_mod_cancel [OF L])
  have y: "?m dvd unat y"
    using assms(1,3) by (simp add: P2PHASE_zero_iff min_def)
  have le: "unat x \<le> unat y" "unat y \<le> 2 ^ LENGTH('a)"
    using assms(2) by (simp_all add: word_le_nat_alt less_imp_le)
  have "2 ^ LENGTH('a) - unat x = (2 ^ LENGTH('a) - unat y) + (unat y - unat x)"
    using le by simp
  moreover have "?m dvd 2 ^ LENGTH('a) - unat y" using L y by (rule dvd_diff_nat)
  ultimately have r': "?r = (unat y - unat x) mod ?m"
    unfolding r by (metis add.commute dvd_def mod_mult_self1 mult.commute)
  then have ry: "unat x + ?r \<le> unat y"
    using le(1) by (metis add.commute le_diff_conv2 mod_less_eq_dividend)
  have u: "unat (P2ROUNDUP x (2 ^ k)) = unat x + ?r"
    using ry le_less_trans [OF ry unsigned_less]
    unfolding P2ROUNDUP_add by (simp add: unat_word_ariths)
  show "x \<le> P2ROUNDUP x (2 ^ k)" "P2ROUNDUP x (2 ^ k) \<le> y"
    using u ry by (simp_all add: word_le_nat_alt)
  have "unat y = (unat x + ?r) + (unat y - unat x) div ?m * ?m"
    using le(1) mod_div_mult_eq [of "unat y - unat x" ?m] unfolding r' by linarith
  then have "?m dvd unat x + ?r" using y by (metis dvd_add_left_iff dvd_triv_right)
  then show "P2PHASE (P2ROUNDUP x (2 ^ k)) (2 ^ k) = 0"
    using assms(3) u by (simp add: P2PHASE_zero_iff min_def)
qed

subsection \<open>The lowest set bit\<close>

lemma odd_and_minus: "odd (m :: 'a::len word) \<Longrightarrow> m AND - m = 1"
proof -
  assume m: "odd m"
  then have b: "bit m 0" by (simp add: bit_0)
  have "m - 1 = m AND NOT 1"
    using b by (intro disjunctive_diff_eq_and_not bit_word_eqI) (auto simp: bit_and_iff bit_not_iff bit_1_iff)
  then have "- m = NOT (m AND NOT 1)"
    by (simp only: minus_eq_not_minus_1)
  then show ?thesis
    using b by (intro bit_word_eqI) (auto simp: bit_and_iff bit_or_iff bit_not_iff bit_1_iff)
qed

lemma lowest_bit:
  assumes "x \<noteq> (0 :: u64)"
  obtains k where "k < 64" "x AND - x = 2 ^ k" "P2PHASE x (2 ^ k) = 0"
proof -
  obtain n where "bit x n" using assms by (auto simp: bit_eq_iff)
  define k where "k = (LEAST n. bit x n)"
  have k: "bit x k" "\<And>n. n < k \<Longrightarrow> \<not> bit x n"
    unfolding k_def using \<open>bit x n\<close> by (auto intro: LeastI dest: not_less_Least)
  have lt: "k < 64" using bit_imp_le_length [OF k(1)] by simp
  have z: "take_bit k x = 0"
    using k(2) by (intro bit_word_eqI) (auto simp: bit_simps)
  let ?m = "drop_bit k x"
  have x: "x = push_bit k ?m"
  proof (rule bit_word_eqI)
    fix n
    show "bit x n = bit (push_bit k ?m) n"
      using k(2) [of n] by (cases "n < k") (auto simp: bit_simps dest: bit_imp_le_length)
  qed
  have "odd ?m" using k(1) by (simp add: drop_bit_eq_div bit_iff_odd)
  then have "?m AND - ?m = 1" by (rule odd_and_minus)
  have "x AND - x = push_bit k ?m AND push_bit k (- ?m)"
    using x by (metis push_bit_minus)
  also have "\<dots> = 2 ^ k"
    using \<open>?m AND - ?m = 1\<close> by (simp add: push_bit_and [symmetric])
  finally show thesis using that lt z by (simp add: P2PHASE_take_bit)
qed

subsection \<open>Bit fields\<close>

lemma BF64_DECODE_take_bit: "BF64_DECODE x low len = take_bit len (drop_bit low x)"
  by (simp add: BF64_DECODE_def P2PHASE_take_bit push_bit_of_1)

lemma BF64_ENCODE_take_bit: "BF64_ENCODE x low len = push_bit low (take_bit len x)"
  by (simp add: BF64_ENCODE_def P2PHASE_take_bit push_bit_of_1)

lemma BF64_GET_SET:
  assumes "low + len \<le> 64"
  shows "BF64_GET (BF64_SET x low len val) low len = take_bit len val"
    and "low' + len' \<le> low \<or> low + len \<le> low' \<Longrightarrow>
      BF64_GET (BF64_SET x low len val) low' len' = BF64_GET x low' len'"
  using assms
  by (auto intro!: bit_word_eqI
      simp: BF64_GET_def BF64_SET_def BF64_DECODE_take_bit BF64_ENCODE_take_bit bit_simps)

subsection \<open>The downward scan\<close>

text \<open>One halving step of \<^verbatim>\<open>lowbit()\<close>: the lowest set bit lies in the low \<open>k\<close> bits of \<open>i\<close>.\<close>

definition low_ok :: "u64 \<Rightarrow> nat \<Rightarrow> nat \<Rightarrow> u64 \<Rightarrow> bool" where
  "low_ok x k h i \<longleftrightarrow> 0 < h \<and> i = drop_bit (h - 1) x \<and> take_bit (h - 1) x = 0 \<and> take_bit k i \<noteq> 0"

lemma take_bit_zero_iff: "take_bit k i = 0 \<longleftrightarrow> (\<forall>n < k. \<not> bit (i :: 'a::len word) n)"
  by (auto simp: bit_eq_iff bit_take_bit_iff dest: bit_imp_le_length)

lemma low_step:
  assumes "low_ok x (2 * k) h i" and "m = mask k"
  shows "case (if i AND m = 0 then (h + k, drop_bit k i) else (h, i)) of (h, i) \<Rightarrow> low_ok x k h i"
proof (cases "take_bit k i = 0")
  case True
  have i: "0 < h" "i = drop_bit (h - 1) x" "take_bit (h - 1) x = 0" "take_bit (2 * k) i \<noteq> 0"
    using assms(1) by (auto simp: low_ok_def)
  have "take_bit (h + k - 1) x = 0"
    unfolding take_bit_zero_iff
  proof (intro allI impI)
    fix n
    assume n: "n < h + k - 1"
    show "\<not> bit x n"
    proof (cases "n < h - 1")
      case False
      then have "n - (h - 1) < k" "n = h - 1 + (n - (h - 1))"
        using n i(1) by auto
      then show ?thesis
        using True unfolding i(2) take_bit_zero_iff by (metis bit_drop_bit_eq comp_apply)
    qed (use i(3) in \<open>simp add: take_bit_zero_iff\<close>)
  qed
  moreover obtain n where "n < 2 * k" "bit i n"
    using i(4) unfolding take_bit_zero_iff by blast
  moreover from this have "k \<le> n"
    using True unfolding take_bit_zero_iff by (meson not_less)
  ultimately have "take_bit k (drop_bit k i) \<noteq> 0" "take_bit (h + k - 1) x = 0"
    by (auto simp: take_bit_zero_iff bit_drop_bit_eq intro!: exI [of _ "n - k"])
  moreover have "drop_bit k i = drop_bit (h + k - 1) x"
    unfolding i(2) using i(1) by (simp add: drop_bit_drop_bit add.commute)
  ultimately show ?thesis
    using True i(1) by (simp add: low_ok_def assms(2) and_mask_zero)
qed (use assms in \<open>simp add: low_ok_def and_mask_zero\<close>)

lemma lowbit_scan:
  assumes "x \<noteq> 0"
  shows "low_ok x 1 (lowbit x) (drop_bit (lowbit x - 1) x)"
proof -
  have masks: "0xffffffff = (mask 32 :: u64)" "0xffff = (mask 16 :: u64)" "0xff = (mask 8 :: u64)"
    "0xf = (mask 4 :: u64)" "0x3 = (mask 2 :: u64)" "0x1 = (mask 1 :: u64)"
    by (simp_all add: mask_eq_exp_minus_1)
  have 0: "low_ok x (2 * 32) 1 x"
    using assms take_bit_length_eq [of x] by (simp add: low_ok_def)
  obtain h1 i1 where 1: "(if x AND 0xffffffff = 0 then (1 + 32 :: nat, drop_bit 32 x) else (1, x)) = (h1, i1)"
    by (metis prod.collapse)
  have o1: "low_ok x (2 * 16) h1 i1" using low_step [OF 0 masks(1)] unfolding 1 by simp
  obtain h2 i2 where 2: "(if i1 AND 0xffff = 0 then (h1 + 16, drop_bit 16 i1) else (h1, i1)) = (h2, i2)"
    by (metis prod.collapse)
  have o2: "low_ok x (2 * 8) h2 i2" using low_step [OF o1 masks(2)] unfolding 2 by simp
  obtain h3 i3 where 3: "(if i2 AND 0xff = 0 then (h2 + 8, drop_bit 8 i2) else (h2, i2)) = (h3, i3)"
    by (metis prod.collapse)
  have o3: "low_ok x (2 * 4) h3 i3" using low_step [OF o2 masks(3)] unfolding 3 by simp
  obtain h4 i4 where 4: "(if i3 AND 0xf = 0 then (h3 + 4, drop_bit 4 i3) else (h3, i3)) = (h4, i4)"
    by (metis prod.collapse)
  have o4: "low_ok x (2 * 2) h4 i4" using low_step [OF o3 masks(4)] unfolding 4 by simp
  obtain h5 i5 where 5: "(if i4 AND 0x3 = 0 then (h4 + 2, drop_bit 2 i4) else (h4, i4)) = (h5, i5)"
    by (metis prod.collapse)
  have o5: "low_ok x (2 * 1) h5 i5" using low_step [OF o4 masks(5)] unfolding 5 by simp
  obtain h6 i6 where 6: "(if i5 AND 0x1 = 0 then (h5 + 1, drop_bit 1 i5) else (h5, i5)) = (h6, i6)"
    by (metis prod.collapse)
  have o6: "low_ok x 1 h6 i6" using low_step [OF o5 masks(6)] unfolding 6 by simp
  have "lowbit x = (if i5 AND 0x1 = 0 then h5 + 1 else h5)"
    using assms 1 2 3 4 5 by (simp only: lowbit_def Let_def prod.case if_False)
  also have "\<dots> = h6" using 6 by (simp split: if_splits)
  finally have h: "lowbit x = h6" .
  have "i6 = drop_bit (h6 - 1) x" using o6 by (simp add: low_ok_def)
  then show ?thesis using o6 unfolding h by simp
qed

lemma lowbit_bounds:
  assumes "x \<noteq> 0"
  shows "bit x (lowbit x - 1)" and "n < lowbit x - 1 \<Longrightarrow> \<not> bit x n" and "0 < lowbit x" and "lowbit x \<le> 64"
proof -
  have s: "0 < lowbit x" "take_bit (lowbit x - 1) x = 0" "take_bit 1 (drop_bit (lowbit x - 1) x) \<noteq> 0"
    using lowbit_scan [OF assms] by (auto simp: low_ok_def)
  show b: "bit x (lowbit x - 1)"
    using s(3) unfolding take_bit_zero_iff by (auto simp: bit_drop_bit_eq)
  show "n < lowbit x - 1 \<Longrightarrow> \<not> bit x n"
    using s(2) by (simp add: take_bit_zero_iff)
  show "0 < lowbit x"
    by (rule s(1))
  show "lowbit x \<le> 64"
    using bit_imp_le_length [OF b] by simp
qed

subsection \<open>Properties\<close>

text \<open>
  Bit scanning. For a non-zero word \<^verbatim>\<open>highbit()\<close> is the position, counted from 1, of the highest
  set bit: the word lies in the binade below that power of two.
\<close>

lemma highbit_binade: "x \<noteq> 0 \<Longrightarrow> 2 ^ (highbit x - 1) \<le> unat x \<and> unat x < 2 ^ highbit x"
  using highbit_bounds by blast

lemma highbit_binade_witness: "2 ^ (highbit 0x1234 - 1) \<le> unat (0x1234 :: u64) \<and> unat (0x1234 :: u64) < 2 ^ highbit 0x1234"
  by (rule highbit_binade) simp

text \<open>
  \<^verbatim>\<open>lowbit()\<close> is the position, counted from 1, of the lowest set bit, and 0 exactly for 0.
\<close>

lemma lowbit_least:
  "lowbit x = (if x = 0 then 0 else Suc (LEAST n. bit x n))"
proof (cases "x = 0")
  case False
  then have "(LEAST n. bit x n) = lowbit x - 1"
    using lowbit_bounds(1,2) [OF False] by (intro Least_equality) (auto simp: not_less [symmetric])
  then show ?thesis
    using lowbit_bounds(3) [OF False] False by simp
qed (simp add: lowbit_def)

text \<open>
  Bit fields. A field that has been set reads back as the value cut to its length, and every
  field that does not overlap it keeps its value.
\<close>

lemma bitfield_get_set:
  assumes "low + len \<le> 64" and "low' + len' \<le> low \<or> low + len \<le> low'"
  shows "BF64_GET (BF64_SET x low len val) low len = take_bit len val
    \<and> BF64_GET (BF64_SET x low len val) low' len' = BF64_GET x low' len'"
  using BF64_GET_SET assms by blast

lemma bitfield_get_set_witness:
  "BF64_GET (BF64_SET 0xff0f 8 8 0xab) 8 8 = 0xab \<and> BF64_GET (BF64_SET 0xff0f 8 8 0xab) 0 4 = 0xf"
  using bitfield_get_set [of 8 8 0 4 "0xff0f" "0xab"]
  by (simp add: BF64_GET_def BF64_DECODE_def P2PHASE_def)

end
