(* ===== verification/Block_Picker.thy ===== *)
theory Block_Picker
  imports Space_Map Bitops
begin

text \<open>
  The block pickers of \<^verbatim>\<open>lib/libzpool/metaslab.c\<close>: the common search, the picker-private state
  kept in \<^verbatim>\<open>sm_pp_root\<close> and \<^verbatim>\<open>sm_ppd\<close>, and the four allocation policies (first fit, dynamic
  fit, and the experimental cursor and new dynamic fit).
\<close>

definition SPA_MAXBLOCKSIZE :: u64 where
  "SPA_MAXBLOCKSIZE = push_bit 17 1"

definition metaslab_df_alloc_threshold :: u64 where
  "metaslab_df_alloc_threshold = SPA_MAXBLOCKSIZE"

definition metaslab_df_free_pct :: int where
  "metaslab_df_free_pct = 4"

definition metaslab_min_alloc_size :: u64 where
  "metaslab_min_alloc_size = push_bit 20 10"

text \<open>The scan of \<^verbatim>\<open>metaslab_block_picker()\<close> over the segments it walks.\<close>

primrec picker_scan :: "u64 \<Rightarrow> u64 \<Rightarrow> space_seg list \<Rightarrow> u64 option" where
  "picker_scan sz align [] = None"
| "picker_scan sz align (ss # rest) =
     (let offset = P2ROUNDUP (ss_start ss) align
      in if offset + sz \<le> ss_end ss then Some offset else picker_scan sz align rest)"

text \<open>The result is the offset, \<open>- 1\<close> for none, and the new value of the cursor.\<close>

function metaslab_block_picker ::
  "(space_seg \<Rightarrow> space_seg \<Rightarrow> int) \<Rightarrow> space_seg atree \<Rightarrow> u64 \<Rightarrow> u64 \<Rightarrow> u64 \<Rightarrow> u64 \<times> u64" where
  "metaslab_block_picker compar t cursor sz align =
    (let ssearch = \<lparr>ss_start = cursor, ss_end = cursor + sz\<rparr>;
         (found, loc) = tree_find (compar ssearch) t;
         ss = (case found of None \<Rightarrow> tree_nearest loc True t | Some s \<Rightarrow> Some s)
     in case picker_scan sz align (tree_visit ss t) of
          Some offset \<Rightarrow> (offset, offset + sz)
        | None \<Rightarrow>
            if cursor = 0 then (- 1, cursor) else metaslab_block_picker compar t 0 sz align)"
  by pat_completeness auto
termination
  by (relation "measure (\<lambda>(_, _, cursor, _, _). if cursor = 0 then 0 else 1)") auto

declare metaslab_block_picker.simps [simp del]

definition metaslab_pp_load :: "space_map \<Rightarrow> space_map" where
  "metaslab_pp_load sm =
     sm\<lparr>sm_ppd := Some (replicate 64 0),
        sm_pp_root := Some (fold (tree_add metaslab_segsize_compare)
                              (tree_visit (tree_first (sm_root sm)) (sm_root sm)) Null)\<rparr>"

definition metaslab_pp_unload :: "space_map \<Rightarrow> space_map" where
  "metaslab_pp_unload sm = sm\<lparr>sm_ppd := None, sm_pp_root := None\<rparr>"

definition metaslab_pp_claim :: "space_map \<Rightarrow> u64 \<Rightarrow> u64 \<Rightarrow> space_map" where
  "metaslab_pp_claim sm start sz = sm"

definition metaslab_pp_free :: "space_map \<Rightarrow> u64 \<Rightarrow> u64 \<Rightarrow> space_map" where
  "metaslab_pp_free sm start sz = sm"

definition metaslab_pp_maxsize :: "space_map \<Rightarrow> u64" where
  "metaslab_pp_maxsize sm =
     (case Option.bind (sm_pp_root sm) tree_last of
        None \<Rightarrow> 0
      | Some ss \<Rightarrow> ss_end ss - ss_start ss)"

text \<open>Access to the 64 cursors behind \<^verbatim>\<open>sm_ppd\<close>, and the cursor of an alignment.\<close>

definition ppd_at :: "space_map \<Rightarrow> nat \<Rightarrow> u64 outcome" where
  "ppd_at sm i =
     (case sm_ppd sm of
        None \<Rightarrow> Inl Bad_access
      | Some p \<Rightarrow> if i < length p then Inr (p ! i) else Inl Bad_access)"

definition ppd_set :: "nat \<Rightarrow> u64 \<Rightarrow> space_map \<Rightarrow> space_map" where
  "ppd_set i v sm = sm\<lparr>sm_ppd := map_option (\<lambda>p. p[i := v]) (sm_ppd sm)\<rparr>"

definition cursor_index :: "u64 \<Rightarrow> nat outcome" where
  "cursor_index align = (if highbit align = 0 then Inl Bad_access else Inr (highbit align - 1))"


definition metaslab_ff_alloc :: "space_map \<Rightarrow> u64 \<Rightarrow> (u64 \<times> space_map) outcome" where
  "metaslab_ff_alloc sm sz =
    (let align = sz AND - sz in
     bind_outcome (cursor_index align) (\<lambda>i.
     bind_outcome (ppd_at sm i) (\<lambda>cursor.
     let (offset, cursor') = metaslab_block_picker space_map_seg_compare (sm_root sm) cursor sz align
     in Inr (offset, ppd_set i cursor' sm))))"

text \<open>\<^verbatim>\<open>int free_pct = sm->sm_space * 100 / sm->sm_size\<close>: computed in 64 bits, kept in 32.\<close>

definition sm_free_pct :: "space_map \<Rightarrow> int outcome" where
  "sm_free_pct sm =
     (if sm_size sm = 0 then Inl Div_by_zero
      else Inr (sint (ucast (sm_space sm * 100 div sm_size sm) :: u32)))"


definition metaslab_df_fragmented :: "space_map \<Rightarrow> bool outcome" where
  "metaslab_df_fragmented sm =
     bind_outcome (sm_free_pct sm) (\<lambda>free_pct.
       Inr (\<not> (metaslab_df_alloc_threshold \<le> metaslab_pp_maxsize sm \<and> metaslab_df_free_pct \<le> free_pct)))"


definition metaslab_cdf_fragmented :: "space_map \<Rightarrow> bool" where
  "metaslab_cdf_fragmented sm \<longleftrightarrow> \<not> metaslab_min_alloc_size * 10 < metaslab_pp_maxsize sm"


definition metaslab_ndf_fragmented :: "space_map \<Rightarrow> bool" where
  "metaslab_ndf_fragmented sm \<longleftrightarrow> \<not> metaslab_min_alloc_size * 10 < metaslab_pp_maxsize sm"


primrec smop_fragmented :: "space_map_ops \<Rightarrow> space_map \<Rightarrow> bool outcome" where
  "smop_fragmented Metaslab_ff_ops = (\<lambda>sm. Inr True)"
| "smop_fragmented Metaslab_df_ops = metaslab_df_fragmented"
| "smop_fragmented Metaslab_cdf_ops = (\<lambda>sm. Inr (metaslab_cdf_fragmented sm))"
| "smop_fragmented Metaslab_ndf_ops = (\<lambda>sm. Inr (metaslab_ndf_fragmented sm))"

text \<open>\<^verbatim>\<open>space_map_unload()\<close> to \<^verbatim>\<open>space_map_free()\<close>, which dispatch to the policy of the map.\<close>

definition space_map_vacate ::
  "(space_map \<Rightarrow> u64 \<Rightarrow> u64 \<Rightarrow> space_map outcome) option \<Rightarrow> space_map \<Rightarrow> space_map
    \<Rightarrow> (space_map \<times> space_map) outcome" where
  "space_map_vacate func sm mdest =
     bind_outcome
       (fold (\<lambda>ss m. bind_outcome m (\<lambda>mdest.
                case func of None \<Rightarrow> Inr mdest
                | Some f \<Rightarrow> f mdest (ss_start ss) (ss_end ss - ss_start ss)))
          (postorder (sm_root sm)) (Inr mdest))
       (\<lambda>mdest'. Inr (sm\<lparr>sm_root := Null, sm_space := 0\<rparr>, mdest'))"

definition space_map_walk ::
  "(space_map \<Rightarrow> u64 \<Rightarrow> u64 \<Rightarrow> space_map outcome) \<Rightarrow> space_map \<Rightarrow> space_map \<Rightarrow> space_map outcome" where
  "space_map_walk func sm mdest =
     fold (\<lambda>ss m. bind_outcome m (\<lambda>mdest. func mdest (ss_start ss) (ss_end ss - ss_start ss)))
       (tree_visit (tree_first (sm_root sm)) (sm_root sm)) (Inr mdest)"

text \<open>Vacating with a null \<open>func\<close> only empties the map.\<close>

abbreviation sm_vacated :: "space_map \<Rightarrow> space_map" where
  "sm_vacated sm \<equiv> sm\<lparr>sm_root := Null, sm_space := 0\<rparr>"

definition space_map_unload :: "space_map \<Rightarrow> space_map" where
  "space_map_unload sm =
     (let sm = (if sm_loaded sm \<and> sm_ops sm \<noteq> None then metaslab_pp_unload sm else sm)
      in sm_vacated (sm\<lparr>sm_loaded := False, sm_ops := None\<rparr>))"

definition space_map_maxsize :: "space_map \<Rightarrow> u64 outcome" where
  "space_map_maxsize sm =
     (if sm_ops sm = None then Inl Bad_access else Inr (metaslab_pp_maxsize sm))"


definition space_map_claim :: "bool \<Rightarrow> space_map \<Rightarrow> u64 \<Rightarrow> u64 \<Rightarrow> space_map outcome" where
  "space_map_claim zfs_recover sm start sz =
     (if sm_ops sm = None then Inl Bad_access
      else space_map_remove zfs_recover (metaslab_pp_claim sm start sz) start sz)"

definition space_map_free :: "bool \<Rightarrow> space_map \<Rightarrow> u64 \<Rightarrow> u64 \<Rightarrow> space_map outcome" where
  "space_map_free zfs_recover sm start sz =
     bind_outcome (space_map_add zfs_recover sm start sz) (\<lambda>sm'.
       if sm_ops sm' = None then Inl Bad_access else Inr (metaslab_pp_free sm' start sz))"

subsection \<open>What the search returns\<close>

lemma picker_scan_Some:
  "picker_scan sz align xs = Some off \<Longrightarrow>
     \<exists>s\<in>set xs. off = P2ROUNDUP (ss_start s) align \<and> off + sz \<le> ss_end s"
  by (induction xs) (auto simp: Let_def split: if_splits)

lemma picker_scan_None:
  "picker_scan sz align xs = None \<longleftrightarrow> (\<forall>s\<in>set xs. \<not> P2ROUNDUP (ss_start s) align + sz \<le> ss_end s)"
  by (induction xs) (auto simp: Let_def)

text \<open>The walk starts somewhere in the tree and visits everything from there on.\<close>

lemma picker_visit:
  assumes "distinct (inorder t)" "tree_find cmp t = (found, loc)" "descending cmp (inorder t)"
  obtains as bs where "inorder t = as @ bs"
    "tree_visit (case found of None \<Rightarrow> tree_nearest loc True t | Some s \<Rightarrow> Some s) t = bs"
    "found = None \<Longrightarrow> \<forall>s\<in>set as. 0 < cmp s"
    "\<And>s. found = Some s \<Longrightarrow> cmp s = 0 \<and> (\<exists>rest. bs = s # rest)"
proof (cases found)
  case None
  note f = avl.find_None [OF assms(3) assms(2) [unfolded None]]
  show thesis
  proof (rule that)
    show "inorder t = before loc t @ after loc t" using f avl.slot_seq by blast
    then show "tree_visit (case found of None \<Rightarrow> tree_nearest loc True t | Some s \<Rightarrow> Some s) t = after loc t"
      using tree_visit_from [OF assms(1)] None by (simp add: avl.nearest_after)
  qed (use None f in auto)
next
  case (Some s)
  have s: "s \<in> set (inorder t)" "cmp s = 0"
    using avl.find_Some [OF assms(2) [unfolded Some]] by auto
  obtain as bs where i: "inorder t = as @ s # bs" using s(1) by (meson split_list)
  show thesis
  proof (rule that)
    show "inorder t = as @ (s # bs)" by (rule i)
    then show "tree_visit (case found of None \<Rightarrow> tree_nearest loc True t | Some s \<Rightarrow> Some s) t = s # bs"
      using tree_visit_from [OF assms(1), of as "s # bs"] Some by simp
  qed (use Some s in auto)
qed

lemma picker_visit_subset:
  assumes "distinct (inorder t)" "tree_find cmp t = (found, loc)"
  shows "set (tree_visit (case found of None \<Rightarrow> tree_nearest loc True t | Some s \<Rightarrow> Some s) t)
    \<subseteq> set (inorder t)"
proof (cases found)
  case None
  obtain fs u where z: "zip_to loc t [] = (fs, u)" by (metis prod.collapse)
  have "inorder t = (lefts fs @ inorder u) @ rights fs" using inorder_zip_to [OF z] by simp
  from tree_visit_from [OF assms(1) this] show ?thesis
    using None z inorder_zip_to [OF z] by (auto simp: tree_nearest_ends after_def)
next
  case (Some s)
  have "s \<in> set (inorder t)" using avl.find_Some [OF assms(2) [unfolded Some]] by simp
  then obtain as bs where i: "inorder t = as @ s # bs" by (meson split_list)
  then show ?thesis using tree_visit_from [OF assms(1), of as "s # bs"] Some by auto
qed

lemma P2ROUNDUP_room:
  fixes x :: "'a::len word"
  assumes "unat x + 2 ^ k \<le> 2 ^ LENGTH('a)" "k < LENGTH('a)"
  shows "x \<le> P2ROUNDUP x (2 ^ k)" "unat (P2ROUNDUP x (2 ^ k)) < unat x + 2 ^ k"
    "P2PHASE (P2ROUNDUP x (2 ^ k)) (2 ^ k) = 0"
proof -
  define n where "n = (unat x + 2 ^ k - 1) div 2 ^ k * 2 ^ k"
  have d: "n + (unat x + 2 ^ k - 1) mod 2 ^ k = unat x + 2 ^ k - 1" "(unat x + 2 ^ k - 1) mod 2 ^ k < 2 ^ k"
    unfolding n_def by (simp_all only: div_mult_mod_eq) simp
  then have n: "unat x \<le> n" "n < unat x + 2 ^ k" "n < 2 ^ LENGTH('a)"
    using assms(1) by linarith+
  then have u: "unat (of_nat n :: 'a word) = n" by (simp add: unat_of_nat_small)
  have "P2PHASE (of_nat n :: 'a word) (2 ^ k) = 0"
    using assms(2) by (simp add: P2PHASE_zero_iff u min_def) (simp add: n_def)
  moreover have "x \<le> of_nat n" using n u by (simp add: word_le_nat_alt)
  ultimately have r: "x \<le> P2ROUNDUP x (2 ^ k)" "P2ROUNDUP x (2 ^ k) \<le> of_nat n"
    "P2PHASE (P2ROUNDUP x (2 ^ k)) (2 ^ k) = 0"
    using P2ROUNDUP_least [of "of_nat n" k x] assms(2) by auto
  show "x \<le> P2ROUNDUP x (2 ^ k)" "P2PHASE (P2ROUNDUP x (2 ^ k)) (2 ^ k) = 0" by (rule r)+
  show "unat (P2ROUNDUP x (2 ^ k)) < unat x + 2 ^ k"
    using r(2) u n by (simp add: word_le_nat_alt)
qed

text \<open>A fitting block: \<open>sz\<close> bytes at \<open>off\<close> inside the segment \<open>s\<close>.\<close>

definition fits :: "space_seg \<Rightarrow> u64 \<Rightarrow> u64 \<Rightarrow> bool" where
  "fits s off sz \<longleftrightarrow> ss_start s \<le> off \<and> unat off + unat sz \<le> unat (ss_end s)"

lemma scan_hit_fits:
  assumes "seg_ok unit lo hi s" "k < 64" "2 ^ k \<le> unat sz" "unat hi + 2 * unat sz \<le> 2 ^ 64"
    and "P2ROUNDUP (ss_start s) (2 ^ k) + sz \<le> ss_end s"
  shows "fits s (P2ROUNDUP (ss_start s) (2 ^ k)) sz"
    "P2PHASE (P2ROUNDUP (ss_start s) (2 ^ k)) (2 ^ k) = 0"
proof -
  have s: "unat (ss_start s) < unat (ss_end s)" "unat (ss_end s) \<le> unat hi"
    using assms(1) by (simp_all add: seg_ok_def word_less_nat_alt word_le_nat_alt)
  have "unat (ss_start s) + 2 ^ k \<le> 2 ^ LENGTH(64)" using s assms(3,4) by simp
  note r = P2ROUNDUP_room [OF this] 
  have "unat (P2ROUNDUP (ss_start s) (2 ^ k)) + unat sz < 2 ^ 64"
    using r(2) assms(2-4) s by simp
  then have "unat (P2ROUNDUP (ss_start s) (2 ^ k) + sz) = unat (P2ROUNDUP (ss_start s) (2 ^ k)) + unat sz"
    by (simp add: unat_word_ariths)
  then show "fits s (P2ROUNDUP (ss_start s) (2 ^ k)) sz"
    using assms(2,5) r(1) by (simp add: fits_def word_le_nat_alt)
  show "P2PHASE (P2ROUNDUP (ss_start s) (2 ^ k)) (2 ^ k) = 0" using r(3) assms(2) by simp
qed

text \<open>One search of \<^verbatim>\<open>metaslab_block_picker()\<close>, from a given cursor.\<close>

definition picker_search ::
  "(space_seg \<Rightarrow> space_seg \<Rightarrow> int) \<Rightarrow> space_seg atree \<Rightarrow> u64 \<Rightarrow> u64 \<Rightarrow> u64 \<Rightarrow> u64 option" where
  "picker_search compar t cursor sz align =
    (let (found, loc) = tree_find (compar \<lparr>ss_start = cursor, ss_end = cursor + sz\<rparr>) t
     in picker_scan sz align
          (tree_visit (case found of None \<Rightarrow> tree_nearest loc True t | Some s \<Rightarrow> Some s) t))"

lemma block_picker_searches:
  "metaslab_block_picker compar t cursor sz align =
    (case picker_search compar t cursor sz align of
       Some off \<Rightarrow> (off, off + sz)
     | None \<Rightarrow>
         if cursor = 0 then (- 1, 0)
         else case picker_search compar t 0 sz align of Some off \<Rightarrow> (off, off + sz) | None \<Rightarrow> (- 1, 0))"
proof -
  have "metaslab_block_picker compar t cursor sz align =
    (case picker_search compar t cursor sz align of
       Some off \<Rightarrow> (off, off + sz)
     | None \<Rightarrow> if cursor = 0 then (- 1, 0) else metaslab_block_picker compar t 0 sz align)" for cursor
    by (cases "cursor = 0"; subst metaslab_block_picker.simps)
      (simp_all add: picker_search_def Let_def split_beta cong: option.case_cong)
  from this [of cursor] this [of 0] show ?thesis by (simp cong: option.case_cong)
qed

lemma picker_search_sound:
  assumes "distinct (inorder t)" "\<forall>s\<in>set (inorder t). seg_ok unit lo hi s"
    and "k < 64" "2 ^ k \<le> unat sz" "unat hi + 2 * unat sz \<le> 2 ^ 64"
    and "picker_search compar t cursor sz (2 ^ k) = Some off"
  shows "\<exists>s\<in>set (inorder t). fits s off sz \<and> P2PHASE off (2 ^ k) = 0"
proof -
  obtain found loc where f: "tree_find (compar \<lparr>ss_start = cursor, ss_end = cursor + sz\<rparr>) t = (found, loc)"
    by (metis prod.collapse)
  obtain s where s: "s \<in> set (inorder t)" "off = P2ROUNDUP (ss_start s) (2 ^ k)" "off + sz \<le> ss_end s"
    using picker_scan_Some [OF assms(6) [unfolded picker_search_def f Let_def prod.case]]
      picker_visit_subset [OF assms(1) f] by blast
  show ?thesis
    using scan_hit_fits [of unit lo hi s k sz] assms(2-5) s by blast
qed

lemma block_picker_cases:
  assumes "metaslab_block_picker compar t cursor sz align = (off, cursor')"
  obtains (found) start where "picker_search compar t start sz align = Some off" "cursor' = off + sz"
    | (none) "picker_search compar t 0 sz align = None" "off = - 1" "cursor' = 0"
  using assms unfolding block_picker_searches by (auto split: option.splits if_splits)

lemma not_fits_short: "unat (ss_end s) < unat sz \<Longrightarrow> \<not> fits s off sz"
  by (simp add: fits_def)

lemma fits_minus_1: "fits s (- 1) sz \<Longrightarrow> sz = 0"
proof (rule ccontr)
  assume f: "fits s (- 1) sz" and "sz \<noteq> 0"
  then have "0 < unat sz" by (simp add: unat_gt_0)
  moreover have "unat (- 1 :: u64) = 2 ^ 64 - 1"
    by (simp add: unsigned_minus_1_eq_mask mask_eq_exp_minus_1)
  ultimately show False using f unat_less_64 [of "ss_end s"] by (simp add: fits_def)
qed

text \<open>
  A search from cursor 0 misses nothing: it may start past some segments, but those are too
  small. This holds in both trees.
\<close>

lemma scan_complete:
  assumes "seg_ok unit lo hi s" "k < 64" "unat hi + 2 * unat sz \<le> 2 ^ 64"
    and "fits s off sz" "P2PHASE off (2 ^ k) = 0"
  shows "P2ROUNDUP (ss_start s) (2 ^ k) + sz \<le> ss_end s"
proof -
  have "ss_start s \<le> off" using assms(4) by (simp add: fits_def)
  then have "P2ROUNDUP (ss_start s) (2 ^ k) \<le> off"
    using P2ROUNDUP_least(2) [OF assms(5)] assms(2) by simp
  then have "unat (P2ROUNDUP (ss_start s) (2 ^ k)) + unat sz \<le> unat (ss_end s)"
    using assms(4) by (simp add: fits_def word_le_nat_alt)
  moreover have "unat (ss_end s) < 2 ^ 64" using unat_less_64 [of "ss_end s"] by simp
  ultimately show ?thesis by (simp add: word_le_nat_alt unat_word_ariths)
qed

lemma root_search_complete:
  assumes segs: "segs_ok unit lo hi (inorder t)" and bal: "balanced t" and k: "k < 64"
    and sz: "sz \<noteq> 0" "unat hi + 2 * unat sz \<le> 2 ^ 64"
    and none: "picker_search space_map_seg_compare t 0 sz (2 ^ k) = None"
    and s: "s \<in> set (inorder t)" and off: "P2PHASE off (2 ^ k) = 0"
  shows "\<not> fits s off sz"
proof
  assume f: "fits s off sz"
  let ?q = "\<lparr>ss_start = 0, ss_end = sz\<rparr>"
  have q: "ss_start ?q < ss_end ?q" using sz(1) by (simp add: word_gt_0)
  have ok: "seg_ok unit lo hi r" if "r \<in> set (inorder t)" for r
    using segs that by (simp add: segs_ok_def)
  obtain found loc where tf: "tree_find (space_map_seg_compare ?q) t = (found, loc)"
    by (metis prod.collapse)
  obtain as bs where v: "inorder t = as @ bs"
      "tree_visit (case found of None \<Rightarrow> tree_nearest loc True t | Some s \<Rightarrow> Some s) t = bs"
      "found = None \<Longrightarrow> \<forall>s\<in>set as. 0 < space_map_seg_compare ?q s"
      "\<And>s. found = Some s \<Longrightarrow> space_map_seg_compare ?q s = 0 \<and> (\<exists>rest. bs = s # rest)"
    using picker_visit [OF segs_ok_distinct [OF segs] tf segs_ok_descending [OF segs q]] by metis
  have "s \<notin> set bs"
    using none tf v(2) scan_complete [OF ok [OF s] k sz(2) f off]
    by (auto simp: picker_search_def picker_scan_None)
  then have as: "s \<in> set as" using s v(1) by auto
  have sne: "ss_start s < ss_end s" using ok [OF s] by (simp add: seg_ok_def)
  show False
  proof (cases found)
    case None
    then have "ss_end s \<le> 0" using v(3) as q sne seg_compare_iff(1) [OF q sne] by simp
    then show False using sne by (simp add: word_le_nat_alt word_less_nat_alt)
  next
    case (Some r)
    then obtain rest where r: "bs = r # rest" "space_map_seg_compare ?q r = 0" using v(4) by blast
    have rin: "r \<in> set (inorder t)" using v(1) r by simp
    have rne: "ss_start r < ss_end r" using ok [OF rin] by (simp add: seg_ok_def)
    have "ss_start r < sz" using seg_compare_iff(3) [OF q rne] r(2) by simp
    moreover have "seg_gap s r" using segs as unfolding v(1) r(1) by (auto simp: segs_ok_append)
    ultimately have "unat (ss_end s) < unat sz" by (auto simp: seg_gap_def word_less_nat_alt)
    then show False using not_fits_short f by blast
  qed
qed

lemma P2ROUNDUP_1 [simp]: "P2ROUNDUP x 1 = x"
  by (simp add: P2ROUNDUP_def)

lemma P2PHASE_1 [simp]: "P2PHASE x 1 = 0"
  by (simp add: P2PHASE_def)

lemma unit_fit_iff:
  assumes "seg_ok unit lo hi s" "unat hi + unat sz < 2 ^ 64"
  shows "ss_start s + sz \<le> ss_end s \<longleftrightarrow> unat sz \<le> seg_len s"
    and "fits s (ss_start s) sz \<longleftrightarrow> unat sz \<le> seg_len s"
    and "ss_end s - ss_start s < sz \<longleftrightarrow> seg_len s < unat sz"
proof -
  have s: "unat (ss_start s) < unat (ss_end s)" "unat (ss_end s) \<le> unat hi"
    using assms(1) by (simp_all add: seg_ok_def word_less_nat_alt word_le_nat_alt)
  have "unat (ss_start s + sz) = unat (ss_start s) + unat sz"
    using s assms(2) by (simp add: unat_word_ariths)
  then show "ss_start s + sz \<le> ss_end s \<longleftrightarrow> unat sz \<le> seg_len s"
    using s by (auto simp: word_le_nat_alt seg_len_def)
  show "fits s (ss_start s) sz \<longleftrightarrow> unat sz \<le> seg_len s"
    using s by (auto simp: fits_def seg_len_def)
  have "unat (ss_end s - ss_start s) = seg_len s"
    using s by (simp add: unat_sub word_le_nat_alt seg_len_def)
  then show "ss_end s - ss_start s < sz \<longleftrightarrow> seg_len s < unat sz"
    by (simp add: word_less_nat_alt)
qed

lemma scan_unit:
  assumes "\<forall>s\<in>set xs. seg_ok unit lo hi s" "unat hi + unat sz < 2 ^ 64"
  shows "picker_scan sz 1 xs = map_option ss_start (find (\<lambda>s. unat sz \<le> seg_len s) xs)"
  using assms(1) unit_fit_iff(1) [OF _ assms(2)] by (induction xs) auto

lemma find_append_skip: "\<forall>x\<in>set xs. \<not> P x \<Longrightarrow> find P (xs @ ys) = find P ys"
  by (induction xs) auto

lemma size_skip:
  assumes "seg_ok unit lo hi s" "unat hi + unat sz < 2 ^ 64"
    and "0 < metaslab_segsize_compare \<lparr>ss_start = 0, ss_end = sz\<rparr> s"
  shows "seg_len s < unat sz"
  using assms(3) unit_fit_iff(3) [OF assms(1,2)]
  by (auto simp: metaslab_segsize_compare_def word_gt_0 Let_def split: if_splits)

lemma size_search_best:
  assumes ok: "\<forall>s\<in>set (inorder t). seg_ok unit lo hi s"
    and sorted: "sorted_wrt (\<lambda>a b. metaslab_segsize_compare a b < 0) (inorder t)"
    and sz: "unat hi + unat sz < 2 ^ 64"
  shows "picker_search metaslab_segsize_compare t 0 sz 1 =
    map_option ss_start (find (\<lambda>s. unat sz \<le> seg_len s) (inorder t))"
proof -
  let ?cmp = "metaslab_segsize_compare \<lparr>ss_start = 0, ss_end = sz\<rparr>"
  note d = seg_size.descending_sorted [OF sorted, of "\<lparr>ss_start = 0, ss_end = sz\<rparr>"]
  obtain found loc where tf: "tree_find ?cmp t = (found, loc)"
    by (metis prod.collapse)
  obtain as bs where v: "inorder t = as @ bs"
      "tree_visit (case found of None \<Rightarrow> tree_nearest loc True t | Some s \<Rightarrow> Some s) t = bs"
      "found = None \<Longrightarrow> \<forall>s\<in>set as. 0 < ?cmp s"
      "\<And>s. found = Some s \<Longrightarrow> ?cmp s = 0 \<and> (\<exists>rest. bs = s # rest)"
    using picker_visit [OF seg_size.distinct_sorted [OF sorted] tf d] by metis
  have "0 < ?cmp s" if s: "s \<in> set as" for s
  proof (cases found)
    case (Some r)
    then obtain rest where r: "bs = r # rest" "?cmp r = 0" using v(4) by blast
    have "metaslab_segsize_compare s r < 0"
      using sorted s unfolding v(1) r(1) by (auto simp: sorted_wrt_append)
    moreover have "r = \<lparr>ss_start = 0, ss_end = sz\<rparr>" using r(2) by (simp add: segsize_compare_eq)
    ultimately show ?thesis using seg_size.flip by blast
  qed (use v(3) s in blast)
  then have "\<forall>s\<in>set as. \<not> unat sz \<le> seg_len s"
    using size_skip [OF _ sz, of unit lo] ok unfolding v(1) not_le by simp
  then show ?thesis
    using tf v(2) scan_unit [of bs unit lo hi sz] ok sz
    by (simp add: picker_search_def v(1) find_append_skip)
qed

subsection \<open>The policies\<close>

text \<open>
  What a picker may rely on: a consistent, loaded map and a request in allocation units of at
  most the largest block, with some room between the end of the map and the top of the address
  space.
\<close>

definition picker_ready :: "space_map \<Rightarrow> u64 \<Rightarrow> bool" where
  "picker_ready sm sz \<longleftrightarrow>
     sm_ok sm \<and> sm_size sm \<noteq> 0 \<and> sz \<noteq> 0 \<and> sz \<le> SPA_MAXBLOCKSIZE \<and> P2PHASE sz (sm_unit sm) = 0
     \<and> unat (sm_start sm + sm_size sm) + 2 ^ 25 \<le> 2 ^ 64
     \<and> (case sm_ppd sm of None \<Rightarrow> False | Some p \<Rightarrow> length p = 64) \<and> sm_pp_root sm \<noteq> None"

definition allocatable :: "space_map \<Rightarrow> u64 \<Rightarrow> u64 \<Rightarrow> bool" where
  "allocatable sm off sz \<longleftrightarrow>
     off \<noteq> - 1 \<and> unat off + unat sz < 2 ^ 64 \<and> seg_set (seg_of off sz) \<subseteq> sm_set sm
     \<and> P2PHASE off (sm_unit sm) = 0"

text \<open>A map with other cursors.\<close>

definition same_map :: "space_map \<Rightarrow> space_map \<Rightarrow> bool" where
  "same_map sm sm' \<longleftrightarrow>
     (\<exists>p. sm' = sm\<lparr>sm_ppd := p\<rparr> \<and> map_option length p = map_option length (sm_ppd sm))"

lemma same_map_refl [simp]: "same_map sm sm"
  by (auto simp: same_map_def intro: exI [of _ "sm_ppd sm"])

lemma same_map_ppd_set [intro, simp]: "same_map sm sm' \<Longrightarrow> same_map sm (ppd_set i v sm')"
  by (auto simp: same_map_def ppd_set_def option.map_comp comp_def
      intro!: exI [of _ "map_option (\<lambda>p. p[i := v]) (sm_ppd sm')"])

lemma readyE:
  assumes "picker_ready sm sz"
  obtains p t where "sm_ppd sm = Some p" "length p = 64" "sm_pp_root sm = Some t"
    "balanced t" "sorted_wrt (\<lambda>a b. metaslab_segsize_compare a b < 0) (inorder t)"
    "set (inorder t) = set (segs sm)"
    "\<forall>s\<in>set (segs sm). seg_ok (sm_unit sm) (sm_start sm) (sm_start sm + sm_size sm) s"
    "distinct (segs sm)" "segs_ok (sm_unit sm) (sm_start sm) (sm_start sm + sm_size sm) (segs sm)"
    "unat sz \<le> 2 ^ 17" "0 < unat sz"
proof -
  obtain p t where "sm_ppd sm = Some p" "length p = 64" "sm_pp_root sm = Some t"
    using assms by (auto simp: picker_ready_def split: option.splits)
  moreover have "unat SPA_MAXBLOCKSIZE = 2 ^ 17" by (simp add: SPA_MAXBLOCKSIZE_def)
  then have "unat sz \<le> 2 ^ 17" "0 < unat sz"
    using assms by (auto simp: picker_ready_def word_le_nat_alt unat_gt_0)
  moreover have "segs_ok (sm_unit sm) (sm_start sm) (sm_start sm + sm_size sm) (segs sm)"
    "pp_ok (sm_pp_root sm) (set (segs sm))"
    using assms by (auto simp: picker_ready_def sm_ok_def)
  ultimately show thesis
    using that [of p t] segs_ok_distinct by (auto simp: pp_ok_def segs_ok_def)
qed

lemma fits_allocatable:
  assumes "picker_ready sm sz" "s \<in> set (segs sm)" "fits s off sz'" "sz \<le> sz'"
    and "P2PHASE off (sm_unit sm) = 0"
  shows "allocatable sm off sz"
proof -
  have le: "unat sz \<le> unat sz'" using assms(4) by (simp add: word_le_nat_alt)
  have s: "ss_start s \<le> off" "unat off + unat sz \<le> unat (ss_end s)"
    using assms(3) le by (simp_all add: fits_def)
  have sz: "sz \<noteq> 0" using assms(1) by (simp add: picker_ready_def)
  have nw: "unat off + unat sz < 2 ^ 64" using s(2) unat_less_64 [of "ss_end s"] by simp
  have "fits s off sz" using s by (simp add: fits_def)
  then have "off \<noteq> - 1" using fits_minus_1 sz by blast
  moreover have "off + sz \<le> ss_end s"
    using no_wrap(2) [OF nw sz] s(2) by (simp add: word_le_nat_alt)
  then have "seg_set (seg_of off sz) \<subseteq> seg_set s" using s(1) by (auto simp: seg_set_def)
  then have "seg_set (seg_of off sz) \<subseteq> sm_set sm" using assms(2) by (auto simp: sm_set_def cover_def)
  ultimately show ?thesis using nw assms(5) by (simp add: allocatable_def)
qed

lemma allocatable_fits:
  assumes "picker_ready sm sz" "allocatable sm off sz"
  shows "\<exists>s\<in>set (segs sm). fits s off sz"
proof -
  have sz: "sz \<noteq> 0" using assms(1) by (simp add: picker_ready_def)
  have a: "unat off + unat sz < 2 ^ 64" "seg_set (seg_of off sz) \<subseteq> cover (segs sm)"
    using assms(2) by (auto simp: allocatable_def sm_set_def)
  have segs: "segs_ok (sm_unit sm) (sm_start sm) (sm_start sm + sm_size sm) (segs sm)"
    using assms(1) by (simp add: picker_ready_def sm_ok_def)
  have "ss_start (seg_of off sz) < ss_end (seg_of off sz)" using no_wrap(1) [OF a(1) sz] by simp
  from iffD1 [OF cover_contiguous [OF segs this] a(2)]
  show ?thesis using no_wrap(2) [OF a(1) sz] by (auto simp: fits_def word_le_nat_alt)
qed

lemma P2PHASE_mono:
  "P2PHASE (x :: 'a::len word) (2 ^ k) = 0 \<Longrightarrow> j \<le> k \<Longrightarrow> P2PHASE x (2 ^ j) = 0"
  unfolding P2PHASE_zero_iff by (meson dvd_trans le_imp_power_dvd min.mono order_refl)

lemma request_align:
  assumes "picker_ready sm sz"
  obtains k where "sz AND - sz = 2 ^ k" "k < 64" "2 ^ k \<le> unat sz" "unat (sm_shift sm) \<le> k"
    "cursor_index (2 ^ k) = Inr k"
proof -
  have sz: "sz \<noteq> 0" "P2PHASE sz (sm_unit sm) = 0"
    using assms by (auto simp: picker_ready_def)
  obtain k where k: "k < 64" "sz AND - sz = 2 ^ k" "P2PHASE sz (2 ^ k) = 0"
    using lowest_bit [OF sz(1)] by blast
  have "2 ^ k dvd unat sz" using k(1,3) by (simp add: P2PHASE_zero_iff min_def)
  then have "2 ^ k \<le> unat sz" using sz(1) by (simp add: dvd_imp_le unat_gt_0)
  moreover have "unat (sm_shift sm) \<le> k"
  proof (rule ccontr)
    assume "\<not> ?thesis"
    moreover have "bit sz k"
    proof -
      have "bit (sz AND - sz) k" using k(1,2) by (simp add: bit_exp_iff)
      then show ?thesis by (simp add: bit_and_iff)
    qed
    ultimately have "bit (take_bit (unat (sm_shift sm)) sz) k" by (simp add: bit_take_bit_iff)
    then show False using sz(2) by (simp add: P2PHASE_take_bit)
  qed
  ultimately show thesis
    using that k highbit_exp [OF k(1)] by (simp add: cursor_index_def)
qed

lemma ready_room:
  "picker_ready sm sz \<Longrightarrow> unat n \<le> 2 ^ 24 \<Longrightarrow>
    unat (sm_start sm + sm_size sm) + 2 * unat (n :: u64) \<le> 2 ^ 64"
  by (simp add: picker_ready_def)

text \<open>First fit: sound, aligned to the request, and it fails only when nothing fits.\<close>

lemma metaslab_ff_alloc_spec:
  assumes ready: "picker_ready sm sz"
  obtains off sm' where "metaslab_ff_alloc sm sz = Inr (off, sm')" "same_map sm sm'"
    "if off = - 1 then \<forall>o'. allocatable sm o' sz \<longrightarrow> P2PHASE o' (sz AND - sz) \<noteq> 0
     else allocatable sm off sz \<and> P2PHASE off (sz AND - sz) = 0"
proof -
  obtain p t where p: "sm_ppd sm = Some p" "length p = 64"
    and segs: "\<forall>s\<in>set (segs sm). seg_ok (sm_unit sm) (sm_start sm) (sm_start sm + sm_size sm) s"
      "distinct (segs sm)" "segs_ok (sm_unit sm) (sm_start sm) (sm_start sm + sm_size sm) (segs sm)"
    and sz: "unat sz \<le> 2 ^ 17" "0 < unat sz"
    using readyE [OF ready] by metis
  obtain k where k: "sz AND - sz = 2 ^ k" "k < 64" "2 ^ k \<le> unat sz" "unat (sm_shift sm) \<le> k"
    "cursor_index (2 ^ k) = Inr k"
    using request_align [OF ready] by blast
  obtain off c where b: "metaslab_block_picker space_map_seg_compare (sm_root sm) (p ! k) sz (2 ^ k) = (off, c)"
    by (metis prod.collapse)
  have room: "unat (sm_start sm + sm_size sm) + 2 * unat sz \<le> 2 ^ 64"
    by (rule ready_room [OF ready]) (use sz in simp)
  have "metaslab_ff_alloc sm sz = Inr (off, ppd_set k c sm)"
    using k p b by (simp add: metaslab_ff_alloc_def ppd_at_def)
  moreover have "same_map sm (ppd_set k c sm)" by simp
  moreover have "if off = - 1 then \<forall>o'. allocatable sm o' sz \<longrightarrow> P2PHASE o' (sz AND - sz) \<noteq> 0
     else allocatable sm off sz \<and> P2PHASE off (sz AND - sz) = 0"
    using b
  proof (cases rule: block_picker_cases)
    case (found start)
    then obtain s where s: "s \<in> set (segs sm)" "fits s off sz" "P2PHASE off (2 ^ k) = 0"
      using picker_search_sound [OF segs(2,1) k(2,3) room] by blast
    have "allocatable sm off sz"
      by (rule fits_allocatable [OF ready s(1,2) order_refl P2PHASE_mono [OF s(3) k(4)]])
    then show ?thesis using s(3) k(1) by (simp add: allocatable_def)
  next
    case none
    then have "\<forall>s\<in>set (segs sm). \<forall>o'. P2PHASE o' (2 ^ k) = 0 \<longrightarrow> \<not> fits s o' sz"
      using root_search_complete [OF segs(3) _ k(2) _ room] ready by (auto simp: picker_ready_def sm_ok_def)
    then show ?thesis
      using allocatable_fits [OF ready] k(1) none(2) by (auto, blast)
  qed
  ultimately show thesis by (rule that)
qed













subsection \<open>The allocator contract\<close>








subsection \<open>Loading the picker state\<close>

lemma fold_pp_add:
  assumes "pp_ok (Some t) S" "distinct xs" "set xs \<inter> S = {}"
  shows "pp_ok (Some (fold (tree_add metaslab_segsize_compare) xs t)) (set xs \<union> S)"
  using assms
proof (induction xs arbitrary: t S)
  case (Cons x xs)
  have "pp_ok (Some (tree_add metaslab_segsize_compare x t)) (insert x S)"
    using pp_add_ok [OF Cons.prems(1), of x] Cons.prems(3) by (simp add: pp_add_def)
  then show ?case using Cons.IH [of _ "insert x S"] Cons.prems(2,3) by auto
qed simp

lemma metaslab_pp_load_ok:
  assumes "sm_ok sm"
  shows "sm_ok (metaslab_pp_load sm)"
    and "sm_set (metaslab_pp_load sm) = sm_set sm"
    and "sm_ppd (metaslab_pp_load sm) = Some (replicate 64 0)" "sm_pp_root (metaslab_pp_load sm) \<noteq> None"
proof -
  have "segs_ok (sm_unit sm) (sm_start sm) (sm_start sm + sm_size sm) (segs sm)"
    using assms by (simp add: sm_ok_def)
  then have d: "distinct (segs sm)" by (rule segs_ok_distinct)
  have "pp_ok (Some Null) {}" by (simp add: pp_ok_def)
  from fold_pp_add [OF this d] show "sm_ok (metaslab_pp_load sm)"
    using assms by (simp add: metaslab_pp_load_def sm_ok_def tree_visit_first [OF d])
qed (simp_all add: metaslab_pp_load_def sm_set_def)

lemma space_map_unload_ok:
  assumes "sm_ok sm" "sm_pp_root sm = None \<or> sm_loaded sm \<and> sm_ops sm \<noteq> None"
  shows "sm_ok (space_map_unload sm)" "sm_set (space_map_unload sm) = {}"
    "sm_pp_root (space_map_unload sm) = None"
  using assms by (auto simp: space_map_unload_def sm_ok_def sm_set_def metaslab_pp_unload_def pp_ok_def)

subsection \<open>Properties\<close>

text \<open>A map of the examples after \<^verbatim>\<open>metaslab_pp_load()\<close>: one free segment of 0x600 bytes.\<close>

definition example_pick_map :: "space_map_ops \<Rightarrow> space_map" where
  "example_pick_map ops = metaslab_pp_load (example_seg_map\<lparr>sm_ops := Some ops\<rparr>)"

lemma example_pick_map_ready: "picker_ready (example_pick_map ops) 0x200"
proof -
  have ok: "sm_ok (example_seg_map\<lparr>sm_ops := Some ops\<rparr>)"
    using example_seg_map_ok(1) by (simp add: sm_ok_def)
  show ?thesis
    using metaslab_pp_load_ok [OF ok] example_seg_map_ok
    by (simp add: picker_ready_def example_pick_map_def SPA_MAXBLOCKSIZE_def P2PHASE_def)
      (simp add: metaslab_pp_load_def example_seg_map_ok)
qed




text \<open>
  (C20) First fit is complete for aligned blocks: \<^verbatim>\<open>metaslab_ff_alloc()\<close> reports failure only when no
  free block of that size begins at a multiple of the largest power of two that divides the size.
\<close>

theorem metaslab_ff_alloc_complete:
  assumes "picker_ready sm sz"
  shows "\<exists>off sm'. metaslab_ff_alloc sm sz = Inr (off, sm') \<and> same_map sm sm'
    \<and> (if off = - 1 then \<forall>o'. allocatable sm o' sz \<longrightarrow> P2PHASE o' (sz AND - sz) \<noteq> 0
       else allocatable sm off sz \<and> P2PHASE off (sz AND - sz) = 0)"
  by (rule metaslab_ff_alloc_spec [OF assms]) blast

theorem metaslab_ff_alloc_complete_witness:
  "\<exists>off sm'. metaslab_ff_alloc (example_pick_map Metaslab_ff_ops) 0x200 = Inr (off, sm')
    \<and> same_map (example_pick_map Metaslab_ff_ops) sm'"
  using metaslab_ff_alloc_complete [OF example_pick_map_ready, of Metaslab_ff_ops] by blast



text \<open>
  (C23) Best fit. On the size-ordered tree, from cursor 0 and without alignment, the picker returns the
  start of the first segment in size order that is large enough.
\<close>

theorem picker_best_fit:
  assumes "\<forall>s\<in>set (inorder t). seg_ok unit lo hi s"
    and "sorted_wrt (\<lambda>a b. metaslab_segsize_compare a b < 0) (inorder t)" and "unat hi + unat sz < 2 ^ 64"
  shows "metaslab_block_picker metaslab_segsize_compare t 0 sz 1 =
    (case find (\<lambda>s. unat sz \<le> seg_len s) (inorder t) of
       None \<Rightarrow> (- 1, 0) | Some s \<Rightarrow> (ss_start s, ss_start s + sz))"
  using size_search_best [OF assms] by (simp add: block_picker_searches split: option.split)

theorem picker_best_fit_witness:
  "metaslab_block_picker metaslab_segsize_compare
      (Node Null \<lparr>ss_start = 0x4000, ss_end = 0x4200\<rparr> 1 (Node Null \<lparr>ss_start = 0x1000, ss_end = 0x1600\<rparr> 0 Null)) 0 0x400 1
    = (0x1000, 0x1400)"
  using picker_best_fit [of "Node Null \<lparr>ss_start = 0x4000, ss_end = 0x4200\<rparr> 1 (Node Null \<lparr>ss_start = 0x1000, ss_end = 0x1600\<rparr> 0 Null)"
      "0x200" 0 "0x8000" "0x400"]
  by (simp add: seg_ok_def metaslab_segsize_compare_def seg_len_def P2PHASE_def)

end
