(* ===== verification/Space_Log.thy ===== *)
theory Space_Log
  imports Block_Picker
begin

text \<open>
  The on-disk form of a space map (\<^verbatim>\<open>space_map_load()\<close>, \<^verbatim>\<open>space_map_sync()\<close> and
  \<^verbatim>\<open>space_map_truncate()\<close> of \<^verbatim>\<open>lib/libzpool/space_map.c\<close>): a log of 64-bit entries, each an
  allocation or a free of a run of units. The object layer is a parameter: a sync returns the
  list of its writes, a load reads through a given function.
\<close>

definition SM_RUN_DECODE :: "u64 \<Rightarrow> u64" where
  "SM_RUN_DECODE x = BF64_DECODE x 0 15 + 1"

definition SM_RUN_ENCODE :: "u64 \<Rightarrow> u64" where
  "SM_RUN_ENCODE x = BF64_ENCODE (x - 1) 0 15"

definition SM_TYPE_DECODE :: "u64 \<Rightarrow> u64" where
  "SM_TYPE_DECODE x = BF64_DECODE x 15 1"

definition SM_TYPE_ENCODE :: "u64 \<Rightarrow> u64" where
  "SM_TYPE_ENCODE x = BF64_ENCODE x 15 1"

definition SM_OFFSET_DECODE :: "u64 \<Rightarrow> u64" where
  "SM_OFFSET_DECODE x = BF64_DECODE x 16 47"

definition SM_OFFSET_ENCODE :: "u64 \<Rightarrow> u64" where
  "SM_OFFSET_ENCODE x = BF64_ENCODE x 16 47"

definition SM_DEBUG_DECODE :: "u64 \<Rightarrow> u64" where
  "SM_DEBUG_DECODE x = BF64_DECODE x 63 1"





definition SM_RUN_MAX :: u64 where
  "SM_RUN_MAX = SM_RUN_DECODE (NOT 0)"

definition SM_ALLOC :: u64 where
  "SM_ALLOC = 0"

definition SM_FREE :: u64 where
  "SM_FREE = 1"

record space_map_obj =
  smo_object :: u64
  smo_objsize :: u64
  smo_alloc :: u64

subsection \<open>Sync\<close>



text \<open>The inner loop: one segment in runs of at most \<^verbatim>\<open>SM_RUN_MAX\<close> units; \<open>cap\<close> is the buffer size in entries.\<close>

lemma SM_RUN_MAX_eq: "SM_RUN_MAX = 2 ^ 15"
  by (simp add: SM_RUN_MAX_def SM_RUN_DECODE_def BF64_DECODE_def P2PHASE_def)







subsection \<open>Load\<close>

definition load_entry :: "bool \<Rightarrow> u64 \<Rightarrow> u64 \<Rightarrow> space_map outcome \<Rightarrow> space_map outcome" where
  "load_entry zfs_recover maptype e m =
     bind_outcome m (\<lambda>sm.
       if SM_DEBUG_DECODE e \<noteq> 0 then Inr sm
       else (if SM_TYPE_DECODE e = maptype then space_map_add else space_map_remove) zfs_recover sm
              (push_bit (unat (sm_shift sm)) (SM_OFFSET_DECODE e) + sm_start sm)
              (push_bit (unat (sm_shift sm)) (SM_RUN_DECODE e)))"

text \<open>
  The reading loop. \<open>dmu_read offset size\<close> gives the words of that byte range, or an error.
  The offset wraps around for an object that ends in the last block of the address space, so the
  loop is a partial function: \<open>None\<close> is for not returning. The integer of the result is the
  error that stopped the loop, 0 for none.
\<close>

partial_function (option) load_blocks ::
  "bool \<Rightarrow> u64 \<Rightarrow> (u64 \<Rightarrow> u64 \<Rightarrow> int + u64 list) \<Rightarrow> u64 \<Rightarrow> u64 \<Rightarrow> space_map
    \<Rightarrow> (space_map \<times> int) outcome option" where
  "load_blocks zfs_recover maptype dmu_read fin offset sm =
     (if \<not> offset < fin then Some (Inr (sm, 0))
      else
        let bufsize = push_bit 12 1; sz = min (fin - offset) bufsize
        in if P2PHASE sz 8 \<noteq> 0 then Some (Inl Verify_failed)
           else
             case dmu_read offset sz of
               Inl e \<Rightarrow> Some (Inr (sm, e))
             | Inr entries \<Rightarrow>
                 case fold (load_entry zfs_recover maptype) entries (Inr sm) of
                   Inl p \<Rightarrow> Some (Inl p)
                 | Inr sm' \<Rightarrow> load_blocks zfs_recover maptype dmu_read fin (offset + bufsize) sm')"

definition load_finish ::
  "space_map_ops option \<Rightarrow> u64 \<Rightarrow> (space_map \<times> int) outcome \<Rightarrow> (space_map \<times> int) outcome" where
  "load_finish ops space m =
     bind_outcome m (\<lambda>(sm, error).
       bind_outcome
         (if error = 0
          then verify (sm_space sm = space)
                 (let sm = sm\<lparr>sm_loaded := True, sm_ops := ops\<rparr>
                  in Inr (if ops \<noteq> None then metaslab_pp_load sm else sm))
          else Inr (sm_vacated sm))
         (\<lambda>sm. Inr (sm\<lparr>sm_loading := False\<rparr>, error)))"

definition space_map_load ::
  "bool \<Rightarrow> (u64 \<Rightarrow> u64 \<Rightarrow> int + u64 list) \<Rightarrow> space_map \<Rightarrow> space_map_ops option \<Rightarrow> u64 \<Rightarrow> space_map_obj
    \<Rightarrow> (space_map \<times> int) outcome option" where
  "space_map_load zfs_recover dmu_read sm ops maptype smo =
    (let sm = sm\<lparr>sm_loading := True\<rparr>; fin = smo_objsize smo; space = smo_alloc smo
     in if sm_space sm \<noteq> 0 then Some (Inl Verify_failed)
        else
          case (if maptype = SM_FREE then space_map_add zfs_recover sm (sm_start sm) (sm_size sm)
                else Inr sm) of
            Inl p \<Rightarrow> Some (Inl p)
          | Inr sm \<Rightarrow>
              let space = (if maptype = SM_FREE then sm_size sm - space else space)
              in map_option (load_finish ops space)
                   (load_blocks zfs_recover maptype dmu_read fin 0 sm))"

subsection \<open>Entries\<close>

definition log_entry :: "u64 \<Rightarrow> u64 \<Rightarrow> u64 \<Rightarrow> u64" where
  "log_entry maptype start run_len =
     SM_OFFSET_ENCODE start OR SM_TYPE_ENCODE maptype OR SM_RUN_ENCODE run_len"

lemma field_same:
  "low + len \<le> 64 \<Longrightarrow> take_bit len (drop_bit low (push_bit low (take_bit len v))) = take_bit len (v :: u64)"
  by (intro bit_word_eqI) (auto simp: bit_simps)

lemma field_other:
  "low + len \<le> low' \<or> low' + len' \<le> low \<Longrightarrow>
    take_bit len' (drop_bit low' (push_bit low (take_bit len v))) = (0 :: u64)"
  by (intro bit_word_eqI) (auto simp: bit_simps)

lemma take_bit_small: "unat (x :: u64) < 2 ^ n \<Longrightarrow> take_bit n x = x"
  by (rule word_unat_eq_iff [THEN iffD2]) (simp only: unsigned_take_bit_eq take_bit_nat_eq_self)

lemma log_entry_decode:
  assumes "unat start < 2 ^ 47" "maptype \<in> {SM_ALLOC, SM_FREE}" "0 < run_len" "run_len \<le> SM_RUN_MAX"
  shows "SM_DEBUG_DECODE (log_entry maptype start run_len) = 0"
    "SM_TYPE_DECODE (log_entry maptype start run_len) = maptype"
    "SM_OFFSET_DECODE (log_entry maptype start run_len) = start"
    "SM_RUN_DECODE (log_entry maptype start run_len) = run_len"
proof -
  have s: "take_bit 47 start = start" by (rule take_bit_small [OF assms(1)])
  have t: "take_bit 1 maptype = maptype" using assms(2) by (auto simp: SM_ALLOC_def SM_FREE_def)
  have "unat run_len \<le> 2 ^ 15" "0 < unat run_len"
    using assms(3,4) by (simp_all add: SM_RUN_MAX_eq word_le_nat_alt word_less_nat_alt)
  then have "unat (run_len - 1) < 2 ^ 15" using assms(3) by (simp add: unat_minus_one word_gt_0)
  then have r: "take_bit 15 (run_len - 1) = run_len - 1" by (rule take_bit_small)
  note defs = SM_OFFSET_ENCODE_def SM_TYPE_ENCODE_def SM_RUN_ENCODE_def log_entry_def
    BF64_ENCODE_take_bit BF64_DECODE_take_bit drop_bit_or take_bit_or
  show "SM_DEBUG_DECODE (log_entry maptype start run_len) = 0"
    unfolding SM_DEBUG_DECODE_def defs by (subst field_other, simp)+ (simp only: or.left_neutral)
  show "SM_TYPE_DECODE (log_entry maptype start run_len) = maptype"
    unfolding SM_TYPE_DECODE_def defs using t
    by (subst field_other, simp, subst field_same, simp, subst field_other, simp) (simp only: or.left_neutral or.right_neutral)
  show "SM_OFFSET_DECODE (log_entry maptype start run_len) = start"
    unfolding SM_OFFSET_DECODE_def defs using s
    by (subst field_same, simp, (subst field_other, simp)+) (simp only: or.right_neutral)
  show "SM_RUN_DECODE (log_entry maptype start run_len) = run_len"
    unfolding SM_RUN_DECODE_def defs using r
      field_other [of 16 47 0 15 start] field_other [of 15 1 0 15 maptype] field_same [of 0 15 "run_len - 1"]
    by simp
qed





definition written :: "(u64 \<times> u64 list) list \<Rightarrow> u64 list" where
  "written ws = concat (map snd ws)"


lemma written_simps [simp]: "written [] = []" "written ((off, ws) # rest) = ws @ written rest"
    "written (xs @ ys) = written xs @ written ys"
  by (simp_all add: written_def)







subsection \<open>Replaying entries\<close>

definition geom_ok :: "space_map \<Rightarrow> bool" where
  "geom_ok m \<longleftrightarrow>
     sm_ok m \<and> unat (sm_shift m) < 64 \<and> P2PHASE (sm_start m) (sm_unit m) = 0
     \<and> unat (sm_size m) \<le> 2 ^ 47 * 2 ^ unat (sm_shift m)"

definition same_geom :: "space_map \<Rightarrow> space_map \<Rightarrow> bool" where
  "same_geom m m' \<longleftrightarrow>
     m' = m\<lparr>sm_root := sm_root m', sm_pp_root := sm_pp_root m', sm_space := sm_space m'\<rparr>"

lemma same_geom_fields:
  assumes "same_geom m m'"
  shows "sm_start m' = sm_start m" "sm_size m' = sm_size m" "sm_shift m' = sm_shift m"
    "sm_loaded m' = sm_loaded m" "sm_loading m' = sm_loading m" "sm_ops m' = sm_ops m" "sm_ppd m' = sm_ppd m"
  by (subst assms [unfolded same_geom_def], simp)+

lemma same_geom_refl [simp]: "same_geom m m"
  by (simp add: same_geom_def)


lemma same_geom_ok: "geom_ok m \<Longrightarrow> same_geom m m' \<Longrightarrow> sm_ok m' \<Longrightarrow> geom_ok m'"
  by (simp add: geom_ok_def same_geom_fields)



















subsection \<open>What a sync writes\<close>



lemma cover_postorder [simp]: "cover (postorder t) = cover (inorder t)"
  by (simp add: cover_def)




subsection \<open>Reading a log back\<close>




lemma sm_space_card:
  assumes "sm_ok m"
  shows "unat (sm_space m) = card (sm_set m)"
  using assms card_cover by (auto simp: sm_ok_def sm_set_def)

definition map_range :: "space_map \<Rightarrow> u64 set" where
  "map_range m = {sm_start m..<sm_start m + sm_size m}"


lemma load_start:
  assumes g: "geom_ok m" and e: "sm_set m = {}" and sz: "sm_size m \<noteq> 0" "P2PHASE (sm_size m) (sm_unit m) = 0"
  shows "\<exists>m'. space_map_add rec m (sm_start m) (sm_size m) = Inr m' \<and> geom_ok m' \<and> same_geom m m'
    \<and> sm_set m' = map_range m"
proof -
  have ok: "sm_ok m" "unat (sm_start m) + unat (sm_size m) < 2 ^ 64" "P2PHASE (sm_start m) (sm_unit m) = 0"
    using g by (auto simp: geom_ok_def sm_ok_def)
  show ?thesis
    using space_map_add_effect [OF ok(1) sz(1) ok(2) order_refl order_refl ok(3) sz(2), of rec] e same_geom_ok [OF g]
    by (auto simp: same_geom_def map_range_def seg_set_def)
qed


lemma loading_simps [simp]:
  "sm_set (m\<lparr>sm_loading := b\<rparr>) = sm_set m" "map_range (m\<lparr>sm_loading := b\<rparr>) = map_range m"
  "geom_ok (m\<lparr>sm_loading := b\<rparr>) = geom_ok m"
  by (simp_all add: sm_set_def map_range_def geom_ok_def sm_ok_def)




subsection \<open>Properties\<close>



lemma example_geom: "geom_ok example_map" "geom_ok example_seg_map" "sm_shift example_map = sm_shift example_seg_map"
    "sm_start example_map = sm_start example_seg_map" "sm_size example_map = sm_size example_seg_map"
    "length (segs example_seg_map) = 1"
  using example_map_ok example_seg_map_ok
  by (simp_all add: geom_ok_def P2PHASE_def) (simp add: example_seg_map_def)




text \<open>
  The entries of the log. An entry is written as offset, type and run length in one word, and
  decodes to what was written, with the debug bit clear; runs go up to \<^verbatim>\<open>SM_RUN_MAX\<close>.
\<close>

lemma log_entry_roundtrip:
  assumes "unat start < 2 ^ 47" and "maptype \<in> {SM_ALLOC, SM_FREE}" and "0 < run_len" and "run_len \<le> SM_RUN_MAX"
  shows "let e = SM_OFFSET_ENCODE start OR SM_TYPE_ENCODE maptype OR SM_RUN_ENCODE run_len
    in SM_DEBUG_DECODE e = 0 \<and> SM_TYPE_DECODE e = maptype \<and> SM_OFFSET_DECODE e = start \<and> SM_RUN_DECODE e = run_len"
  using log_entry_decode [OF assms] by (simp add: Let_def log_entry_def)

lemma log_entry_roundtrip_witness:
  "SM_OFFSET_DECODE (SM_OFFSET_ENCODE 0x123 OR SM_TYPE_ENCODE SM_FREE OR SM_RUN_ENCODE 0x8000) = 0x123"
  using log_entry_roundtrip [of "0x123" SM_FREE "0x8000"] by (simp add: SM_RUN_MAX_eq Let_def)

text \<open>
  (C32) A read error. When the store fails on the first block, \<^verbatim>\<open>space_map_load()\<close> returns that error and
  leaves an empty, unloaded map behind, whatever it was going to load.
\<close>

theorem space_map_load_read_error:
  assumes "geom_ok m" and "sm_set m = {}" and "sm_size m \<noteq> 0" and "P2PHASE (sm_size m) (sm_unit m) = 0"
    and "\<not> sm_loaded m" and "smo_objsize smo \<noteq> 0" and "P2PHASE (smo_objsize smo) 8 = 0"
    and "\<forall>sz. dmu_read 0 sz = Inl e" and "e \<noteq> 0"
  shows "\<exists>m'. space_map_load rec dmu_read m ops maptype smo = Some (Inr (m', e))
    \<and> sm_set m' = {} \<and> sm_space m' = 0 \<and> \<not> sm_loaded m' \<and> \<not> sm_loading m'"
proof -
  let ?m = "m\<lparr>sm_loading := True\<rparr>"
  have z: "sm_space ?m = 0"
    using sm_space_card [of m] assms(1,2) by (simp add: geom_ok_def unat_eq_0)
  have g: "geom_ok ?m" "sm_set ?m = {}" "sm_size ?m \<noteq> 0" "P2PHASE (sm_size ?m) (sm_unit ?m) = 0"
    using assms(1-4) by simp_all
  obtain m0 where m0: "(if maptype = SM_FREE then space_map_add rec ?m (sm_start ?m) (sm_size ?m) else Inr ?m) = Inr m0"
    "same_geom ?m m0"
    using load_start [OF g, of rec] g(1) by (cases "maptype = SM_FREE") auto
  have "P2PHASE (min (smo_objsize smo) (push_bit 12 1)) 8 = 0"
    using assms(7) by (simp add: min_def P2PHASE_def)
  then have lb: "load_blocks rec maptype dmu_read (smo_objsize smo) 0 m0 = Some (Inr (m0, e))"
    using assms(6,8) by (subst load_blocks.simps) (simp add: Let_def word_gt_0)
  have unl: "\<not> sm_loaded m0" using same_geom_fields(4) [OF m0(2)] assms(5) by simp
  have "space_map_load rec dmu_read m ops maptype smo = Some (Inr ((sm_vacated m0)\<lparr>sm_loading := False\<rparr>, e))"
    unfolding space_map_load_def Let_def using z m0(1) lb assms(9)
    by (cases "maptype = SM_FREE") (auto simp: load_finish_def)
  then show ?thesis
    using unl by (simp add: sm_set_def)
qed

theorem space_map_load_read_error_witness:
  "\<exists>m'. space_map_load False (\<lambda>off sz. Inl 5) example_map None SM_FREE
      \<lparr>smo_object = 1, smo_objsize = 16, smo_alloc = 0x600\<rparr> = Some (Inr (m', 5)) \<and> sm_set m' = {}"
proof -
  have "\<not> sm_loaded example_map" "P2PHASE (sm_size example_map) (sm_unit example_map) = 0"
    using example_map_ok by (simp_all add: P2PHASE_def) (simp add: example_map_def space_map_create_def)
  then show ?thesis
    using space_map_load_read_error [OF example_geom(1) example_map_ok(2), of "\<lparr>smo_object = 1, smo_objsize = 16, smo_alloc = 0x600\<rparr>"
        "\<lambda>off sz. Inl 5" 5 False None SM_FREE] example_map_ok
    by (auto simp: P2PHASE_def)
qed

end
