(* ===== verification/Namecheck.thy ===== *)
theory Namecheck
  imports ZPrelude
begin

text \<open>
  The name rules of \<^verbatim>\<open>lib/libzfscommon/zfs_namecheck.c\<close>. A C string is a list of characters
  without its terminating NUL; reading at its end gives NUL. A check answers \<open>Inr ()\<close>, or the
  reason with the offending character where the code reports one.
\<close>

datatype namecheck_err =
    NAME_ERR_LEADING_SLASH
  | NAME_ERR_EMPTY_COMPONENT
  | NAME_ERR_TRAILING_SLASH
  | NAME_ERR_INVALCHAR
  | NAME_ERR_MULTIPLE_AT
  | NAME_ERR_NOLETTER
  | NAME_ERR_RESERVED
  | NAME_ERR_DISKLIKE
  | NAME_ERR_TOOLONG
  | NAME_ERR_NO_AT

type_synonym namecheck = "(namecheck_err \<times> char option) + unit"

definition MAXNAMELEN :: nat where
  "MAXNAMELEN = 256"

definition ZFS_PERMSET_MAXLEN :: nat where
  "ZFS_PERMSET_MAXLEN = 64"

definition NUL :: char where
  "NUL = CHR 0x00"

definition char_at :: "string \<Rightarrow> nat \<Rightarrow> char" where
  "char_at s i = (if i < length s then s ! i else NUL)"

definition in_range :: "char \<Rightarrow> char \<Rightarrow> char \<Rightarrow> bool" where
  "in_range lo hi c \<longleftrightarrow> (of_char lo :: nat) \<le> of_char c \<and> (of_char c :: nat) \<le> of_char hi"

definition valid_char :: "char \<Rightarrow> bool" where
  "valid_char c \<longleftrightarrow>
     in_range CHR ''a'' CHR ''z'' c \<or> in_range CHR ''A'' CHR ''Z'' c \<or> in_range CHR ''0'' CHR ''9'' c
     \<or> c = CHR ''-'' \<or> c = CHR ''_'' \<or> c = CHR ''.'' \<or> c = CHR '':'' \<or> c = CHR '' ''"

definition snapshot_namecheck :: "string \<Rightarrow> namecheck" where
  "snapshot_namecheck path =
     (if MAXNAMELEN \<le> length path then Inl (NAME_ERR_TOOLONG, None)
      else if char_at path 0 = NUL then Inl (NAME_ERR_EMPTY_COMPONENT, None)
      else case find (\<lambda>c. \<not> valid_char c) path of
          Some c \<Rightarrow> Inl (NAME_ERR_INVALCHAR, Some c)
        | None \<Rightarrow> Inr ())"

definition permset_namecheck :: "string \<Rightarrow> namecheck" where
  "permset_namecheck path =
     (if ZFS_PERMSET_MAXLEN \<le> length path then Inl (NAME_ERR_TOOLONG, None)
      else if char_at path 0 \<noteq> CHR ''@'' then Inl (NAME_ERR_NO_AT, Some (char_at path 0))
      else snapshot_namecheck (tl path))"

text \<open>
  The loop of \<^verbatim>\<open>dataset_namecheck()\<close>: \<open>loc\<close> is the rest of the path, \<open>prev\<close> the separator
  before it, which is what \<^verbatim>\<open>end[-1]\<close> reads when the component is empty.
\<close>

function dataset_loop :: "char \<Rightarrow> bool \<Rightarrow> string \<Rightarrow> namecheck" where
  "dataset_loop prev found_snapshot loc =
    (let part = takeWhile (\<lambda>c. c \<noteq> CHR ''/'' \<and> c \<noteq> CHR ''@'') loc;
         rest = dropWhile (\<lambda>c. c \<noteq> CHR ''/'' \<and> c \<noteq> CHR ''@'') loc;
         before = (if part = [] then prev else last part)
     in if rest = [] \<and> before = CHR ''/'' then Inl (NAME_ERR_TRAILING_SLASH, None)
        else if part = []
        then (if rest \<noteq> [] \<and> hd rest = CHR ''@'' \<and> found_snapshot
              then Inl (NAME_ERR_MULTIPLE_AT, None) else Inl (NAME_ERR_EMPTY_COMPONENT, None))
        else case find (\<lambda>c. \<not> valid_char c \<and> c \<noteq> CHR ''%'') part of
          Some c \<Rightarrow> Inl (NAME_ERR_INVALCHAR, Some c)
        | None \<Rightarrow>
            case rest of
              [] \<Rightarrow> Inr ()
            | sep # loc' \<Rightarrow>
                if sep = CHR ''@''
                then (if found_snapshot then Inl (NAME_ERR_MULTIPLE_AT, None)
                      else dataset_loop sep True loc')
                else if found_snapshot then Inl (NAME_ERR_TRAILING_SLASH, None)
                else dataset_loop sep found_snapshot loc')"
  by pat_completeness auto
termination
proof (relation "measure (\<lambda>(prev, found, loc). length loc)", goal_cases)
  case (2 prev found loc part rest before sep loc')
  then have "length (sep # loc') \<le> length loc" by (metis length_dropWhile_le)
  then show ?case by simp
next
  case (3 prev found loc part rest before sep loc')
  then have "length (sep # loc') \<le> length loc" by (metis length_dropWhile_le)
  then show ?case by simp
qed simp

declare dataset_loop.simps [simp del]

definition dataset_namecheck :: "string \<Rightarrow> namecheck" where
  "dataset_namecheck path =
     (if MAXNAMELEN \<le> length path then Inl (NAME_ERR_TOOLONG, None)
      else if char_at path 0 = CHR ''/'' then Inl (NAME_ERR_LEADING_SLASH, None)
      else if char_at path 0 = NUL then Inl (NAME_ERR_EMPTY_COMPONENT, None)
      else dataset_loop NUL False path)"

function mountpoint_loop :: "string \<Rightarrow> namecheck" where
  "mountpoint_loop start =
    (let part = takeWhile (\<lambda>c. c \<noteq> CHR ''/'') start; rest = dropWhile (\<lambda>c. c \<noteq> CHR ''/'') start
     in if MAXNAMELEN \<le> length part then Inl (NAME_ERR_TOOLONG, None)
        else case rest of [] \<Rightarrow> Inr () | sep # start' \<Rightarrow> mountpoint_loop start')"
  by pat_completeness auto
termination
proof (relation "measure length", goal_cases)
  case (2 start part rest sep start')
  then have "length (sep # start') \<le> length start" by (metis length_dropWhile_le)
  then show ?case by simp
qed simp

declare mountpoint_loop.simps [simp del]

definition mountpoint_namecheck :: "string option \<Rightarrow> namecheck" where
  "mountpoint_namecheck path =
     (case path of
        None \<Rightarrow> Inl (NAME_ERR_LEADING_SLASH, None)
      | Some p \<Rightarrow>
          if char_at p 0 \<noteq> CHR ''/'' then Inl (NAME_ERR_LEADING_SLASH, None)
          else mountpoint_loop (tl p))"

definition strncmp_eq :: "string \<Rightarrow> string \<Rightarrow> nat \<Rightarrow> bool" where
  "strncmp_eq s t n \<longleftrightarrow> take n s = take n t"

definition pool_namecheck :: "string \<Rightarrow> namecheck" where
  "pool_namecheck pool =
     (if MAXNAMELEN \<le> length pool then Inl (NAME_ERR_TOOLONG, None)
      else case find (\<lambda>c. \<not> valid_char c) pool of
        Some c \<Rightarrow> Inl (NAME_ERR_INVALCHAR, Some c)
      | None \<Rightarrow>
          if \<not> in_range CHR ''a'' CHR ''z'' (char_at pool 0) \<and> \<not> in_range CHR ''A'' CHR ''Z'' (char_at pool 0)
          then Inl (NAME_ERR_NOLETTER, None)
          else if strncmp_eq pool ''mirror'' 6 \<or> strncmp_eq pool ''raidz'' 5
               \<or> strncmp_eq pool ''spare'' 5 \<or> strncmp_eq pool ''log'' 3
          then Inl (NAME_ERR_RESERVED, None)
          else if char_at pool 0 = CHR ''c'' \<and> in_range CHR ''0'' CHR ''9'' (char_at pool 1)
          then Inl (NAME_ERR_DISKLIKE, None)
          else Inr ())"

subsection \<open>The grammar of dataset names\<close>

definition component :: "string \<Rightarrow> bool" where
  "component c \<longleftrightarrow> c \<noteq> [] \<and> (\<forall>x\<in>set c. valid_char x \<or> x = CHR ''%'')"

inductive dataset_name :: "string \<Rightarrow> bool" where
  plain: "component c \<Longrightarrow> dataset_name c"
| snapshot: "component c \<Longrightarrow> component s \<Longrightarrow> dataset_name (c @ CHR ''@'' # s)"
| child: "component c \<Longrightarrow> dataset_name p \<Longrightarrow> dataset_name (c @ CHR ''/'' # p)"

lemma valid_char_sep [simp]:
  "\<not> valid_char CHR ''/''" "\<not> valid_char CHR ''@''" "\<not> valid_char NUL" "\<not> valid_char CHR ''%''"
  by (simp_all add: valid_char_def in_range_def NUL_def)

lemma component_no_sep: "component c \<Longrightarrow> x \<in> set c \<Longrightarrow> x \<noteq> CHR ''/'' \<and> x \<noteq> CHR ''@''"
  by (auto simp: component_def)

lemma component_split:
  assumes "component c"
  shows "takeWhile (\<lambda>c. c \<noteq> CHR ''/'' \<and> c \<noteq> CHR ''@'') (c @ rest) =
      c @ takeWhile (\<lambda>c. c \<noteq> CHR ''/'' \<and> c \<noteq> CHR ''@'') rest"
    and "dropWhile (\<lambda>c. c \<noteq> CHR ''/'' \<and> c \<noteq> CHR ''@'') (c @ rest) =
      dropWhile (\<lambda>c. c \<noteq> CHR ''/'' \<and> c \<noteq> CHR ''@'') rest"
  using component_no_sep [OF assms] by (auto simp: takeWhile_append2 dropWhile_append2)

lemma component_whole:
  assumes "component c"
  shows "takeWhile (\<lambda>c. c \<noteq> CHR ''/'' \<and> c \<noteq> CHR ''@'') c = c"
    and "dropWhile (\<lambda>c. c \<noteq> CHR ''/'' \<and> c \<noteq> CHR ''@'') c = []"
  using component_split [OF assms, of "[]"] by simp_all

lemma find_component:
  "find (\<lambda>c. \<not> valid_char c \<and> c \<noteq> CHR ''%'') c = None \<longleftrightarrow> (\<forall>x\<in>set c. valid_char x \<or> x = CHR ''%'')"
  by (auto simp: find_None_iff)

text \<open>The name read left to right: a component, then the end, a snapshot, or a child.\<close>

lemma dataset_name_iff:
  fixes p :: string
  defines "part \<equiv> takeWhile (\<lambda>c. c \<noteq> CHR ''/'' \<and> c \<noteq> CHR ''@'') p"
    and "rest \<equiv> dropWhile (\<lambda>c. c \<noteq> CHR ''/'' \<and> c \<noteq> CHR ''@'') p"
  shows "dataset_name p \<longleftrightarrow>
    component part \<and> (case rest of [] \<Rightarrow> True | sep # p' \<Rightarrow>
      if sep = CHR ''@'' then component p' else dataset_name p')"
proof
  assume "dataset_name p"
  then show "component part \<and> (case rest of [] \<Rightarrow> True | sep # p' \<Rightarrow>
      if sep = CHR ''@'' then component p' else dataset_name p')"
    unfolding part_def rest_def by cases (simp_all add: component_split component_whole)
next
  assume r: "component part \<and> (case rest of [] \<Rightarrow> True | sep # p' \<Rightarrow>
      if sep = CHR ''@'' then component p' else dataset_name p')"
  have p: "p = part @ rest" by (simp add: part_def rest_def)
  show "dataset_name p"
  proof (cases rest)
    case Nil
    then show ?thesis using r p by (auto intro: dataset_name.intros)
  next
    case (Cons sep p')
    then have "sep = CHR ''/'' \<or> sep = CHR ''@''"
      using hd_dropWhile [of "\<lambda>c. c \<noteq> CHR ''/'' \<and> c \<noteq> CHR ''@''" p] by (auto simp: rest_def)
    then show ?thesis using r p Cons by (auto intro: dataset_name.intros)
  qed
qed

lemma component_iff:
  "component p \<longleftrightarrow>
     component (takeWhile (\<lambda>c. c \<noteq> CHR ''/'' \<and> c \<noteq> CHR ''@'') p)
     \<and> dropWhile (\<lambda>c. c \<noteq> CHR ''/'' \<and> c \<noteq> CHR ''@'') p = []"
proof
  assume c: "component (takeWhile (\<lambda>c. c \<noteq> CHR ''/'' \<and> c \<noteq> CHR ''@'') p)
     \<and> dropWhile (\<lambda>c. c \<noteq> CHR ''/'' \<and> c \<noteq> CHR ''@'') p = []"
  then have "takeWhile (\<lambda>c. c \<noteq> CHR ''/'' \<and> c \<noteq> CHR ''@'') p = p"
    by (simp add: takeWhile_eq_all_conv)
  with c show "component p" by simp
qed (simp add: component_whole)

lemma dataset_loop_accepts:
  "dataset_loop prev found loc = Inr () \<longleftrightarrow> (if found then component loc else dataset_name loc)"
proof (induction prev found loc rule: dataset_loop.induct)
  case (1 prev found loc)
  let ?P = "\<lambda>c. c \<noteq> CHR ''/'' \<and> c \<noteq> CHR ''@''"
  obtain part rest where pr: "takeWhile ?P loc = part" "dropWhile ?P loc = rest" by blast
  have noslash: "part \<noteq> [] \<Longrightarrow> last part \<noteq> CHR ''/''"
    using pr(1) set_takeWhileD [of "last part" ?P loc] last_in_set [of part] by blast
  note iff = dataset_name_iff [of loc, unfolded pr] component_iff [of loc, unfolded pr]
  show ?case
  proof (cases "component part")
    case False
    then have "dataset_loop prev found loc \<noteq> Inr ()"
      by (subst dataset_loop.simps)
        (auto simp: pr Let_def component_def find_component [symmetric] split: option.split)
    then show ?thesis using False iff by simp
  next
    case True
    then have ok: "part \<noteq> []" "find (\<lambda>c. \<not> valid_char c \<and> c \<noteq> CHR ''%'') part = None"
      by (auto simp: component_def find_component)
    have step: "dataset_loop prev found loc =
        (case rest of
              [] \<Rightarrow> Inr ()
            | sep # loc' \<Rightarrow>
                if sep = CHR ''@''
                then (if found then Inl (NAME_ERR_MULTIPLE_AT, None) else dataset_loop sep True loc')
                else if found then Inl (NAME_ERR_TRAILING_SLASH, None) else dataset_loop sep found loc')"
      using ok noslash by (subst dataset_loop.simps) (simp add: pr Let_def)
    show ?thesis
    proof (cases rest)
      case Nil
      then show ?thesis using step iff True by simp
    next
      case (Cons sep loc')
      have "dataset_loop sep True loc' = Inr () \<longleftrightarrow> component loc'" if "sep = CHR ''@''" "\<not> found"
        using 1(1) [OF pr(1) [symmetric] pr(2) [symmetric] refl _ ok(1,2) Cons that] ok noslash by simp
      moreover have "dataset_loop sep found loc' = Inr () \<longleftrightarrow> dataset_name loc'" if "sep \<noteq> CHR ''@''" "\<not> found"
        using 1(2) [OF pr(1) [symmetric] pr(2) [symmetric] refl _ ok(1,2) Cons that] ok noslash that by simp
      ultimately show ?thesis using step iff True Cons by (cases found) auto
    qed
  qed
qed

subsection \<open>Mountpoints\<close>

lemma mountpoint_loop_accepts:
  "mountpoint_loop p = Inr () \<longleftrightarrow>
     (\<forall>u c v. p = u @ c @ v \<longrightarrow> CHR ''/'' \<notin> set c \<longrightarrow> length c < MAXNAMELEN)"
proof (induction p rule: mountpoint_loop.induct)
  case (1 p)
  let ?P = "\<lambda>c. c \<noteq> CHR ''/''"
  obtain part rest where pr: "takeWhile ?P p = part" "dropWhile ?P p = rest" by blast
  have p: "p = part @ rest" by (simp flip: pr)
  have part: "CHR ''/'' \<notin> set part" using pr(1) set_takeWhileD by metis
  have step: "mountpoint_loop p =
      (if MAXNAMELEN \<le> length part then Inl (NAME_ERR_TOOLONG, None)
       else case rest of [] \<Rightarrow> Inr () | sep # q \<Rightarrow> mountpoint_loop q)"
    by (subst mountpoint_loop.simps) (simp add: pr)
  show ?case
  proof (cases "MAXNAMELEN \<le> length part")
    case True
    then have "\<exists>u c v. p = u @ c @ v \<and> CHR ''/'' \<notin> set c \<and> MAXNAMELEN \<le> length c"
      using p part by (intro exI [of _ "[]"] exI [of _ part] exI [of _ rest]) simp
    then show ?thesis using step True by (auto simp: not_less [symmetric])
  next
    case False
    show ?thesis
    proof (cases rest)
      case Nil
      have "length c < MAXNAMELEN" if "p = u @ c @ v" for u c v
      proof -
        have "part = u @ c @ v" using p Nil that by simp
        then show ?thesis using False by simp
      qed
      then show ?thesis using step False Nil by auto
    next
      case (Cons sep q)
      then have sep: "sep = CHR ''/''" using hd_dropWhile [of ?P p] pr(2) by simp
      have "(\<forall>u c v. p = u @ c @ v \<longrightarrow> CHR ''/'' \<notin> set c \<longrightarrow> length c < MAXNAMELEN) \<longleftrightarrow>
        (\<forall>u c v. q = u @ c @ v \<longrightarrow> CHR ''/'' \<notin> set c \<longrightarrow> length c < MAXNAMELEN)"
      proof (intro iffI allI impI)
        fix u c v
        assume all: "\<forall>u c v. q = u @ c @ v \<longrightarrow> CHR ''/'' \<notin> set c \<longrightarrow> length c < MAXNAMELEN"
          and u: "p = u @ c @ v" and c: "CHR ''/'' \<notin> set c"
        have e: "part @ sep # q = u @ c @ v" using p Cons u by simp
        consider "length (u @ c) \<le> length part" | "length part < length u"
          | "length u \<le> length part" "length part < length (u @ c)" by linarith
        then show "length c < MAXNAMELEN"
        proof cases
          case 1
          then show ?thesis using False by simp
        next
          case 2
          have "q = drop (Suc (length part)) (part @ sep # q)" by simp
          also have "\<dots> = drop (Suc (length part)) u @ c @ v" unfolding e using 2 by simp
          finally show ?thesis using all c by blast
        next
          case 3
          then have lt: "length part - length u < length c" by (simp add: less_diff_conv2)
          have "sep = (part @ sep # q) ! length part" by simp
          also have "\<dots> = c ! (length part - length u)" unfolding e using 3 lt by (simp add: nth_append)
          finally have "sep \<in> set c" using lt by simp
          then show ?thesis using c sep by simp
        qed
      next
        fix u c v
        assume all: "\<forall>u c v. p = u @ c @ v \<longrightarrow> CHR ''/'' \<notin> set c \<longrightarrow> length c < MAXNAMELEN"
          and u: "q = u @ c @ v" and c: "CHR ''/'' \<notin> set c"
        have "p = (part @ sep # u) @ c @ v" using p Cons u by simp
        then show "length c < MAXNAMELEN" using all c by blast
      qed
      then show ?thesis
        using 1 [OF pr(1) [symmetric] pr(2) [symmetric] False Cons] step False Cons by simp
    qed
  qed
qed

subsection \<open>Properties\<close>

lemma dataset_name_head: "dataset_name p \<Longrightarrow> p \<noteq> [] \<and> (valid_char (hd p) \<or> hd p = CHR ''%'')"
  by (induction p rule: dataset_name.induct) (auto simp: component_def hd_append)

lemma dataset_namecheck_iff:
  "dataset_namecheck path = Inr () \<longleftrightarrow> length path < MAXNAMELEN \<and> dataset_name path"
proof (cases "length path < MAXNAMELEN")
  case True
  have "dataset_name path \<Longrightarrow> char_at path 0 \<noteq> CHR ''/'' \<and> char_at path 0 \<noteq> NUL"
    using dataset_name_head [of path] by (auto simp: char_at_def hd_conv_nth NUL_def [symmetric])
      (auto simp: NUL_def)
  then show ?thesis
    using True dataset_loop_accepts [of NUL False path] by (auto simp: dataset_namecheck_def)
qed (simp add: dataset_namecheck_def)

lemma snapshot_component: "snapshot_namecheck s = Inr () \<Longrightarrow> component s"
  by (auto simp: snapshot_namecheck_def component_def char_at_def find_None_iff split: if_splits option.splits)

lemma pool_component: "pool_namecheck p = Inr () \<Longrightarrow> component p \<and> length p < MAXNAMELEN"
  by (auto simp: pool_namecheck_def component_def char_at_def in_range_def NUL_def find_None_iff
      split: if_splits option.splits)


text \<open>
  The checks agree with one another: a pool name is a dataset name, and a pool name with a
  snapshot name behind an at sign is a dataset name when it is short enough.
\<close>

lemma pool_snapshot_is_dataset:
  assumes "pool_namecheck p = Inr ()" and "snapshot_namecheck s = Inr ()"
    and "length p + length s + 1 < MAXNAMELEN"
  shows "dataset_namecheck p = Inr () \<and> dataset_namecheck (p @ CHR ''@'' # s) = Inr ()"
  using pool_component [OF assms(1)] snapshot_component [OF assms(2)] assms(3)
  by (simp add: dataset_namecheck_iff dataset_name.plain dataset_name.snapshot)

lemma pool_snapshot_is_dataset_witness:
  "dataset_namecheck ''tank'' = Inr () \<and> dataset_namecheck (''tank'' @ CHR ''@'' # ''monday'') = Inr ()"
  by (rule pool_snapshot_is_dataset)
    (simp_all add: pool_namecheck_def snapshot_namecheck_def MAXNAMELEN_def char_at_def valid_char_def
      in_range_def strncmp_eq_def NUL_def)

text \<open>
  \<^verbatim>\<open>mountpoint_namecheck()\<close> accepts a mount point exactly when it is absolute and no run of
  characters between slashes reaches \<^verbatim>\<open>MAXNAMELEN\<close>.
\<close>

lemma mountpoint_namecheck_accepts:
  "mountpoint_namecheck path = Inr () \<longleftrightarrow>
    (\<exists>p. path = Some (CHR ''/'' # p) \<and>
      (\<forall>u c v. p = u @ c @ v \<longrightarrow> CHR ''/'' \<notin> set c \<longrightarrow> length c < MAXNAMELEN))"
proof (cases path)
  case (Some p)
  then show ?thesis
    using mountpoint_loop_accepts [of "tl p"]
    by (cases p) (auto simp: mountpoint_namecheck_def char_at_def NUL_def)
qed (simp add: mountpoint_namecheck_def)

lemma mountpoint_namecheck_accepts_witness: "mountpoint_namecheck (Some ''/a/b'') = Inr ()"
proof -
  have "length c < MAXNAMELEN" if "''a/b'' = u @ c @ v" for u c v :: string
    using arg_cong [OF that, of length] by (simp add: MAXNAMELEN_def)
  then show ?thesis
    using mountpoint_namecheck_accepts [of "Some ''/a/b''"] by blast
qed

end
