(* ===== verification/Wrap_Core.thy ===== *)
theory Wrap_Core
  imports Namecheck
begin

text \<open>
  The machine on which the public calls of \<^verbatim>\<open>zfswrap/libzfswrap.c\<close> run. The vnode layer below
  (\<^verbatim>\<open>zfs_zget()\<close> and the \<^verbatim>\<open>VOP_*\<close> calls) is a parameter that answers each call and changes a
  state of its own; what the wrapper itself does with the answers is modelled in full: the reader
  count of the teardown lock (\<^verbatim>\<open>ZFS_ENTER\<close>, \<^verbatim>\<open>ZFS_EXIT\<close>), the vnode references it owns
  (\<^verbatim>\<open>VN_RELE\<close>), the order of the calls, the error paths and the results.
\<close>

type_synonym vnode = u64

abbreviation NULL :: vnode where
  "NULL \<equiv> 0"

datatype vtype =
    VNON | VREG | VDIR | VBLK | VCHR | VLNK | VFIFO | VDOOR | VPROC | VSOCK | VPORT | VBAD

record inogen =
  inode :: u64
  generation :: u64

record creden =
  uid :: u32
  gid :: u32

record timestruc =
  tv_sec :: int
  tv_nsec :: int

record vattr =
  va_mask :: u32
  va_type :: vtype
  va_mode :: u32
  va_uid :: u32
  va_gid :: u32
  va_fsid :: u64
  va_nodeid :: u64
  va_nlink :: u64
  va_size :: u64
  va_atime :: timestruc
  va_mtime :: timestruc
  va_ctime :: timestruc
  va_rdev :: u64
  va_blksize :: u32
  va_nblocks :: u64
  va_seq :: u32

record stat =
  st_dev :: u64
  st_ino :: u64
  st_mode :: u32
  st_nlink :: u64
  st_uid :: u32
  st_gid :: u32
  st_rdev :: u64
  st_size :: u64
  st_blksize :: u32
  st_blocks :: u64
  st_atime :: int
  st_mtime :: int
  st_ctime :: int

record dirent =
  d_ino :: u64
  d_off :: int
  d_name :: string

subsection \<open>Constants\<close>

definition ENOENT :: int where "ENOENT = 2"

definition EIO :: int where "EIO = 5"

definition EEXIST :: int where "EEXIST = 17"

definition ENOTDIR :: int where "ENOTDIR = 20"

definition ENOSYS :: int where "ENOSYS = 38"

definition ENOTEMPTY :: int where "ENOTEMPTY = 39"

lemmas errno_defs = ENOENT_def EIO_def EEXIST_def ENOTDIR_def ENOSYS_def ENOTEMPTY_def

definition O_WRONLY :: u32 where "O_WRONLY = 0x1"

definition O_RDWR :: u32 where "O_RDWR = 0x2"

definition O_CREAT :: u32 where "O_CREAT = 0x40"

definition O_EXCL :: u32 where "O_EXCL = 0x80"

definition O_TRUNC :: u32 where "O_TRUNC = 0x200"

definition O_APPEND :: u32 where "O_APPEND = 0x400"

definition O_DSYNC :: u32 where "O_DSYNC = 0x1000"

definition O_SYNC :: u32 where "O_SYNC = 0x101000"

definition O_RSYNC :: u32 where "O_RSYNC = O_SYNC"

definition O_LARGEFILE :: u32 where "O_LARGEFILE = 0"

definition O_NOFOLLOW :: u32 where "O_NOFOLLOW = 0x20000"

definition FREAD :: u32 where "FREAD = 1"

definition FWRITE :: u32 where "FWRITE = 2"

definition FCREAT :: u32 where "FCREAT = O_CREAT"

definition FTRUNC :: u32 where "FTRUNC = O_TRUNC"

definition FOFFMAX :: u32 where "FOFFMAX = O_LARGEFILE"

definition FSYNC :: u32 where "FSYNC = O_SYNC"

definition FDSYNC :: u32 where "FDSYNC = O_DSYNC"

definition FRSYNC :: u32 where "FRSYNC = O_RSYNC"

definition FEXCL :: u32 where "FEXCL = O_EXCL"

definition FAPPEND :: u32 where "FAPPEND = O_APPEND"

definition FNOFOLLOW :: u32 where "FNOFOLLOW = 0x20000"

definition VREAD :: u32 where "VREAD = 0x100"

definition VWRITE :: u32 where "VWRITE = 0x80"

definition VEXEC :: u32 where "VEXEC = 0x40"

definition PERMMASK :: u32 where "PERMMASK = 0x1ff"

definition AT_TYPE :: u32 where "AT_TYPE = 0x0001"

definition AT_MODE :: u32 where "AT_MODE = 0x0002"

definition AT_UID :: u32 where "AT_UID = 0x0004"

definition AT_GID :: u32 where "AT_GID = 0x0008"

definition AT_SIZE :: u32 where "AT_SIZE = 0x0080"

definition AT_ATIME :: u32 where "AT_ATIME = 0x0100"

definition AT_MTIME :: u32 where "AT_MTIME = 0x0200"

definition AT_BLKSIZE :: u32 where "AT_BLKSIZE = 0x1000"

definition AT_NBLOCKS :: u32 where "AT_NBLOCKS = 0x2000"

definition AT_ALL :: u32 where "AT_ALL = 0xbfff"

definition AT_STAT :: u32 where "AT_STAT = 0x0fff"

definition ATTR_UTIME :: u32 where "ATTR_UTIME = 0x01"

definition LOOKUP_XATTR :: u32 where "LOOKUP_XATTR = 0x02"

definition CREATE_XATTR_DIR :: u32 where "CREATE_XATTR_DIR = 0x04"

definition LZFSW_ATTR_MODE :: u32 where "LZFSW_ATTR_MODE = push_bit 0 1"

definition LZFSW_ATTR_UID :: u32 where "LZFSW_ATTR_UID = push_bit 1 1"

definition LZFSW_ATTR_GID :: u32 where "LZFSW_ATTR_GID = push_bit 2 1"

definition LZFSW_ATTR_ATIME :: u32 where "LZFSW_ATTR_ATIME = push_bit 3 1"

definition LZFSW_ATTR_MTIME :: u32 where "LZFSW_ATTR_MTIME = push_bit 4 1"

definition LZFW_OFLAG_OPEN_CREATED :: u32 where "LZFW_OFLAG_OPEN_CREATED = 0x0001"

definition R_OK :: u32 where "R_OK = 4"

definition W_OK :: u32 where "W_OK = 2"

definition X_OK :: u32 where "X_OK = 1"

text \<open>\<^verbatim>\<open>vttoif_tab\<close>: the mode bits of a vnode type.\<close>

primrec VTTOIF :: "vtype \<Rightarrow> u32" where
  "VTTOIF VNON = 0"
| "VTTOIF VREG = 0x8000"
| "VTTOIF VDIR = 0x4000"
| "VTTOIF VBLK = 0x6000"
| "VTTOIF VCHR = 0x2000"
| "VTTOIF VLNK = 0xa000"
| "VTTOIF VFIFO = 0x1000"
| "VTTOIF VDOOR = 0"
| "VTTOIF VPROC = 0"
| "VTTOIF VSOCK = 0xc000"
| "VTTOIF VPORT = 0"
| "VTTOIF VBAD = 0"

text \<open>\<^verbatim>\<open>lzwu_flags2zfs()\<close>: the file flags and the access mode of the open flags.\<close>

definition lzwu_flags2zfs :: "u32 \<Rightarrow> u32 \<times> u32" where
  "lzwu_flags2zfs i_flags =
    (let (mode, flags) =
           (if i_flags AND O_WRONLY \<noteq> 0 then (VWRITE, FWRITE)
            else if i_flags AND O_RDWR \<noteq> 0 then (VREAD OR VWRITE, FREAD OR FWRITE)
            else (VREAD, FREAD));
         flags = (if i_flags AND O_CREAT \<noteq> 0 then flags OR FCREAT else flags);
         flags = (if i_flags AND O_SYNC \<noteq> 0 then flags OR FSYNC else flags);
         flags = (if i_flags AND O_DSYNC \<noteq> 0 then flags OR FDSYNC else flags);
         flags = (if i_flags AND O_RSYNC \<noteq> 0 then flags OR FRSYNC else flags);
         flags = (if i_flags AND O_APPEND \<noteq> 0 then flags OR FAPPEND else flags);
         flags = (if i_flags AND O_LARGEFILE \<noteq> 0 then flags OR FOFFMAX else flags);
         flags = (if i_flags AND O_NOFOLLOW \<noteq> 0 then flags OR FNOFOLLOW else flags);
         flags = (if i_flags AND O_TRUNC \<noteq> 0 then flags OR FTRUNC else flags);
         flags = (if i_flags AND O_EXCL \<noteq> 0 then flags OR FEXCL else flags)
     in (flags, mode))"

subsection \<open>Calls into the vnode layer\<close>

datatype vop =
    Zget u64 bool
  | Vop_lookup vnode string u32
  | Vop_access vnode u32
  | Vop_open vnode u32
  | Vop_close vnode u32
  | Vop_create vnode string vattr bool u32
  | Vop_mkdir vnode string vattr
  | Vop_rmdir vnode string
  | Vop_remove vnode string
  | Vop_symlink vnode string vattr string
  | Vop_readlink vnode u64
  | Vop_link vnode vnode string
  | Vop_rename vnode string vnode string
  | Vop_getattr vnode u32
  | Vop_setattr vnode vattr u32
  | Vop_read vnode u64 int u32
  | Vop_write vnode u64 int u32
  | Vop_readdir vnode int
  | Vop_space vnode u64 u64 u32 u64

text \<open>
  The answer of a call: the error code, and what the out-parameters of that call hold afterwards.
  \<open>r_dirent\<close> is \<open>None\<close> when \<^verbatim>\<open>VOP_READDIR\<close> has left the buffer untouched.
\<close>

record vresp =
  r_err :: int
  r_vn :: vnode
  r_id :: u64
  r_gen :: u64
  r_type :: vtype
  r_size :: u64
  r_attr :: vattr
  r_loffset :: int
  r_resid :: int
  r_dirent :: "dirent option"
  r_eof :: bool

type_synonym 'fs vfs_env = "creden \<Rightarrow> vop \<Rightarrow> 'fs \<Rightarrow> vresp \<times> 'fs"

record 'fs wstate =
  w_fs :: 'fs
  w_unmounted :: bool
  w_readers :: int
  w_holds :: "vnode \<Rightarrow> int"
  w_trace :: "vop list"

text \<open>
  A call is written with the rest of the routine as its continuation, so that the model reads in
  the order of the code; \<open>'r\<close> is what the whole routine returns.
\<close>

type_synonym ('fs, 'r) kont = "'fs wstate \<Rightarrow> 'r"
type_synonym ('fs, 'a) result = "int \<times> 'a option \<times> 'fs wstate"
type_synonym ('fs, 'a) wrap = "('fs, ('fs, 'a) result) kont"

definition bump :: "vnode \<Rightarrow> int \<Rightarrow> (vnode \<Rightarrow> int) \<Rightarrow> vnode \<Rightarrow> int" where
  "bump v n h = h(v := h v + n)"

text \<open>Calls that return a held vnode.\<close>

fun returns_vnode :: "vop \<Rightarrow> bool" where
  "returns_vnode (Zget _ _) = True"
| "returns_vnode (Vop_lookup _ _ _) = True"
| "returns_vnode (Vop_create _ _ _ _ _) = True"
| "returns_vnode (Vop_mkdir _ _ _) = True"
| "returns_vnode _ = False"

definition vrun :: "'fs vfs_env \<Rightarrow> creden \<Rightarrow> vop \<Rightarrow> 'fs wstate \<Rightarrow> vresp \<times> 'fs wstate" where
  "vrun E cred op s =
    (let (r, fs') = E cred op (w_fs s);
         h = (if returns_vnode op \<and> r_err r = 0 \<and> r_vn r \<noteq> NULL
              then bump (r_vn r) 1 (w_holds s) else w_holds s)
     in (r, s\<lparr>w_fs := fs', w_holds := h, w_trace := w_trace s @ [op]\<rparr>))"

definition vcall :: "'fs vfs_env \<Rightarrow> creden \<Rightarrow> vop \<Rightarrow> (vresp \<Rightarrow> ('fs, 'r) kont) \<Rightarrow> ('fs, 'r) kont" where
  "vcall E cred op k s = (let (r, s') = vrun E cred op s in k r s')"

definition ret :: "int \<Rightarrow> 'a option \<Rightarrow> ('fs, 'a) wrap" where
  "ret e v s = (e, v, s)"

definition VN_RELE :: "vnode \<Rightarrow> ('fs, 'r) kont \<Rightarrow> ('fs, 'r) kont" where
  "VN_RELE v k s = k (s\<lparr>w_holds := bump v (- 1) (w_holds s)\<rparr>)"

definition ZFS_EXIT :: "('fs, 'r) kont \<Rightarrow> ('fs, 'r) kont" where
  "ZFS_EXIT k s = k (s\<lparr>w_readers := w_readers s - 1\<rparr>)"

text \<open>\<open>fail\<close> is how the routine returns an error code.\<close>

definition ZFS_ENTER :: "(int \<Rightarrow> ('fs, 'r) kont) \<Rightarrow> ('fs, 'r) kont \<Rightarrow> ('fs, 'r) kont" where
  "ZFS_ENTER fail k s =
    (let s = s\<lparr>w_readers := w_readers s + 1\<rparr>
     in if w_unmounted s then ZFS_EXIT (fail EIO) s else k s)"

abbreviation err :: "int \<Rightarrow> ('fs, 'a) wrap" where
  "err e \<equiv> ret e None"

abbreviation ok :: "'a \<Rightarrow> ('fs, 'a) wrap" where
  "ok v \<equiv> ret 0 (Some v)"

text \<open>
  The opening shared by the calls that name an object by inode and generation: get the znode, and
  answer \<^verbatim>\<open>ENOENT\<close> when its generation is another one.
\<close>

definition zget_checked ::
  "'fs vfs_env \<Rightarrow> creden \<Rightarrow> inogen \<Rightarrow> bool \<Rightarrow> (vresp \<Rightarrow> ('fs, 'a) wrap) \<Rightarrow> ('fs, 'a) wrap" where
  "zget_checked E cred obj fetch k =
     vcall E cred (Zget (inode obj) fetch) (\<lambda>z.
       if r_err z \<noteq> 0 then ZFS_EXIT (err (r_err z))
       else if r_gen z \<noteq> generation obj then VN_RELE (r_vn z) (ZFS_EXIT (err ENOENT))
       else k z)"

abbreviation inogen_of :: "vresp \<Rightarrow> inogen" where
  "inogen_of r \<equiv> \<lparr>inode = r_id r, generation = r_gen r\<rparr>"

definition vattr0 :: vattr where
  "vattr0 =
     \<lparr>va_mask = 0, va_type = VNON, va_mode = 0, va_uid = 0, va_gid = 0, va_fsid = 0, va_nodeid = 0,
      va_nlink = 0, va_size = 0, va_atime = \<lparr>tv_sec = 0, tv_nsec = 0\<rparr>,
      va_mtime = \<lparr>tv_sec = 0, tv_nsec = 0\<rparr>, va_ctime = \<lparr>tv_sec = 0, tv_nsec = 0\<rparr>, va_rdev = 0,
      va_blksize = 0, va_nblocks = 0, va_seq = 0\<rparr>"

definition stat0 :: stat where
  "stat0 =
     \<lparr>st_dev = 0, st_ino = 0, st_mode = 0, st_nlink = 0, st_uid = 0, st_gid = 0, st_rdev = 0,
      st_size = 0, st_blksize = 0, st_blocks = 0, st_atime = 0, st_mtime = 0, st_ctime = 0\<rparr>"

text \<open>The copy of attributes into a \<^verbatim>\<open>struct stat\<close>.\<close>

definition stat_of_vattr :: "vattr \<Rightarrow> stat" where
  "stat_of_vattr va =
     \<lparr>st_dev = va_fsid va, st_ino = va_nodeid va, st_mode = VTTOIF (va_type va) OR va_mode va,
      st_nlink = va_nlink va, st_uid = va_uid va, st_gid = va_gid va, st_rdev = va_rdev va,
      st_size = va_size va, st_blksize = va_blksize va, st_blocks = va_nblocks va,
      st_atime = tv_sec (va_atime va), st_mtime = tv_sec (va_mtime va), st_ctime = tv_sec (va_ctime va)\<rparr>"

end
