(* ===== verification/Wrap_Ops.thy ===== *)
theory Wrap_Ops
  imports Wrap_Core
begin

text \<open>
  The object, directory and data calls of \<^verbatim>\<open>zfswrap/libzfswrap.c\<close>, one definition per routine,
  over the machine of the core theory.
\<close>

definition lzfw_getroot :: "'fs vfs_env \<Rightarrow> creden \<Rightarrow> ('fs, inogen) wrap" where
  "lzfw_getroot E cred =
     ZFS_ENTER err (
     vcall E cred (Zget 3 True) (\<lambda>z.
     if r_err z \<noteq> 0 then ZFS_EXIT (err (r_err z))
     else VN_RELE (r_vn z) (ZFS_EXIT (ok \<lparr>inode = 3, generation = r_gen z\<rparr>))))"

definition lzfw_lookup :: "'fs vfs_env \<Rightarrow> creden \<Rightarrow> inogen \<Rightarrow> string \<Rightarrow> ('fs, inogen \<times> u32) wrap" where
  "lzfw_lookup E cred parent psz_name =
     (if MAXNAMELEN \<le> length psz_name then err (- 1)
      else
        ZFS_ENTER err (
        zget_checked E cred parent True (\<lambda>p.
        vcall E cred (Vop_lookup (r_vn p) psz_name 0) (\<lambda>v.
        if r_err v \<noteq> 0 then VN_RELE (r_vn p) (ZFS_EXIT (err (r_err v)))
        else VN_RELE (r_vn v) (VN_RELE (r_vn p) (ZFS_EXIT (ok (inogen_of v, VTTOIF (r_type v)))))))))"

definition lzfw_lookupnameat ::
  "'fs vfs_env \<Rightarrow> creden \<Rightarrow> vnode \<Rightarrow> string \<Rightarrow> ('fs, inogen \<times> u32) wrap" where
  "lzfw_lookupnameat E cred parent psz_name =
     ZFS_ENTER err (
     vcall E cred (Vop_lookup parent psz_name 0) (\<lambda>v.
     if r_err v \<noteq> 0 then ZFS_EXIT (err (r_err v))
     else VN_RELE (r_vn v) (ZFS_EXIT (ok (inogen_of v, VTTOIF (r_type v))))))"

definition lzfw_access :: "'fs vfs_env \<Rightarrow> creden \<Rightarrow> inogen \<Rightarrow> u32 \<Rightarrow> ('fs, unit) wrap" where
  "lzfw_access E cred obj access_mask =
     ZFS_ENTER err (
     zget_checked E cred obj True (\<lambda>z.
     let mode = 0;
         mode = (if access_mask AND R_OK \<noteq> 0 then mode OR VREAD else mode);
         mode = (if access_mask AND W_OK \<noteq> 0 then mode OR VWRITE else mode);
         mode = (if access_mask AND X_OK \<noteq> 0 then mode OR VEXEC else mode)
     in vcall E cred (Vop_access (r_vn z) mode) (\<lambda>a.
        VN_RELE (r_vn z) (ZFS_EXIT (err (r_err a))))))"

definition lzfw_open :: "'fs vfs_env \<Rightarrow> creden \<Rightarrow> inogen \<Rightarrow> u32 \<Rightarrow> ('fs, vnode) wrap" where
  "lzfw_open E cred obj i_flags =
     (let (flags, mode) = lzwu_flags2zfs i_flags
      in ZFS_ENTER err (
         zget_checked E cred obj False (\<lambda>z.
         vcall E cred (Vop_open (r_vn z) flags) (\<lambda>o'.
         if r_err o' \<noteq> 0 then ZFS_EXIT (err (r_err o'))
         else ZFS_EXIT (ok (r_vn z))))))"

text \<open>The output carries the bits or-ed into \<^verbatim>\<open>o_flags\<close>.\<close>

definition lzfw_openat ::
  "'fs vfs_env \<Rightarrow> creden \<Rightarrow> vnode \<Rightarrow> string \<Rightarrow> u32 \<Rightarrow> u32 \<Rightarrow> ('fs, vnode \<times> u32) wrap" where
  "lzfw_openat E cred parent psz_name i_flags mode =
     (let (flags, i_mode) = lzwu_flags2zfs i_flags;
          open_it = (\<lambda>vn o_flags.
            vcall E cred (Vop_open vn flags) (\<lambda>o'.
            if r_err o' \<noteq> 0 then VN_RELE vn (ZFS_EXIT (err (r_err o')))
            else ZFS_EXIT (ok (vn, o_flags))))
      in ZFS_ENTER err (
         vcall E cred (Vop_lookup parent psz_name 0) (\<lambda>l.
         if r_err l \<noteq> 0
         then if r_err l = ENOENT \<and> i_flags AND O_CREAT \<noteq> 0
              then vcall E cred (Vop_create parent psz_name
                     (vattr0\<lparr>va_type := VREG, va_mode := mode, va_mask := AT_TYPE OR AT_MODE\<rparr>)
                     (i_flags AND O_EXCL \<noteq> 0) mode) (\<lambda>c.
                   if r_err c \<noteq> 0 then ZFS_EXIT (err (r_err c))
                   else open_it (r_vn c) LZFW_OFLAG_OPEN_CREATED)
              else ZFS_EXIT (err (r_err l))
         else if i_flags AND O_EXCL \<noteq> 0 then err EEXIST
         else open_it (r_vn l) 0)))"

definition lzfw_create :: "'fs vfs_env \<Rightarrow> creden \<Rightarrow> inogen \<Rightarrow> string \<Rightarrow> u32 \<Rightarrow> ('fs, inogen) wrap" where
  "lzfw_create E cred parent psz_filename mode =
     ZFS_ENTER err (
     zget_checked E cred parent False (\<lambda>p.
     vcall E cred (Vop_create (r_vn p) psz_filename
       (vattr0\<lparr>va_type := VREG, va_mode := mode, va_mask := AT_TYPE OR AT_MODE\<rparr>) False mode) (\<lambda>c.
     if r_err c \<noteq> 0 then VN_RELE (r_vn p) (ZFS_EXIT (err (r_err c)))
     else VN_RELE (r_vn c) (VN_RELE (r_vn p) (ZFS_EXIT (ok (inogen_of c)))))))"

definition lzfw_createat :: "'fs vfs_env \<Rightarrow> creden \<Rightarrow> vnode \<Rightarrow> string \<Rightarrow> u32 \<Rightarrow> ('fs, inogen) wrap" where
  "lzfw_createat E cred parent psz_filename mode =
     ZFS_ENTER err (
     vcall E cred (Vop_create parent psz_filename
       (vattr0\<lparr>va_type := VREG, va_mode := mode, va_mask := AT_TYPE OR AT_MODE\<rparr>) False mode) (\<lambda>c.
     if r_err c \<noteq> 0 then ZFS_EXIT (err (r_err c))
     else VN_RELE (r_vn c) (ZFS_EXIT (ok (inogen_of c)))))"

definition lzfw_opendir :: "'fs vfs_env \<Rightarrow> creden \<Rightarrow> inogen \<Rightarrow> ('fs, vnode) wrap" where
  "lzfw_opendir E cred directory =
     ZFS_ENTER err (
     zget_checked E cred directory True (\<lambda>z.
     if r_type z \<noteq> VDIR then VN_RELE (r_vn z) (ZFS_EXIT (err ENOTDIR))
     else
       vcall E cred (Vop_open (r_vn z) FREAD) (\<lambda>o'.
       if r_err o' \<noteq> 0 then VN_RELE (r_vn z) (ZFS_EXIT (err (r_err o')))
       else ZFS_EXIT (ok (r_vn z)))))"

text \<open>
  \<^verbatim>\<open>getattr_helper()\<close> leaves each output untouched (\<open>None\<close>), or sets it; \<open>want_gen\<close> says that
  the caller passed a place for the generation instead of one to check.
\<close>

record helper_out =
  ho_gen :: "u64 option"
  ho_type :: "u32 option"
  ho_stat :: "stat option"

definition helper_none :: helper_out where
  "helper_none = \<lparr>ho_gen = None, ho_type = None, ho_stat = None\<rparr>"

definition getattr_helper ::
  "'fs vfs_env \<Rightarrow> creden \<Rightarrow> inogen \<Rightarrow> bool \<Rightarrow> (int \<Rightarrow> helper_out \<Rightarrow> ('fs, 'r) kont) \<Rightarrow> ('fs, 'r) kont" where
  "getattr_helper E cred obj want_gen k =
     vcall E cred (Zget (inode obj) False) (\<lambda>z.
     if r_err z \<noteq> 0 then k (r_err z) helper_none
     else if \<not> want_gen \<and> r_gen z \<noteq> generation obj then VN_RELE (r_vn z) (k ENOENT helper_none)
     else
       let out = \<lparr>ho_gen = (if want_gen then Some (r_gen z) else None),
                  ho_type = Some (VTTOIF (r_type z)), ho_stat = Some stat0\<rparr>
       in vcall E cred (Vop_getattr (r_vn z) AT_ALL) (\<lambda>a.
          if r_err a \<noteq> 0 then VN_RELE (r_vn z) (k (r_err a) out)
          else VN_RELE (r_vn z) (k 0 (out\<lparr>ho_stat := Some (stat_of_vattr (r_attr a))\<rparr>))))"

record lzfw_entry =
  le_name :: string
  le_ino :: u64
  le_out :: helper_out

text \<open>\<open>n\<close> is the room left in the array; the continuation gets the offset and the entries.\<close>

primrec readdir_loop ::
  "'fs vfs_env \<Rightarrow> creden \<Rightarrow> vnode \<Rightarrow> nat \<Rightarrow> int \<Rightarrow> lzfw_entry list
    \<Rightarrow> (int \<Rightarrow> lzfw_entry list \<Rightarrow> ('fs, 'r) kont) \<Rightarrow> ('fs, 'r) kont" where
  "readdir_loop E cred vn 0 next_entry entries k = k next_entry entries"
| "readdir_loop E cred vn (Suc n) next_entry entries k =
     vcall E cred (Vop_readdir vn next_entry) (\<lambda>r.
     if r_err r \<noteq> 0 then k next_entry entries
     else case r_dirent r of
         None \<Rightarrow> k next_entry entries
       | Some d \<Rightarrow>
           getattr_helper E cred \<lparr>inode = d_ino d, generation = 0\<rparr> True (\<lambda>e out.
             readdir_loop E cred vn n (d_off d)
               (entries @ [\<lparr>le_name = d_name d, le_ino = d_ino d, le_out = out\<rparr>]) k))"

definition lzfw_readdir ::
  "'fs vfs_env \<Rightarrow> creden \<Rightarrow> (vnode \<Rightarrow> vtype) \<Rightarrow> vnode \<Rightarrow> nat \<Rightarrow> int \<Rightarrow> ('fs, lzfw_entry list \<times> int) wrap" where
  "lzfw_readdir E cred v_type vn sz cookie =
     (if v_type vn \<noteq> VDIR then err ENOTDIR
      else
        ZFS_ENTER err (
        readdir_loop E cred vn sz cookie [] (\<lambda>next_entry entries.
        ZFS_EXIT (ok (entries, if length entries < sz then 0 else next_entry)))))"

text \<open>The buffer is cleared before anything else.\<close>

definition lzfw_stat :: "'fs vfs_env \<Rightarrow> creden \<Rightarrow> vnode \<Rightarrow> ('fs, stat) wrap" where
  "lzfw_stat E cred vn =
     ZFS_ENTER (\<lambda>e. ret e (Some stat0)) (
     vcall E cred (Vop_getattr vn AT_ALL) (\<lambda>a.
     ZFS_EXIT (if r_err a \<noteq> 0 then ret (r_err a) (Some stat0) else ok (stat_of_vattr (r_attr a)))))"

definition lzfw_getattr :: "'fs vfs_env \<Rightarrow> creden \<Rightarrow> inogen \<Rightarrow> ('fs, helper_out) wrap" where
  "lzfw_getattr E cred obj =
     ZFS_ENTER err (
     getattr_helper E cred obj False (\<lambda>e out. ZFS_EXIT (ret e (Some out))))"

definition setattr_vattr :: "stat \<Rightarrow> u32 \<Rightarrow> vattr \<times> u32" where
  "setattr_vattr st flags =
    (let va = vattr0; update_time = 0;
         va = (if flags AND LZFSW_ATTR_MODE \<noteq> 0
               then va\<lparr>va_mask := va_mask va OR AT_MODE, va_mode := st_mode st\<rparr> else va);
         va = (if flags AND LZFSW_ATTR_UID \<noteq> 0
               then va\<lparr>va_mask := va_mask va OR AT_UID, va_uid := st_uid st\<rparr> else va);
         va = (if flags AND LZFSW_ATTR_GID \<noteq> 0
               then va\<lparr>va_mask := va_mask va OR AT_GID, va_gid := st_gid st\<rparr> else va);
         (va, update_time) =
           (if flags AND LZFSW_ATTR_ATIME \<noteq> 0
            then (va\<lparr>va_mask := va_mask va OR AT_ATIME, va_atime := \<lparr>tv_sec = st_atime st, tv_nsec = 0\<rparr>\<rparr>, ATTR_UTIME)
            else (va, update_time));
         (va, update_time) =
           (if flags AND LZFSW_ATTR_MTIME \<noteq> 0
            then (va\<lparr>va_mask := va_mask va OR AT_MTIME, va_mtime := \<lparr>tv_sec = st_mtime st, tv_nsec = 0\<rparr>\<rparr>, ATTR_UTIME)
            else (va, update_time))
     in (va, update_time))"

definition lzfw_setattr :: "'fs vfs_env \<Rightarrow> creden \<Rightarrow> inogen \<Rightarrow> stat \<Rightarrow> u32 \<Rightarrow> ('fs, unit) wrap" where
  "lzfw_setattr E cred obj p_stat flags =
     ZFS_ENTER err (
     zget_checked E cred obj True (\<lambda>z.
     let (va, update_time) = setattr_vattr p_stat flags
     in vcall E cred (Vop_setattr (r_vn z) va update_time) (\<lambda>a.
        VN_RELE (r_vn z) (ZFS_EXIT (err (r_err a))))))"

subsection \<open>Data\<close>

text \<open>
  \<open>zp_size\<close> reads the size of a file from its znode. The returned number is that of the call, and
  the transfer itself is the vnode layer's.
\<close>

definition lzfw_read ::
  "'fs vfs_env \<Rightarrow> creden \<Rightarrow> (vnode \<Rightarrow> 'fs \<Rightarrow> int) \<Rightarrow> vnode \<Rightarrow> u64 \<Rightarrow> bool \<Rightarrow> int \<Rightarrow> ('fs, unit) wrap" where
  "lzfw_read E cred zp_size vn sz behind offset s =
    (let loffset = (if behind then offset + zp_size vn (w_fs s) else offset)
     in ZFS_ENTER err (
        vcall E cred (Vop_read vn sz loffset 0) (\<lambda>r.
        ZFS_EXIT (if offset = r_loffset r then err 0 else err (uint sz)))) s)"

definition iov_total :: "u64 list \<Rightarrow> u64" where
  "iov_total iov = foldl (\<lambda>resid len. resid + len) 0 iov"

definition lzfw_preadv ::
  "'fs vfs_env \<Rightarrow> creden \<Rightarrow> vnode \<Rightarrow> u64 list \<Rightarrow> int \<Rightarrow> ('fs, unit) wrap" where
  "lzfw_preadv E cred vn iov offset =
    (let resid = iov_total iov
     in ZFS_ENTER err (
        vcall E cred (Vop_read vn resid offset 0) (\<lambda>r.
        let e = (if r_err r = 0 then sint resid - r_resid r else r_err r)
        in ZFS_EXIT (err e))))"

definition lzfw_write ::
  "'fs vfs_env \<Rightarrow> creden \<Rightarrow> (vnode \<Rightarrow> 'fs \<Rightarrow> int) \<Rightarrow> vnode \<Rightarrow> u64 \<Rightarrow> bool \<Rightarrow> int \<Rightarrow> ('fs, unit) wrap" where
  "lzfw_write E cred zp_size vn sz behind offset s =
    (let loffset = (if behind then offset + zp_size vn (w_fs s) else offset)
     in ZFS_ENTER err (
        vcall E cred (Vop_write vn sz loffset 0) (\<lambda>r.
        ZFS_EXIT (err (r_err r)))) s)"

definition lzfw_pwritev ::
  "'fs vfs_env \<Rightarrow> creden \<Rightarrow> vnode \<Rightarrow> u64 list \<Rightarrow> int \<Rightarrow> ('fs, unit) wrap" where
  "lzfw_pwritev E cred vn iov offset =
    (let resid = iov_total iov
     in ZFS_ENTER err (
        vcall E cred (Vop_write vn resid offset 0) (\<lambda>r.
        let e = (if r_err r = 0 then sint resid - r_resid r else r_err r)
        in ZFS_EXIT (err e))))"

definition lzfw_close :: "'fs vfs_env \<Rightarrow> creden \<Rightarrow> vnode \<Rightarrow> u32 \<Rightarrow> ('fs, unit) wrap" where
  "lzfw_close E cred vn i_flags =
    (let (flags, mode) = lzwu_flags2zfs i_flags
     in ZFS_ENTER err (
        vcall E cred (Vop_close vn flags) (\<lambda>c.
        VN_RELE vn (ZFS_EXIT (err (r_err c))))))"

definition lzfw_closedir :: "'fs vfs_env \<Rightarrow> creden \<Rightarrow> vnode \<Rightarrow> ('fs, unit) wrap" where
  "lzfw_closedir E cred vn = lzfw_close E cred vn 0"

subsection \<open>Names\<close>

definition lzfw_mkdir :: "'fs vfs_env \<Rightarrow> creden \<Rightarrow> inogen \<Rightarrow> string \<Rightarrow> u32 \<Rightarrow> ('fs, inogen) wrap" where
  "lzfw_mkdir E cred parent psz_name mode =
     ZFS_ENTER err (
     zget_checked E cred parent False (\<lambda>p.
     vcall E cred (Vop_mkdir (r_vn p) psz_name
       (vattr0\<lparr>va_type := VDIR, va_mode := mode AND PERMMASK, va_mask := AT_TYPE OR AT_MODE\<rparr>)) (\<lambda>v.
     if r_err v \<noteq> 0 then VN_RELE (r_vn p) (ZFS_EXIT (err (r_err v)))
     else VN_RELE (r_vn v) (VN_RELE (r_vn p) (ZFS_EXIT (ok (inogen_of v)))))))"

definition lzfw_mkdirat :: "'fs vfs_env \<Rightarrow> creden \<Rightarrow> vnode \<Rightarrow> string \<Rightarrow> u32 \<Rightarrow> ('fs, inogen) wrap" where
  "lzfw_mkdirat E cred parent psz_name mode =
     ZFS_ENTER err (
     vcall E cred (Vop_mkdir parent psz_name
       (vattr0\<lparr>va_type := VDIR, va_mode := mode AND PERMMASK, va_mask := AT_TYPE OR AT_MODE\<rparr>)) (\<lambda>v.
     if r_err v \<noteq> 0 then ZFS_EXIT (err (r_err v))
     else VN_RELE (r_vn v) (ZFS_EXIT (ok (inogen_of v)))))"

definition lzfw_rmdir :: "'fs vfs_env \<Rightarrow> creden \<Rightarrow> inogen \<Rightarrow> string \<Rightarrow> ('fs, unit) wrap" where
  "lzfw_rmdir E cred parent psz_filename =
     ZFS_ENTER err (
     zget_checked E cred parent False (\<lambda>p.
     vcall E cred (Vop_rmdir (r_vn p) psz_filename) (\<lambda>r.
     VN_RELE (r_vn p) (ZFS_EXIT (err (if r_err r = EEXIST then ENOTEMPTY else r_err r))))))"

definition lzfw_symlink ::
  "'fs vfs_env \<Rightarrow> creden \<Rightarrow> inogen \<Rightarrow> string \<Rightarrow> string \<Rightarrow> ('fs, inogen) wrap" where
  "lzfw_symlink E cred parent psz_name psz_link =
     ZFS_ENTER err (
     zget_checked E cred parent False (\<lambda>p.
     vcall E cred (Vop_symlink (r_vn p) psz_name
       (vattr0\<lparr>va_type := VLNK, va_mode := 0x1ff, va_mask := AT_TYPE OR AT_MODE\<rparr>) psz_link) (\<lambda>y.
     if r_err y \<noteq> 0 then VN_RELE (r_vn p) (ZFS_EXIT (err (r_err y)))
     else
       vcall E cred (Vop_lookup (r_vn p) psz_name 0) (\<lambda>v.
       if r_err v \<noteq> 0 then VN_RELE (r_vn p) (ZFS_EXIT (err (r_err v)))
       else VN_RELE (r_vn v) (VN_RELE (r_vn p) (ZFS_EXIT (ok (inogen_of v))))))))"

text \<open>The value is the index of the buffer at which the terminating zero is written.\<close>

definition lzfw_readlink :: "'fs vfs_env \<Rightarrow> creden \<Rightarrow> inogen \<Rightarrow> u64 \<Rightarrow> ('fs, int) wrap" where
  "lzfw_readlink E cred symlink content_size =
     ZFS_ENTER err (
     zget_checked E cred symlink False (\<lambda>z.
     vcall E cred (Vop_readlink (r_vn z) content_size) (\<lambda>r.
     VN_RELE (r_vn z) (ZFS_EXIT (ret (r_err r) (Some (if r_err r = 0 then r_loffset r else 0)))))))"

text \<open>
  The second object of \<^verbatim>\<open>lzfw_link()\<close> and \<^verbatim>\<open>lzfw_rename()\<close>, got while the first (\<open>p\<close>) is held.
\<close>

definition zget_second ::
  "'fs vfs_env \<Rightarrow> creden \<Rightarrow> inogen \<Rightarrow> vnode \<Rightarrow> (vresp \<Rightarrow> ('fs, 'a) wrap) \<Rightarrow> ('fs, 'a) wrap" where
  "zget_second E cred obj p k =
     vcall E cred (Zget (inode obj) False) (\<lambda>z.
       if r_err z \<noteq> 0 then VN_RELE p (ZFS_EXIT (err (r_err z)))
       else if r_gen z \<noteq> generation obj then VN_RELE (r_vn z) (VN_RELE p (ZFS_EXIT (err ENOENT)))
       else k z)"

definition lzfw_link :: "'fs vfs_env \<Rightarrow> creden \<Rightarrow> inogen \<Rightarrow> inogen \<Rightarrow> string \<Rightarrow> ('fs, unit) wrap" where
  "lzfw_link E cred parent target psz_name =
     ZFS_ENTER err (
     zget_checked E cred parent False (\<lambda>p.
     zget_second E cred target (r_vn p) (\<lambda>t.
     vcall E cred (Vop_link (r_vn p) (r_vn t) psz_name) (\<lambda>r.
     VN_RELE (r_vn t) (VN_RELE (r_vn p) (ZFS_EXIT (err (r_err r))))))))"

definition lzfw_unlink :: "'fs vfs_env \<Rightarrow> creden \<Rightarrow> inogen \<Rightarrow> string \<Rightarrow> ('fs, unit) wrap" where
  "lzfw_unlink E cred parent psz_filename =
     ZFS_ENTER err (
     zget_checked E cred parent False (\<lambda>p.
     vcall E cred (Vop_remove (r_vn p) psz_filename) (\<lambda>r.
     VN_RELE (r_vn p) (ZFS_EXIT (err (r_err r))))))"

definition lzfw_unlinkat :: "'fs vfs_env \<Rightarrow> creden \<Rightarrow> vnode \<Rightarrow> string \<Rightarrow> u32 \<Rightarrow> ('fs, unit) wrap" where
  "lzfw_unlinkat E cred parent psz_filename flags =
     ZFS_ENTER err (
     vcall E cred (Vop_remove parent psz_filename) (\<lambda>r. ZFS_EXIT (err (r_err r))))"

definition lzfw_rename ::
  "'fs vfs_env \<Rightarrow> creden \<Rightarrow> inogen \<Rightarrow> string \<Rightarrow> inogen \<Rightarrow> string \<Rightarrow> ('fs, unit) wrap" where
  "lzfw_rename E cred parent psz_filename new_parent psz_new_filename =
     ZFS_ENTER err (
     zget_checked E cred parent False (\<lambda>p.
     zget_second E cred new_parent (r_vn p) (\<lambda>n.
     vcall E cred (Vop_rename (r_vn p) psz_filename (r_vn n) psz_new_filename) (\<lambda>r.
     VN_RELE (r_vn n) (VN_RELE (r_vn p) (ZFS_EXIT (err (r_err r))))))))"

definition lzfw_renameat ::
  "'fs vfs_env \<Rightarrow> creden \<Rightarrow> vnode \<Rightarrow> string \<Rightarrow> vnode \<Rightarrow> string \<Rightarrow> ('fs, unit) wrap" where
  "lzfw_renameat E cred parent psz_name new_parent psz_newname =
     ZFS_ENTER err (
     vcall E cred (Vop_rename parent psz_name new_parent psz_newname) (\<lambda>r.
     ZFS_EXIT (err (r_err r))))"

definition lzfw_truncate :: "'fs vfs_env \<Rightarrow> creden \<Rightarrow> inogen \<Rightarrow> u64 \<Rightarrow> ('fs, unit) wrap" where
  "lzfw_truncate E cred file sz =
     ZFS_ENTER err (
     zget_checked E cred file True (\<lambda>z.
     vcall E cred (Vop_space (r_vn z) sz 0 FWRITE 0) (\<lambda>r.
     VN_RELE (r_vn z) (ZFS_EXIT (err (r_err r))))))"

definition lzfw_zero :: "'fs vfs_env \<Rightarrow> creden \<Rightarrow> vnode \<Rightarrow> u64 \<Rightarrow> u64 \<Rightarrow> ('fs, unit) wrap" where
  "lzfw_zero E cred vn offset len =
     ZFS_ENTER err (
     vcall E cred (Vop_space vn offset len (FWRITE OR FOFFMAX) offset) (\<lambda>r.
     ZFS_EXIT (err (r_err r))))"

end
