(* ===== verification/Wrap_Xattr.thy ===== *)
theory Wrap_Xattr
  imports Wrap_Ops
begin

text \<open>
  The calls of \<^verbatim>\<open>zfswrap/libzfswrap.c\<close> on extended attributes and the directory iteration with a
  callback. Their loops run until the vnode layer reports the end, so they are partial functions:
  \<open>None\<close> is a call that does not return.
\<close>

subsection \<open>Extended attributes\<close>

text \<open>
  \<^verbatim>\<open>xattr_helper()\<close> passes on the error and the attribute directory. After a failed lookup it looks
  at a vnode pointer that it has not initialised: the value of \<open>r_vn\<close> then.
\<close>

definition xattr_helper ::
  "'fs vfs_env \<Rightarrow> creden \<Rightarrow> inogen \<Rightarrow> (int \<Rightarrow> vnode \<Rightarrow> ('fs, 'r) kont) \<Rightarrow> ('fs, 'r) kont" where
  "xattr_helper E cred obj k =
     vcall E cred (Zget (inode obj) True) (\<lambda>z.
     if r_err z \<noteq> 0 then k (r_err z) NULL
     else if r_gen z \<noteq> generation obj then VN_RELE (r_vn z) (k ENOENT NULL)
     else
       vcall E cred (Vop_lookup (r_vn z) [] (LOOKUP_XATTR OR CREATE_XATTR_DIR)) (\<lambda>x.
       VN_RELE (r_vn z) (
       if r_err x \<noteq> 0 \<or> r_vn x = NULL
       then let done = k (if r_err x \<noteq> 0 then r_err x else ENOSYS) NULL
            in if r_vn x \<noteq> NULL then VN_RELE (r_vn x) done else done
       else k 0 (r_vn x))))"

definition is_dot_name :: "string \<Rightarrow> bool" where
  "is_dot_name s \<longleftrightarrow> s = ''.'' \<or> s = ''..''"

partial_function (option) listxattr_loop ::
  "'fs vfs_env \<Rightarrow> creden \<Rightarrow> vnode \<Rightarrow> int \<Rightarrow> string \<Rightarrow> 'fs wstate \<Rightarrow> (int \<times> string \<times> 'fs wstate) option" where
  "listxattr_loop E cred vn next buf s =
    (let (r, s) = vrun E cred (Vop_readdir vn next) s
     in if r_err r \<noteq> 0 then Some (r_err r, buf, s)
        else case r_dirent r of
            None \<Rightarrow> Some (0, buf, s)
          | Some d \<Rightarrow>
              if is_dot_name (d_name d) then listxattr_loop E cred vn (d_off d) buf s
              else listxattr_loop E cred vn (d_off d) (buf @ d_name d @ [CHR 0x00]) s)"

definition lzfw_listxattr ::
  "'fs vfs_env \<Rightarrow> creden \<Rightarrow> inogen \<Rightarrow> ('fs, ('fs, string) result option) kont" where
  "lzfw_listxattr E cred obj =
     ZFS_ENTER (\<lambda>e s. Some (err e s)) (
     xattr_helper E cred obj (\<lambda>e vn.
     if e \<noteq> 0 then ZFS_EXIT (\<lambda>s. Some (err e s))
     else
       vcall E cred (Vop_open vn FREAD) (\<lambda>o'.
       if r_err o' \<noteq> 0 then VN_RELE vn (ZFS_EXIT (\<lambda>s. Some (err (r_err o') s)))
       else (\<lambda>s.
         case listxattr_loop E cred vn 0 [] s of
           None \<Rightarrow> None
         | Some (e, buf, s) \<Rightarrow>
             vcall E cred (Vop_close vn FREAD) (\<lambda>_.
             VN_RELE vn (ZFS_EXIT (\<lambda>s. Some (if e \<noteq> 0 then err e s else ok buf s)))) s))))"

text \<open>The callback acts on the state of the layer below; its result is not used.\<close>

partial_function (option) listxattr2_loop ::
  "'fs vfs_env \<Rightarrow> creden \<Rightarrow> (vnode \<Rightarrow> creden \<Rightarrow> string \<Rightarrow> 'fs \<Rightarrow> 'fs) \<Rightarrow> vnode \<Rightarrow> int \<Rightarrow> 'fs wstate
    \<Rightarrow> (int \<times> 'fs wstate) option" where
  "listxattr2_loop E cred cb_func vn next s =
    (let (r, s) = vrun E cred (Vop_readdir vn next) s
     in if r_err r \<noteq> 0 then Some (r_err r, s)
        else case r_dirent r of
            None \<Rightarrow> Some (0, s)
          | Some d \<Rightarrow>
              if is_dot_name (d_name d) then listxattr2_loop E cred cb_func vn (d_off d) s
              else listxattr2_loop E cred cb_func vn (d_off d)
                     (s\<lparr>w_fs := cb_func vn cred (d_name d) (w_fs s)\<rparr>))"

definition lzfw_listxattr2 ::
  "'fs vfs_env \<Rightarrow> creden \<Rightarrow> inogen \<Rightarrow> (vnode \<Rightarrow> creden \<Rightarrow> string \<Rightarrow> 'fs \<Rightarrow> 'fs)
    \<Rightarrow> ('fs, ('fs, unit) result option) kont" where
  "lzfw_listxattr2 E cred obj cb_func =
     ZFS_ENTER (\<lambda>e s. Some (err e s)) (
     xattr_helper E cred obj (\<lambda>e vn.
     if e \<noteq> 0 then ZFS_EXIT (\<lambda>s. Some (err e s))
     else
       vcall E cred (Vop_open vn FREAD) (\<lambda>o'.
       if r_err o' \<noteq> 0 then VN_RELE vn (ZFS_EXIT (\<lambda>s. Some (err (r_err o') s)))
       else (\<lambda>s.
         case listxattr2_loop E cred cb_func vn 0 s of
           None \<Rightarrow> None
         | Some (e, s) \<Rightarrow>
             vcall E cred (Vop_close vn FREAD) (\<lambda>_.
             VN_RELE vn (ZFS_EXIT (\<lambda>s. Some (err e s)))) s))))"

definition xattr_vattr :: vattr where
  "xattr_vattr =
     vattr0\<lparr>va_type := VREG, va_mode := 0x1b0, va_mask := AT_TYPE OR AT_MODE OR AT_SIZE, va_size := 0\<rparr>"

text \<open>
  The rest of \<^verbatim>\<open>lzfw_setxattr()\<close> and \<^verbatim>\<open>lzfw_setxattrat()\<close> from the release of the attribute
  directory: a failed \<^verbatim>\<open>VOP_CREATE\<close> releases and leaves, and falls through to it.
\<close>

definition setxattr_write ::
  "'fs vfs_env \<Rightarrow> creden \<Rightarrow> vnode \<Rightarrow> vnode \<Rightarrow> string \<Rightarrow> ('fs, unit) wrap" where
  "setxattr_write E cred vn pseudo_vnode psz_value =
     VN_RELE vn (
     vcall E cred (Vop_open pseudo_vnode FWRITE) (\<lambda>o'.
     if r_err o' \<noteq> 0 then VN_RELE pseudo_vnode (ZFS_EXIT (err (r_err o')))
     else
       vcall E cred (Vop_write pseudo_vnode (of_nat (length psz_value)) 0 FWRITE) (\<lambda>w.
       vcall E cred (Vop_close pseudo_vnode FWRITE) (\<lambda>_.
       VN_RELE pseudo_vnode (ZFS_EXIT (err (r_err w)))))))"

definition lzfw_setxattr ::
  "'fs vfs_env \<Rightarrow> creden \<Rightarrow> inogen \<Rightarrow> string \<Rightarrow> string \<Rightarrow> ('fs, unit) wrap" where
  "lzfw_setxattr E cred obj psz_key psz_value =
     ZFS_ENTER err (
     xattr_helper E cred obj (\<lambda>e vn.
     if e \<noteq> 0 then ZFS_EXIT (err e)
     else
       vcall E cred (Vop_create vn psz_key xattr_vattr False VWRITE) (\<lambda>c.
       let rest = setxattr_write E cred vn (r_vn c) psz_value
       in if r_err c \<noteq> 0 then VN_RELE vn (ZFS_EXIT rest) else rest)))"

definition lzfw_setxattrat ::
  "'fs vfs_env \<Rightarrow> creden \<Rightarrow> vnode \<Rightarrow> string \<Rightarrow> string \<Rightarrow> ('fs, unit) wrap" where
  "lzfw_setxattrat E cred vn psz_key psz_value =
     ZFS_ENTER err (
     vcall E cred (Vop_lookup vn [] (LOOKUP_XATTR OR CREATE_XATTR_DIR)) (\<lambda>x.
     if r_err x \<noteq> 0 then ZFS_EXIT (err (r_err x))
     else
       vcall E cred (Vop_create (r_vn x) psz_key xattr_vattr False VWRITE) (\<lambda>c.
       let rest = setxattr_write E cred (r_vn x) (r_vn c) psz_value
       in if r_err c \<noteq> 0 then VN_RELE (r_vn x) (ZFS_EXIT rest) else rest)))"

definition xattr_getmask :: u32 where
  "xattr_getmask = AT_STAT OR AT_NBLOCKS OR AT_BLKSIZE OR AT_SIZE"

text \<open>The value is the length of the attribute: the index of the terminating zero.\<close>

definition lzfw_getxattr :: "'fs vfs_env \<Rightarrow> creden \<Rightarrow> inogen \<Rightarrow> string \<Rightarrow> ('fs, u64) wrap" where
  "lzfw_getxattr E cred obj psz_key =
     ZFS_ENTER err (
     xattr_helper E cred obj (\<lambda>e vn.
     if e \<noteq> 0 then ZFS_EXIT (err e)
     else
       vcall E cred (Vop_lookup vn psz_key 0) (\<lambda>y.
       if r_err y \<noteq> 0 then VN_RELE vn (ZFS_EXIT (err (r_err y)))
       else VN_RELE vn (
         vcall E cred (Vop_getattr (r_vn y) xattr_getmask) (\<lambda>a.
         if r_err a \<noteq> 0 then VN_RELE (r_vn y) (ZFS_EXIT (err (r_err a)))
         else
           vcall E cred (Vop_open (r_vn y) FREAD) (\<lambda>o'.
           if r_err o' \<noteq> 0 then VN_RELE (r_vn y) (ZFS_EXIT (err (r_err o')))
           else
             vcall E cred (Vop_read (r_vn y) (va_size (r_attr a) + 1) 0 FREAD) (\<lambda>r.
             vcall E cred (Vop_close (r_vn y) FREAD) (\<lambda>_.
             VN_RELE (r_vn y) (ZFS_EXIT (
             if r_err r = 0 then ok (va_size (r_attr a)) else err (r_err r)))))))))))"

text \<open>The value is what \<^verbatim>\<open>*size\<close> holds afterwards; after a read it is what is left of the buffer.\<close>

definition lzfw_getxattrat ::
  "'fs vfs_env \<Rightarrow> creden \<Rightarrow> vnode \<Rightarrow> string \<Rightarrow> u64 \<Rightarrow> ('fs, int) wrap" where
  "lzfw_getxattrat E cred vn psz_key sz =
    (let fail = (\<lambda>e. ret e (Some (uint sz)))
     in ZFS_ENTER fail (
        vcall E cred (Vop_lookup vn [] (LOOKUP_XATTR OR CREATE_XATTR_DIR)) (\<lambda>x.
        if r_err x \<noteq> 0 then ZFS_EXIT (fail (r_err x))
        else
          vcall E cred (Vop_lookup (r_vn x) psz_key 0) (\<lambda>y.
          if r_err y \<noteq> 0 then VN_RELE (r_vn x) (ZFS_EXIT (fail (r_err y)))
          else VN_RELE (r_vn x) (
            if sz = 0
            then vcall E cred (Vop_getattr (r_vn y) xattr_getmask) (\<lambda>a.
                 VN_RELE (r_vn y) (ZFS_EXIT (
                 if r_err a = 0 then ok (uint (va_size (r_attr a))) else fail (r_err a))))
            else
              vcall E cred (Vop_open (r_vn y) FREAD) (\<lambda>o'.
              if r_err o' \<noteq> 0 then VN_RELE (r_vn y) (ZFS_EXIT (fail (r_err o')))
              else
                vcall E cred (Vop_read (r_vn y) sz 0 0) (\<lambda>r.
                vcall E cred (Vop_close (r_vn y) FREAD) (\<lambda>_.
                VN_RELE (r_vn y) (ZFS_EXIT (
                if r_err r \<noteq> 0 then ret (r_err r) (Some 0) else ok (r_resid r)))))))))))"

definition lzfw_removexattr :: "'fs vfs_env \<Rightarrow> creden \<Rightarrow> inogen \<Rightarrow> string \<Rightarrow> ('fs, unit) wrap" where
  "lzfw_removexattr E cred obj psz_key =
     ZFS_ENTER err (
     xattr_helper E cred obj (\<lambda>e vn.
     if e \<noteq> 0 then ZFS_EXIT (err e)
     else
       vcall E cred (Vop_remove vn psz_key) (\<lambda>r.
       VN_RELE vn (ZFS_EXIT (err (r_err r))))))"

subsection \<open>Iteration over a directory\<close>

definition LZFW_DI_FLAG_GETATTR :: u32 where "LZFW_DI_FLAG_GETATTR = 0x0002"

definition LZFW_DI_CB_IFLAG_ATTR :: u32 where "LZFW_DI_CB_IFLAG_ATTR = 0x0002"

definition LZFW_DI_CB_OFLAG_INVALIDATE :: u32 where "LZFW_DI_CB_OFLAG_INVALIDATE = 0x0001"

record dir_iter_cb_context =
  cb_dirent :: dirent
  cb_vattr :: "vattr option"
  cb_vnode :: vnode
  cb_gen :: u64
  cb_iflags :: u32

text \<open>
  \<^verbatim>\<open>vattr_helper()\<close> fills the generation and, when the context has room for them, the attributes; only
  then does it release the vnode.
\<close>

definition vattr_helper ::
  "'fs vfs_env \<Rightarrow> creden \<Rightarrow> dir_iter_cb_context \<Rightarrow> (int \<Rightarrow> dir_iter_cb_context \<Rightarrow> ('fs, 'r) kont) \<Rightarrow> ('fs, 'r) kont" where
  "vattr_helper E cred ctx k =
     vcall E cred (Zget (d_ino (cb_dirent ctx)) False) (\<lambda>z.
     if r_err z \<noteq> 0 then k (r_err z) ctx
     else
       let ctx = ctx\<lparr>cb_gen := r_gen z\<rparr>
       in if cb_vattr ctx \<noteq> None
          then vcall E cred (Vop_getattr (r_vn z) AT_ALL) (\<lambda>a.
               VN_RELE (r_vn z) (k (r_err a) (ctx\<lparr>cb_vattr := Some (r_attr a)\<rparr>)))
          else k 0 ctx)"

text \<open>
  The callback sees the entry and returns an error code, its output flags and its effect on the
  layer below. The entry buffer is uninitialised until the first entry has been read (\<open>None\<close>); using
  it then, or the znode of a failed \<^verbatim>\<open>zfs_zget()\<close>, is the panic \<open>Bad_access\<close>.
\<close>

type_synonym 'fs dir_iter_f = "vnode \<Rightarrow> dir_iter_cb_context \<Rightarrow> 'fs \<Rightarrow> (int \<times> u32) \<times> 'fs"

definition dir_iter_context ::
  "'fs vfs_env \<Rightarrow> creden \<Rightarrow> u32 \<Rightarrow> dirent \<Rightarrow> 'fs wstate \<Rightarrow> (dir_iter_cb_context \<times> 'fs wstate) outcome" where
  "dir_iter_context E cred flags d s =
    (if flags AND LZFW_DI_FLAG_GETATTR \<noteq> 0
     then let (z, s) = vrun E cred (Zget (d_ino d) False) s
          in if r_err z \<noteq> 0 then Inl Bad_access
             else let (a, s) = vrun E cred (Vop_getattr (r_vn z) AT_ALL) s
                  in Inr (\<lparr>cb_dirent = d, cb_vattr = Some (r_attr a), cb_vnode = r_vn z,
                           cb_gen = r_gen z, cb_iflags = LZFW_DI_CB_IFLAG_ATTR\<rparr>, s)
     else Inr (\<lparr>cb_dirent = d, cb_vattr = None, cb_vnode = NULL, cb_gen = 0, cb_iflags = 0\<rparr>, s))"

partial_function (option) dir_iter_loop ::
  "'fs vfs_env \<Rightarrow> creden \<Rightarrow> u32 \<Rightarrow> 'fs dir_iter_f \<Rightarrow> vnode \<Rightarrow> int \<Rightarrow> dirent option \<Rightarrow> int \<Rightarrow> 'fs wstate
    \<Rightarrow> (int \<times> bool \<times> int \<times> 'fs wstate) outcome option" where
  "dir_iter_loop E cred flags func vn cookie entry next_entry s =
    (let (r, s) = vrun E cred (Vop_readdir vn next_entry) s
     in if r_eof r \<or> r_err r \<noteq> 0 then Some (Inr (r_err r, r_eof r, next_entry, s))
        else let entry = (case r_dirent r of None \<Rightarrow> entry | Some d \<Rightarrow> Some d)
     in case entry of
         None \<Rightarrow> Some (Inl Bad_access)
       | Some d \<Rightarrow>
           (case dir_iter_context E cred flags d s of
              Inl p \<Rightarrow> Some (Inl p)
            | Inr (ctx, s) \<Rightarrow>
                let ((e, oflags), fs) = func vn ctx (w_fs s); s = s\<lparr>w_fs := fs\<rparr>
                in if e \<noteq> 0 then Some (Inr (e, False, next_entry, s))
                   else let s = (if cb_vnode ctx \<noteq> NULL then VN_RELE (cb_vnode ctx) id s else s)
                in if oflags AND LZFW_DI_CB_OFLAG_INVALIDATE \<noteq> 0
                   then dir_iter_loop E cred flags func vn cookie entry cookie s
                   else dir_iter_loop E cred flags func vn cookie entry (d_off d) s))"

definition lzfw_dir_iter ::
  "'fs vfs_env \<Rightarrow> creden \<Rightarrow> (vnode \<Rightarrow> vtype) \<Rightarrow> vnode \<Rightarrow> 'fs dir_iter_f \<Rightarrow> int \<Rightarrow> u32
    \<Rightarrow> ('fs, ('fs, int) result outcome option) kont" where
  "lzfw_dir_iter E cred v_type vn func cookie flags =
    (if v_type vn \<noteq> VDIR then (\<lambda>s. Some (Inr (err ENOTDIR s)))
     else
       ZFS_ENTER (\<lambda>e s. Some (Inr (err e s))) (\<lambda>s.
       case dir_iter_loop E cred flags func vn cookie None cookie s of
         None \<Rightarrow> None
       | Some (Inl p) \<Rightarrow> Some (Inl p)
       | Some (Inr (e, eofp, next_entry, s)) \<Rightarrow>
           ZFS_EXIT (\<lambda>s. Some (Inr (ret e (Some (if eofp then 0 else next_entry)) s))) s))"

end
