(* ===== verification/Wrap_Balance.thy ===== *)
theory Wrap_Balance
  imports Wrap_Xattr
begin

text \<open>
  The accounts of the public calls: which readers of the teardown lock and which vnode references a
  call leaves behind. \<open>settles G n h k\<close> says that the routine \<open>k\<close>, entered with \<open>n\<close> readers and the
  references \<open>h\<close> to give back, gives them back and hands the references \<open>G\<close> of its result to the
  caller; its rules follow the text of a routine.
\<close>

named_theorems settle \<open>rules of the accounts\<close>

type_synonym 'a gift = "int \<Rightarrow> 'a option \<Rightarrow> vnode \<Rightarrow> int"

definition settles :: "'a gift \<Rightarrow> int \<Rightarrow> (vnode \<Rightarrow> int) \<Rightarrow> ('fs, 'a) wrap \<Rightarrow> bool" where
  "settles G n h k \<longleftrightarrow> (\<forall>s e x t. k s = (e, x, t) \<longrightarrow>
     w_readers t = w_readers s - n \<and> (\<forall>v. w_holds t v = w_holds s v - h v + G e x v) \<and>
     w_unmounted t = w_unmounted s)"

abbreviation none_held :: "vnode \<Rightarrow> int" where
  "none_held \<equiv> \<lambda>_. 0"

abbreviation nothing :: "'a gift" where
  "nothing \<equiv> \<lambda>_ _ _. 0"

text \<open>What the vnode layer promises: a call that succeeds in returning a vnode returns one.\<close>

definition env_ok :: "'fs vfs_env \<Rightarrow> bool" where
  "env_ok E \<longleftrightarrow> (\<forall>cred op fs. returns_vnode op \<longrightarrow> r_err (fst (E cred op fs)) = 0 \<longrightarrow>
     r_vn (fst (E cred op fs)) \<noteq> NULL)"

text \<open>A failed lookup stores no vnode.\<close>

definition lookup_clears :: "'fs vfs_env \<Rightarrow> bool" where
  "lookup_clears E \<longleftrightarrow> (\<forall>cred v nm fl fs. r_err (fst (E cred (Vop_lookup v nm fl) fs)) \<noteq> 0 \<longrightarrow>
     r_vn (fst (E cred (Vop_lookup v nm fl) fs)) = NULL)"

subsection \<open>Rules\<close>

lemma bump_apply: "bump v n h w = (if w = v then h w + n else h w)"
  by (simp add: bump_def)

lemma bump_undo [simp]:
  "bump v (- 1) (bump v 1 h) = h"
  "bump v (- 1) (bump w 1 (bump v 1 h)) = bump w 1 h"
  by (rule ext, simp add: bump_apply)+

lemma settles_ret [settle]:
  assumes "n = 0" and "\<And>v. h v = G e x v"
  shows "settles G n h (ret e x)"
  using assms by (simp add: settles_def ret_def)

lemma settles_VN_RELE [settle]:
  assumes "settles G n (bump v (- 1) h) k"
  shows "settles G n h (VN_RELE v k)"
  using assms unfolding settles_def VN_RELE_def by (fastforce simp: bump_apply)

lemma settles_ZFS_EXIT [settle]:
  assumes "settles G (n - 1) h k"
  shows "settles G n h (ZFS_EXIT k)"
  using assms unfolding settles_def ZFS_EXIT_def by fastforce

lemma settles_ZFS_ENTER [settle]:
  assumes "settles G n h (fail EIO)" and "settles G (n + 1) h k"
  shows "settles G n h (ZFS_ENTER fail k)"
  using assms unfolding settles_def ZFS_ENTER_def ZFS_EXIT_def
  by (fastforce simp: Let_def split: if_splits)

lemma settles_if [settle]:
  assumes "b \<Longrightarrow> settles G n h k" and "\<not> b \<Longrightarrow> settles G n h l"
  shows "settles G n h (if b then k else l)"
  using assms by simp

lemma settles_vcall_keep:
  assumes "\<not> returns_vnode op" and "\<And>r. settles G n h (k r)"
  shows "settles G n h (vcall E cred op k)"
  unfolding settles_def
proof (intro allI impI)
  fix s e x t
  assume run: "vcall E cred op k s = (e, x, t)"
  obtain r fs' where E: "E cred op (w_fs s) = (r, fs')"
    by fastforce
  then have "k r (s\<lparr>w_fs := fs', w_trace := w_trace s @ [op]\<rparr>) = (e, x, t)"
    using run assms(1) by (simp add: vcall_def vrun_def)
  then show "w_readers t = w_readers s - n \<and> (\<forall>v. w_holds t v = w_holds s v - h v + G e x v) \<and>
      w_unmounted t = w_unmounted s"
    using assms(2) [of r] unfolding settles_def by fastforce
qed

lemma settles_vcall_get:
  assumes ret: "returns_vnode op"
    and good: "\<And>fs r. r = fst (E cred op fs) \<Longrightarrow> r_err r = 0 \<Longrightarrow> r_vn r \<noteq> NULL \<Longrightarrow>
      settles G n (bump (r_vn r) 1 h) (k r)"
    and bad: "\<And>fs r. r = fst (E cred op fs) \<Longrightarrow> r_err r \<noteq> 0 \<or> r_vn r = NULL \<Longrightarrow> settles G n h (k r)"
  shows "settles G n h (vcall E cred op k)"
  unfolding settles_def
proof (intro allI impI)
  fix s e x t
  assume run: "vcall E cred op k s = (e, x, t)"
  obtain r fs' where E: "E cred op (w_fs s) = (r, fs')"
    by fastforce
  then have r: "r = fst (E cred op (w_fs s))"
    by simp
  show "w_readers t = w_readers s - n \<and> (\<forall>v. w_holds t v = w_holds s v - h v + G e x v) \<and>
      w_unmounted t = w_unmounted s"
  proof (cases "r_err r = 0 \<and> r_vn r \<noteq> NULL")
    case True
    then have "k r (s\<lparr>w_fs := fs', w_holds := bump (r_vn r) 1 (w_holds s), w_trace := w_trace s @ [op]\<rparr>)
        = (e, x, t)"
      using run ret E by (simp add: vcall_def vrun_def)
    moreover have "settles G n (bump (r_vn r) 1 h) (k r)"
      using good r True by blast
    ultimately show ?thesis
      unfolding settles_def by (fastforce simp: bump_apply)
  next
    case False
    then have "k r (s\<lparr>w_fs := fs', w_trace := w_trace s @ [op]\<rparr>) = (e, x, t)"
      using run ret E by (auto simp: vcall_def vrun_def)
    moreover have "settles G n h (k r)"
      using bad r False by blast
    ultimately show ?thesis
      unfolding settles_def by fastforce
  qed
qed

lemma settles_vcall_held:
  assumes "env_ok E" and "returns_vnode op"
    and "\<And>r. r_err r = 0 \<Longrightarrow> settles G n (bump (r_vn r) 1 h) (k r)"
    and "\<And>r. r_err r \<noteq> 0 \<Longrightarrow> settles G n h (k r)"
  shows "settles G n h (vcall E cred op k)"
  using assms(2)
proof (rule settles_vcall_get)
  fix fs r
  assume r: "r = fst (E cred op fs)" and "r_err r \<noteq> 0 \<or> r_vn r = NULL"
  then have "r_err r \<noteq> 0"
    using assms(1, 2) unfolding env_ok_def by blast
  then show "settles G n h (k r)"
    by (rule assms(4))
qed (rule assms(3))

lemma settles_vcall [settle]:
  assumes "returns_vnode op \<Longrightarrow> env_ok E"
    and "\<And>r. returns_vnode op \<Longrightarrow> r_err r = 0 \<Longrightarrow> settles G n (bump (r_vn r) 1 h) (k r)"
    and "\<And>r. \<not> (returns_vnode op \<and> r_err r = 0) \<Longrightarrow> settles G n h (k r)"
  shows "settles G n h (vcall E cred op k)"
  using assms by (cases "returns_vnode op") (auto intro: settles_vcall_keep settles_vcall_held)

lemma settles_zget_checked [settle]:
  assumes "env_ok E" and "n = 1" and "\<And>v. h v = 0"
    and "\<And>e. G e None = none_held"
    and "\<And>r. r_err r = 0 \<Longrightarrow> settles G n (bump (r_vn r) 1 h) (k r)"
  shows "settles G n h (zget_checked E cred obj fetch k)"
  unfolding zget_checked_def
  by (rule settles_vcall_held [OF assms(1)], simp)
    (auto intro!: settle assms(5) [unfolded assms(2)] simp: assms(2,3,4) bump_apply)

lemma settles_zget_second [settle]:
  assumes "env_ok E" and "n = 1" and "\<And>v. h v = bump p 1 none_held v"
    and "\<And>e. G e None = none_held"
    and "\<And>r. r_err r = 0 \<Longrightarrow> settles G n (bump (r_vn r) 1 h) (k r)"
  shows "settles G n h (zget_second E cred obj p k)"
  unfolding zget_second_def
  by (rule settles_vcall_held [OF assms(1)], simp)
    (auto intro!: settle assms(5) [unfolded assms(2)] simp: assms(2,3,4) bump_apply)

lemma settles_getattr_helper [settle]:
  assumes "env_ok E" and "\<And>e out. settles G n h (k e out)"
  shows "settles G n h (getattr_helper E cred obj want k)"
  unfolding getattr_helper_def Let_def
  by (rule settles_vcall_held [OF assms(1)], simp)
    (auto intro!: settles_if settles_VN_RELE settles_vcall_keep assms(2))

lemma settles_case_prod [settle]:
  assumes "\<And>a b. settles G n h (f a b)"
  shows "settles G n h (case p of (a, b) \<Rightarrow> f a b)"
  using assms by (cases p) simp

lemma settles_readdir_loop [settle]:
  assumes "env_ok E" and "\<And>nx es. settles G n h (k nx es)"
  shows "settles G n h (readdir_loop E cred vn m nx es k)"
proof (induction m arbitrary: nx es)
  case 0
  show ?case
    by (simp add: assms(2))
next
  case (Suc m)
  have "settles G n h (case r_dirent r of None \<Rightarrow> k nx es
      | Some d \<Rightarrow> getattr_helper E cred \<lparr>inode = d_ino d, generation = 0\<rparr> True (\<lambda>e out.
          readdir_loop E cred vn m (d_off d)
            (es @ [\<lparr>le_name = d_name d, le_ino = d_ino d, le_out = out\<rparr>]) k))" for r
    by (cases "r_dirent r") (simp_all add: assms Suc settles_getattr_helper)
  then show ?case
    by (auto intro!: settles_vcall_keep settles_if assms(2))
qed

text \<open>\<^verbatim>\<open>xattr_helper()\<close> gives the attribute directory, held, or nothing.\<close>

lemma settles_xattr_helper [settle]:
  assumes "lookup_clears E" and "env_ok E"
    and "\<And>e v. e \<noteq> 0 \<Longrightarrow> settles G n h (k e v)" and "\<And>v. settles G n (bump v 1 h) (k 0 v)"
  shows "settles G n h (xattr_helper E cred obj k)"
proof -
  have lookup: "settles G n (bump z 1 h)
      (vcall E cred (Vop_lookup z [] fl) (\<lambda>x.
       VN_RELE z (
       if r_err x \<noteq> 0 \<or> r_vn x = NULL
       then let done = k (if r_err x \<noteq> 0 then r_err x else ENOSYS) NULL
            in if r_vn x \<noteq> NULL then VN_RELE (r_vn x) done else done
       else k 0 (r_vn x))))" for z fl
  proof (rule settles_vcall_get, goal_cases)
    case (2 fs r)
    then show ?case
      by (auto simp: Let_def intro!: settles_VN_RELE assms(4))
  next
    case (3 fs r)
    then have "r_vn r = NULL"
      using assms(1) unfolding lookup_clears_def by blast
    then show ?case
      by (auto simp: Let_def errno_defs intro!: settles_VN_RELE assms(3))
  qed simp
  show ?thesis
    unfolding xattr_helper_def
  proof (rule settles_vcall_held [OF assms(2)], goal_cases)
    case (2 r)
    have "ENOENT \<noteq> 0"
      by (simp add: errno_defs)
    then show ?case
      using 2 by (intro settles_if settles_VN_RELE lookup) (simp_all add: assms(3))
  qed (simp_all add: assms(3))
qed

subsection \<open>The accounts of the calls\<close>

abbreviation neutral :: "('fs, 'a) wrap \<Rightarrow> bool" where
  "neutral k \<equiv> settles nothing 0 none_held k"

lemma neutral_getroot: "env_ok E \<Longrightarrow> neutral (lzfw_getroot E cred)"
  unfolding lzfw_getroot_def by (auto intro!: settle simp: bump_apply)

lemma neutral_lookup: "env_ok E \<Longrightarrow> neutral (lzfw_lookup E cred parent nm)"
  unfolding lzfw_lookup_def by (auto intro!: settle simp: bump_apply)

lemma neutral_lookupnameat: "env_ok E \<Longrightarrow> neutral (lzfw_lookupnameat E cred parent nm)"
  unfolding lzfw_lookupnameat_def by (auto intro!: settle simp: bump_apply)

lemma neutral_access: "env_ok E \<Longrightarrow> neutral (lzfw_access E cred obj m)"
  unfolding lzfw_access_def Let_def by (auto intro!: settle simp: bump_apply)

lemma neutral_create: "env_ok E \<Longrightarrow> neutral (lzfw_create E cred parent nm m)"
  unfolding lzfw_create_def by (auto intro!: settle simp: bump_apply)

lemma neutral_createat: "env_ok E \<Longrightarrow> neutral (lzfw_createat E cred parent nm m)"
  unfolding lzfw_createat_def by (auto intro!: settle simp: bump_apply)

lemma neutral_readdir: "env_ok E \<Longrightarrow> neutral (lzfw_readdir E cred vt vn sz cookie)"
  unfolding lzfw_readdir_def by (auto intro!: settle)

lemma neutral_stat: "neutral (lzfw_stat E cred vn)"
  unfolding lzfw_stat_def by (auto intro!: settle)

lemma neutral_getattr: "env_ok E \<Longrightarrow> neutral (lzfw_getattr E cred obj)"
  unfolding lzfw_getattr_def by (auto intro!: settle)

lemma neutral_setattr: "env_ok E \<Longrightarrow> neutral (lzfw_setattr E cred obj st fl)"
  unfolding lzfw_setattr_def by (auto intro!: settle simp: bump_apply)

lemma neutral_read: "neutral (lzfw_read E cred zs vn sz b off)"
proof -
  have "neutral (ZFS_ENTER err (vcall E cred (Vop_read vn sz loff 0) (\<lambda>r.
      ZFS_EXIT (if off = r_loffset r then err 0 else err (uint sz)))) :: ('a, unit) wrap)" for loff
    by (auto intro!: settle)
  then show ?thesis
    unfolding settles_def lzfw_read_def Let_def by blast
qed

lemma neutral_preadv: "neutral (lzfw_preadv E cred vn iov off)"
  unfolding lzfw_preadv_def Let_def by (auto intro!: settle)

lemma neutral_write: "neutral (lzfw_write E cred zs vn sz b off)"
proof -
  have "neutral (ZFS_ENTER err (vcall E cred (Vop_write vn sz loff 0) (\<lambda>r.
      ZFS_EXIT (err (r_err r)))) :: ('a, unit) wrap)" for loff
    by (auto intro!: settle)
  then show ?thesis
    unfolding settles_def lzfw_write_def Let_def by blast
qed

lemma neutral_pwritev: "neutral (lzfw_pwritev E cred vn iov off)"
  unfolding lzfw_pwritev_def Let_def by (auto intro!: settle)

lemma neutral_mkdir: "env_ok E \<Longrightarrow> neutral (lzfw_mkdir E cred parent nm m)"
  unfolding lzfw_mkdir_def by (auto intro!: settle simp: bump_apply)

lemma neutral_mkdirat: "env_ok E \<Longrightarrow> neutral (lzfw_mkdirat E cred parent nm m)"
  unfolding lzfw_mkdirat_def by (auto intro!: settle simp: bump_apply)

lemma neutral_rmdir: "env_ok E \<Longrightarrow> neutral (lzfw_rmdir E cred parent nm)"
  unfolding lzfw_rmdir_def by (auto intro!: settle simp: bump_apply)

lemma neutral_symlink: "env_ok E \<Longrightarrow> neutral (lzfw_symlink E cred parent nm l)"
  unfolding lzfw_symlink_def by (auto intro!: settle simp: bump_apply)

lemma neutral_readlink: "env_ok E \<Longrightarrow> neutral (lzfw_readlink E cred obj sz)"
  unfolding lzfw_readlink_def by (auto intro!: settle simp: bump_apply)

lemma neutral_link: "env_ok E \<Longrightarrow> neutral (lzfw_link E cred parent target nm)"
  unfolding lzfw_link_def by (auto intro!: settle simp: bump_apply)

lemma neutral_unlink: "env_ok E \<Longrightarrow> neutral (lzfw_unlink E cred parent nm)"
  unfolding lzfw_unlink_def by (auto intro!: settle simp: bump_apply)

lemma neutral_unlinkat: "neutral (lzfw_unlinkat E cred parent nm fl)"
  unfolding lzfw_unlinkat_def by (auto intro!: settle)

lemma neutral_rename: "env_ok E \<Longrightarrow> neutral (lzfw_rename E cred parent nm parent' nm')"
  unfolding lzfw_rename_def by (auto intro!: settle simp: bump_apply)

lemma neutral_renameat: "neutral (lzfw_renameat E cred parent nm parent' nm')"
  unfolding lzfw_renameat_def by (auto intro!: settle)

lemma neutral_truncate: "env_ok E \<Longrightarrow> neutral (lzfw_truncate E cred obj sz)"
  unfolding lzfw_truncate_def by (auto intro!: settle simp: bump_apply)

lemma neutral_zero: "neutral (lzfw_zero E cred vn off len)"
  unfolding lzfw_zero_def by (auto intro!: settle)

lemma neutral_getxattr: "env_ok E \<Longrightarrow> lookup_clears E \<Longrightarrow> neutral (lzfw_getxattr E cred obj key)"
  unfolding lzfw_getxattr_def by (auto intro!: settle simp: bump_apply)

lemma neutral_getxattrat: "env_ok E \<Longrightarrow> neutral (lzfw_getxattrat E cred vn key sz)"
  unfolding lzfw_getxattrat_def Let_def by (auto intro!: settle simp: bump_apply)

lemma neutral_removexattr: "env_ok E \<Longrightarrow> lookup_clears E \<Longrightarrow> neutral (lzfw_removexattr E cred obj key)"
  unfolding lzfw_removexattr_def by (auto intro!: settle simp: bump_apply)

text \<open>The calls that hand an open vnode to the caller.\<close>

definition opened :: "vnode gift" where
  "opened e x v = (if x = Some v then 1 else 0)"

lemma opens_opendir: "env_ok E \<Longrightarrow> settles opened 0 none_held (lzfw_opendir E cred dir)"
  unfolding lzfw_opendir_def by (auto intro!: settle simp: bump_apply opened_def fun_eq_iff split: if_splits)

subsection \<open>Layers for the examples\<close>

definition plain_answer :: vresp where
  "plain_answer =
     \<lparr>r_err = 0, r_vn = 5, r_id = 9, r_gen = 7, r_type = VDIR, r_size = 0, r_attr = vattr0, r_loffset = 0,
      r_resid = 0, r_dirent = None, r_eof = True\<rparr>"

text \<open>A layer that answers each call by a table and has no state.\<close>

definition table_env :: "(vop \<Rightarrow> vresp) \<Rightarrow> unit vfs_env" where
  "table_env f cred op fs = (f op, fs)"

definition idle_state :: "unit wstate" where
  "idle_state = \<lparr>w_fs = (), w_unmounted = False, w_readers = 0, w_holds = none_held, w_trace = []\<rparr>"

definition root_cred :: creden where
  "root_cred = \<lparr>uid = 0, gid = 0\<rparr>"

lemma table_env_ok: "env_ok (table_env (\<lambda>_. plain_answer))" "lookup_clears (table_env (\<lambda>_. plain_answer))"
  by (simp_all add: env_ok_def lookup_clears_def table_env_def plain_answer_def)

end
