(* ===== verification/Wrap_Calls.thy ===== *)
theory Wrap_Calls
  imports Wrap_Balance
begin


text \<open>What the theorems see of a result: the returned number, the vnode it opens, the state.\<close>

definition plain :: "('fs, 'a) wrap \<Rightarrow> ('fs, vnode) wrap" where
  "plain k s = (case k s of (e, x, t) \<Rightarrow> (e, None, t))"

definition first :: "('fs, 'a \<times> 'b) wrap \<Rightarrow> ('fs, 'a) wrap" where
  "first k s = (case k s of (e, x, t) \<Rightarrow> (e, map_option fst x, t))"






subsection \<open>The accounts of one call\<close>













subsection \<open>Sessions\<close>



subsection \<open>Objects that are gone, file systems that are gone\<close>



lemmas machine_defs =
  ZFS_ENTER_def ZFS_EXIT_def VN_RELE_def vcall_def vrun_def ret_def zget_checked_def plain_def first_def




subsection \<open>Properties\<close>







text \<open>
  (C35) A leak. When \<^verbatim>\<open>VOP_OPEN\<close> fails, \<^verbatim>\<open>lzfw_open()\<close> returns its error and keeps the reference that
  \<^verbatim>\<open>zfs_zget()\<close> took: the vnode is held once more than before and nobody owns that reference.
\<close>

theorem lzfw_open_leaks:
  assumes "\<not> w_unmounted s" and "E cr (Zget (inode obj) False) (w_fs s) = (z, fs1)"
    and "r_err z = 0" and "r_vn z \<noteq> NULL" and "r_gen z = generation obj"
    and "E cr (Vop_open (r_vn z) (fst (lzwu_flags2zfs fl))) fs1 = (o', fs2)" and "r_err o' \<noteq> 0"
  shows "\<exists>t. lzfw_open E cr obj fl s = (r_err o', None, t) \<and> w_readers t = w_readers s
    \<and> w_holds t = bump (r_vn z) 1 (w_holds s)"
  using assms by (cases "lzwu_flags2zfs fl") (simp add: lzfw_open_def machine_defs)

definition failing_open :: "vop \<Rightarrow> vresp" where
  "failing_open op = (case op of Vop_open v fl \<Rightarrow> plain_answer\<lparr>r_err := 13\<rparr> | _ \<Rightarrow> plain_answer)"

theorem lzfw_open_leaks_witness:
  "\<exists>t. lzfw_open (table_env failing_open) root_cred \<lparr>inode = 9, generation = 7\<rparr> 0 idle_state = (13, None, t)
    \<and> w_holds t 5 = 1"
proof -
  have "\<exists>t. lzfw_open (table_env failing_open) root_cred \<lparr>inode = 9, generation = 7\<rparr> 0 idle_state
      = (r_err (plain_answer\<lparr>r_err := 13\<rparr>), None, t)
    \<and> w_readers t = w_readers idle_state \<and> w_holds t = bump (r_vn plain_answer) 1 (w_holds idle_state)"
    by (rule lzfw_open_leaks [where ?fs1.0 = "()" and ?fs2.0 = "()"])
      (simp_all add: table_env_def failing_open_def plain_answer_def idle_state_def)
  then show ?thesis
    by (auto simp: bump_apply plain_answer_def idle_state_def)
qed

text \<open>
  (C36) A lock that stays held. \<^verbatim>\<open>lzfw_openat()\<close> with \<^verbatim>\<open>O_EXCL\<close> on a name that exists returns
  \<^verbatim>\<open>EEXIST\<close> without leaving: one reader of the teardown lock and one reference to the existing vnode
  remain for ever.
\<close>

theorem lzfw_openat_excl_stays:
  assumes "\<not> w_unmounted s" and "E cr (Vop_lookup p nm 0) (w_fs s) = (l, fs1)" and "r_err l = 0"
    and "r_vn l \<noteq> NULL" and "fl AND O_EXCL \<noteq> 0"
  shows "\<exists>t. lzfw_openat E cr p nm fl m s = (EEXIST, None, t) \<and> w_readers t = w_readers s + 1
    \<and> w_holds t = bump (r_vn l) 1 (w_holds s)"
  using assms by (cases "lzwu_flags2zfs fl") (simp add: lzfw_openat_def machine_defs)

theorem lzfw_openat_excl_stays_witness:
  "\<exists>t. lzfw_openat (table_env (\<lambda>_. plain_answer)) root_cred 4 ''f'' (O_CREAT OR O_EXCL) 0 idle_state = (EEXIST, None, t)
    \<and> w_readers t = 1"
proof -
  have "\<exists>t. lzfw_openat (table_env (\<lambda>_. plain_answer)) root_cred 4 ''f'' (O_CREAT OR O_EXCL) 0 idle_state = (EEXIST, None, t)
    \<and> w_readers t = w_readers idle_state + 1 \<and> w_holds t = bump (r_vn plain_answer) 1 (w_holds idle_state)"
    by (rule lzfw_openat_excl_stays)
      (simp_all add: table_env_def plain_answer_def idle_state_def O_CREAT_def O_EXCL_def)
  then show ?thesis
    by (auto simp: idle_state_def)
qed








end
