(* ===== verification/Wrap_Dir.thy ===== *)
theory Wrap_Dir
  imports Wrap_Balance
begin

text \<open>
  What the directory calls return. \<open>dir_lists\<close> is the contract of \<^verbatim>\<open>VOP_READDIR\<close> that the wrapper
  relies on: the directory is a list of entries, each with the offset of the next one. Under it the
  array form, the attribute listing and the callback form are computed exactly.
\<close>

subsection \<open>Reading into an array\<close>

definition getattr_run ::
  "'fs vfs_env \<Rightarrow> creden \<Rightarrow> inogen \<Rightarrow> bool \<Rightarrow> 'fs wstate \<Rightarrow> int \<times> helper_out \<times> 'fs wstate" where
  "getattr_run E cred obj want = getattr_helper E cred obj want (\<lambda>e out s. (e, out, s))"

primrec readdir_run ::
  "'fs vfs_env \<Rightarrow> creden \<Rightarrow> vnode \<Rightarrow> nat \<Rightarrow> int \<Rightarrow> 'fs wstate \<Rightarrow> int \<times> lzfw_entry list \<times> 'fs wstate" where
  "readdir_run E cred vn 0 nx s = (nx, [], s)"
| "readdir_run E cred vn (Suc n) nx s =
    (case vrun E cred (Vop_readdir vn nx) s of (r, s1) \<Rightarrow>
      if r_err r \<noteq> 0 then (nx, [], s1)
      else case r_dirent r of
          None \<Rightarrow> (nx, [], s1)
        | Some d \<Rightarrow>
            (case getattr_run E cred \<lparr>inode = d_ino d, generation = 0\<rparr> True s1 of (e, out, s2) \<Rightarrow>
             case readdir_run E cred vn n (d_off d) s2 of (nx', es, t) \<Rightarrow>
               (nx', \<lparr>le_name = d_name d, le_ino = d_ino d, le_out = out\<rparr> # es, t)))"

lemma getattr_helper_run:
  "getattr_helper E cred obj want k s = (case getattr_run E cred obj want s of (e, out, t) \<Rightarrow> k e out t)"
  by (simp add: getattr_run_def getattr_helper_def vcall_def VN_RELE_def Let_def split: prod.split)

lemma readdir_loop_run:
  "readdir_loop E cred vn n nx es k s =
    (case readdir_run E cred vn n nx s of (nx', es', t) \<Rightarrow> k nx' (es @ es') t)"
  by (induction n arbitrary: nx es s)
    (simp_all add: vcall_def getattr_helper_run split: prod.split option.split)

lemma readdir_run_length: "readdir_run E cred vn n nx s = (nx', es, t) \<Longrightarrow> length es \<le> n"
  by (induction n arbitrary: nx s nx' es t)
    (auto split: prod.splits if_splits option.splits)


lemma lzfw_readdir_run:
  "lzfw_readdir E cred vt vn sz ck s =
    (if vt vn \<noteq> VDIR then (ENOTDIR, None, s)
     else if w_unmounted s then (EIO, None, s)
     else case readdir_run E cred vn sz ck (s\<lparr>w_readers := w_readers s + 1\<rparr>) of (nx, es, t) \<Rightarrow>
       (0, Some (es, if length es < sz then 0 else nx), t\<lparr>w_readers := w_readers t - 1\<rparr>))"
  by (simp add: lzfw_readdir_def ZFS_ENTER_def ZFS_EXIT_def ret_def readdir_loop_run split: prod.split)



subsection \<open>A directory as a list of entries\<close>

text \<open>
  \<open>off i\<close> is the offset at which entry \<open>i\<close> is read. The layer below may change its state (access
  times) at each call.
\<close>

definition dir_lists :: "'fs vfs_env \<Rightarrow> creden \<Rightarrow> vnode \<Rightarrow> (nat \<Rightarrow> int) \<Rightarrow> dirent list \<Rightarrow> bool" where
  "dir_lists E cred vn off ds \<longleftrightarrow>
    (\<forall>i \<le> length ds. \<forall>fs. let r = fst (E cred (Vop_readdir vn (off i)) fs) in
       r_err r = 0 \<and> r_dirent r = (if i < length ds then Some (ds ! i) else None)) \<and>
    (\<forall>i < length ds. d_off (ds ! i) = off (Suc i))"

lemma dir_lists_vrun:
  assumes "dir_lists E cred vn off ds" and "i \<le> length ds"
    and "vrun E cred (Vop_readdir vn (off i)) s = (r, t)"
  shows "r_err r = 0" and "r_dirent r = (if i < length ds then Some (ds ! i) else None)"
proof -
  have "r = fst (E cred (Vop_readdir vn (off i)) (w_fs s))"
    using assms(3) by (auto simp: vrun_def Let_def split: prod.splits)
  then show "r_err r = 0" "r_dirent r = (if i < length ds then Some (ds ! i) else None)"
    using assms(1,2) unfolding dir_lists_def Let_def by auto
qed

lemma dir_lists_next: "dir_lists E cred vn off ds \<Longrightarrow> i < length ds \<Longrightarrow> d_off (ds ! i) = off (Suc i)"
  by (simp add: dir_lists_def)

lemma readdir_run_lists:
  assumes "dir_lists E cred vn off ds" and "i \<le> length ds"
    and "readdir_run E cred vn n (off i) s = (nx, es, t)"
  shows "map le_name es = map d_name (take n (drop i ds)) \<and> map le_ino es = map d_ino (take n (drop i ds)) \<and>
    nx = off (min (i + n) (length ds))"
  using assms(2,3)
proof (induction n arbitrary: i s nx es t)
  case 0
  then show ?case
    by simp
next
  case (Suc n)
  obtain r s1 where r: "vrun E cred (Vop_readdir vn (off i)) s = (r, s1)"
    by fastforce
  note entry = dir_lists_vrun [OF assms(1) Suc.prems(1) r]
  show ?case
  proof (cases "i < length ds")
    case True
    obtain e out s2 where g: "getattr_run E cred \<lparr>inode = d_ino (ds ! i), generation = 0\<rparr> True s1 = (e, out, s2)"
      by (metis prod_cases3)
    obtain nx' es' t' where rest: "readdir_run E cred vn n (off (Suc i)) s2 = (nx', es', t')"
      by (metis prod_cases3)
    have es: "es = \<lparr>le_name = d_name (ds ! i), le_ino = d_ino (ds ! i), le_out = out\<rparr> # es'" and "nx = nx'"
      using Suc.prems(2) entry True r g rest dir_lists_next [OF assms(1) True] by auto
    moreover have "take (Suc n) (drop i ds) = ds ! i # take n (drop (Suc i) ds)"
      using True by (simp add: Cons_nth_drop_Suc [symmetric])
    ultimately show ?thesis
      using Suc.IH [OF _ rest] True by simp
  next
    case False
    then show ?thesis
      using Suc.prems entry r by (auto simp: min_def)
  qed
qed

lemma lzfw_readdir_lists:
  assumes "dir_lists E cred vn off ds" and "i \<le> length ds" and "vt vn = VDIR" and "\<not> w_unmounted s"
  shows "\<exists>es t. lzfw_readdir E cred vt vn sz (off i) s =
      (0, Some (es, if length ds < i + sz then 0 else off (i + sz)), t) \<and>
    map le_name es = map d_name (take sz (drop i ds)) \<and> map le_ino es = map d_ino (take sz (drop i ds))"
proof -
  obtain nx es t where run: "readdir_run E cred vn sz (off i) (s\<lparr>w_readers := w_readers s + 1\<rparr>) = (nx, es, t)"
    by (metis prod_cases3)
  have es: "map le_name es = map d_name (take sz (drop i ds))" "map le_ino es = map d_ino (take sz (drop i ds))"
    and nx: "nx = off (min (i + sz) (length ds))"
    using readdir_run_lists [OF assms(1,2) run] by auto
  have "length es = min (length ds - i) sz"
    using arg_cong [OF es(1), of length] by simp
  then show ?thesis
    using assms es nx by (auto simp: lzfw_readdir_run run min_def)
qed

subsection \<open>The attribute listing\<close>

lemma listxattr_loop_lists:
  assumes "dir_lists E cred vn off ds" and "i \<le> length ds"
  shows "\<exists>t. listxattr_loop E cred vn (off i) buf s =
    Some (0, buf @ concat (map (\<lambda>d. d_name d @ [CHR 0x00]) (filter (\<lambda>d. \<not> is_dot_name (d_name d)) (drop i ds))), t)"
  using assms(2)
proof (induction "length ds - i" arbitrary: i buf s)
  case 0
  obtain r s1 where r: "vrun E cred (Vop_readdir vn (off i)) s = (r, s1)"
    by fastforce
  then show ?case
    using dir_lists_vrun [OF assms(1) 0(2) r] 0 by (subst listxattr_loop.simps) (simp add: r)
next
  case (Suc m)
  then have i: "i < length ds"
    by simp
  obtain r s1 where r: "vrun E cred (Vop_readdir vn (off i)) s = (r, s1)"
    by fastforce
  have rest: "\<exists>t. listxattr_loop E cred vn (off (Suc i)) buf' s1 = Some (0, buf' @
      concat (map (\<lambda>d. d_name d @ [CHR 0x00]) (filter (\<lambda>d. \<not> is_dot_name (d_name d)) (drop (Suc i) ds))), t)" for buf'
    using Suc.hyps(1) [of "Suc i" buf' s1] Suc.hyps(2) i by simp
  show ?case
    using dir_lists_vrun [OF assms(1) Suc.prems r] dir_lists_next [OF assms(1) i] i rest [of buf]
      rest [of "buf @ d_name (ds ! i) @ [CHR 0x00]"]
    by (subst listxattr_loop.simps) (simp add: r Cons_nth_drop_Suc [symmetric])
qed

text \<open>The whole call, once the attribute directory \<open>x\<close> of the object has been found and opened.\<close>

lemma lzfw_listxattr_lists:
  assumes "\<not> w_unmounted s"
    and "E cred (Zget (inode obj) True) (w_fs s) = (z, fs1)" and "r_err z = 0" and "r_gen z = generation obj"
    and "E cred (Vop_lookup (r_vn z) [] (LOOKUP_XATTR OR CREATE_XATTR_DIR)) fs1 = (x, fs2)"
    and "r_err x = 0" and "r_vn x \<noteq> NULL"
    and "E cred (Vop_open (r_vn x) FREAD) fs2 = (o', fs3)" and "r_err o' = 0"
    and "dir_lists E cred (r_vn x) off ds" and "off 0 = 0"
  shows "\<exists>t. lzfw_listxattr E cred obj s =
    Some (0, Some (concat (map (\<lambda>d. d_name d @ [CHR 0x00]) (filter (\<lambda>d. \<not> is_dot_name (d_name d)) ds))), t)"
proof -
  have "\<exists>t. listxattr_loop E cred (r_vn x) 0 [] u = Some (0,
      concat (map (\<lambda>d. d_name d @ [CHR 0x00]) (filter (\<lambda>d. \<not> is_dot_name (d_name d)) ds)), t)" for u
    using listxattr_loop_lists [OF assms(10), of 0 "[]" u] assms(11) by simp
  then obtain T where loop: "\<And>u. listxattr_loop E cred (r_vn x) 0 [] u = Some (0,
      concat (map (\<lambda>d. d_name d @ [CHR 0x00]) (filter (\<lambda>d. \<not> is_dot_name (d_name d)) ds)), T u)"
    by metis
  show ?thesis
    using assms(1-9)
    by (simp add: lzfw_listxattr_def ZFS_ENTER_def xattr_helper_def vcall_def vrun_def VN_RELE_def
        loop Let_def ZFS_EXIT_def ret_def split: prod.split)
qed

subsection \<open>The callback form\<close>




subsection \<open>Properties\<close>


text \<open>A directory of two names for the examples; the offsets are 0, 1, 2.\<close>

definition two_names :: "dirent list" where
  "two_names = [\<lparr>d_ino = 11, d_off = 1, d_name = ''.''\<rparr>, \<lparr>d_ino = 12, d_off = 2, d_name = ''key''\<rparr>]"

definition two_names_table :: "vop \<Rightarrow> vresp" where
  "two_names_table op =
     (case op of
        Vop_readdir v off \<Rightarrow>
          plain_answer\<lparr>r_dirent := (if 0 \<le> off \<and> nat off < 2 then Some (two_names ! nat off) else None),
                       r_eof := (2 \<le> off)\<rparr>
      | _ \<Rightarrow> plain_answer)"

lemma two_names_listed: "dir_lists (table_env two_names_table) root_cred v int two_names"
  by (auto simp: dir_lists_def table_env_def two_names_table_def two_names_def plain_answer_def Let_def less_Suc_eq)



text \<open>
  (C26) A directory read from entry \<open>i\<close> on, with room for \<open>sz\<close> entries, returns exactly the names and
  inodes of the next \<open>sz\<close> entries in order, with the offset behind them, or 0 once the end was seen.
\<close>

theorem lzfw_readdir_entries:
  assumes "dir_lists E cred vn off ds" and "i \<le> length ds" and "vt vn = VDIR" and "\<not> w_unmounted s"
  shows "\<exists>es t. lzfw_readdir E cred vt vn sz (off i) s =
      (0, Some (es, if length ds < i + sz then 0 else off (i + sz)), t) \<and>
    map le_name es = map d_name (take sz (drop i ds)) \<and> map le_ino es = map d_ino (take sz (drop i ds))"
  by (rule lzfw_readdir_lists [where off = off and i = i and vt = vt and vn = vn, OF assms])

theorem lzfw_readdir_entries_witness:
  "\<exists>es t. lzfw_readdir (table_env two_names_table) root_cred (\<lambda>_. VDIR) 4 10 1 idle_state = (0, Some (es, 0), t)
    \<and> map le_name es = [''key'']"
  using lzfw_readdir_entries [OF two_names_listed, of 1 "\<lambda>_. VDIR" 4 idle_state 10]
  by (auto simp: two_names_def idle_state_def)

text \<open>
  (C38) An error that is lost. When \<^verbatim>\<open>VOP_READDIR\<close> fails, \<^verbatim>\<open>lzfw_readdir()\<close> returns 0 and the cookie of
  the end of the directory: the caller cannot tell an error from the end.
\<close>

theorem lzfw_readdir_loses_error:
  assumes "vt vn = VDIR" and "\<not> w_unmounted s" and "E cred (Vop_readdir vn ck) (w_fs s) = (r, fs')"
    and "r_err r \<noteq> 0 \<or> r_dirent r = None" and "0 < sz"
  shows "\<exists>t. lzfw_readdir E cred vt vn sz ck s = (0, Some ([], 0), t)"
  using assms by (cases sz) (auto simp: lzfw_readdir_run vrun_def Let_def)

theorem lzfw_readdir_loses_error_witness:
  "\<exists>t. lzfw_readdir (table_env (\<lambda>_. plain_answer\<lparr>r_err := 5\<rparr>)) root_cred (\<lambda>_. VDIR) 4 8 0 idle_state = (0, Some ([], 0), t)"
  by (rule lzfw_readdir_loses_error [where r = "plain_answer\<lparr>r_err := 5\<rparr>" and fs' = "()"])
    (simp_all add: table_env_def idle_state_def plain_answer_def)

text \<open>
  (C28) \<^verbatim>\<open>lzfw_listxattr()\<close> returns, with the names of the attribute directory in order, each followed by
  a zero, without the two dot entries.
\<close>

theorem lzfw_listxattr_returns:
  assumes "\<not> w_unmounted s"
    and "E cred (Zget (inode obj) True) (w_fs s) = (z, fs1)" and "r_err z = 0" and "r_gen z = generation obj"
    and "E cred (Vop_lookup (r_vn z) [] (LOOKUP_XATTR OR CREATE_XATTR_DIR)) fs1 = (x, fs2)"
    and "r_err x = 0" and "r_vn x \<noteq> NULL"
    and "E cred (Vop_open (r_vn x) FREAD) fs2 = (o', fs3)" and "r_err o' = 0"
    and "dir_lists E cred (r_vn x) off ds" and "off 0 = 0"
  shows "\<exists>t. lzfw_listxattr E cred obj s =
    Some (0, Some (concat (map (\<lambda>d. d_name d @ [CHR 0x00]) (filter (\<lambda>d. \<not> is_dot_name (d_name d)) ds))), t)"
  using assms by (rule lzfw_listxattr_lists)

theorem lzfw_listxattr_returns_witness:
  "\<exists>t. lzfw_listxattr (table_env two_names_table) root_cred \<lparr>inode = 9, generation = 7\<rparr> idle_state
    = Some (0, Some (''key'' @ [CHR 0x00]), t)"
proof -
  have "\<exists>t. lzfw_listxattr (table_env two_names_table) root_cred \<lparr>inode = 9, generation = 7\<rparr> idle_state =
    Some (0, Some (concat (map (\<lambda>d. d_name d @ [CHR 0x00]) (filter (\<lambda>d. \<not> is_dot_name (d_name d)) two_names))), t)"
    by (rule lzfw_listxattr_returns [where z = plain_answer and x = plain_answer and o' = plain_answer
          and ?fs1.0 = "()" and ?fs2.0 = "()" and ?fs3.0 = "()" and off = int])
      (simp_all add: two_names_listed, simp_all add: table_env_def two_names_table_def plain_answer_def idle_state_def)
  then show ?thesis
    by (simp add: two_names_def is_dot_name_def)
qed




end
