(* ===== verification/Avl_Heap.thy ===== *)
theory Avl_Heap
  imports Avl_Spec
begin

text \<open>
  \<^verbatim>\<open>lib/libavl/avl.c\<close> at the level of its pointers: nodes in a heap addressed by 64-bit words, with
  the parent pointer, the child index and the balance packed into one word as on 64-bit machines.
  Child indices are booleans, \<open>False\<close> for 0. Loops are partial functions: \<open>None\<close> is a loop that does
  not end.
\<close>

record avl_node =
  avl_child :: "bool \<Rightarrow> u64"
  avl_pcb :: u64

record avl_tree =
  avl_root :: u64
  avl_compar :: "u64 \<Rightarrow> u64 \<Rightarrow> int"
  avl_offset :: u64
  avl_numnodes :: u64
  avl_size :: u64

type_synonym heap = "u64 \<Rightarrow> avl_node"

subsection \<open>Access macros\<close>

definition AVL_XPARENT :: "avl_node \<Rightarrow> u64" where
  "AVL_XPARENT n = avl_pcb n AND NOT 7"

definition AVL_SETPARENT :: "u64 \<Rightarrow> avl_node \<Rightarrow> avl_node" where
  "AVL_SETPARENT p n = n\<lparr>avl_pcb := (avl_pcb n AND 7) OR p\<rparr>"

definition AVL_XCHILD :: "avl_node \<Rightarrow> bool" where
  "AVL_XCHILD n \<longleftrightarrow> drop_bit 2 (avl_pcb n) AND 1 = 1"

definition AVL_SETCHILD :: "bool \<Rightarrow> avl_node \<Rightarrow> avl_node" where
  "AVL_SETCHILD c n = n\<lparr>avl_pcb := (avl_pcb n AND NOT 4) OR push_bit 2 (of_bool c)\<rparr>"

definition AVL_XBALANCE :: "avl_node \<Rightarrow> int" where
  "AVL_XBALANCE n = sint (ucast ((avl_pcb n AND 3) - 1) :: u32)"

definition AVL_SETBALANCE :: "int \<Rightarrow> avl_node \<Rightarrow> avl_node" where
  "AVL_SETBALANCE b n = n\<lparr>avl_pcb := (avl_pcb n AND NOT 3) OR of_int (b + 1)\<rparr>"

definition AVL_NODE2DATA :: "u64 \<Rightarrow> u64 \<Rightarrow> u64" where
  "AVL_NODE2DATA n off = n - off"

definition AVL_DATA2NODE :: "u64 \<Rightarrow> u64 \<Rightarrow> u64" where
  "AVL_DATA2NODE d off = d + off"

definition AVL_INDEX2NODE :: "u64 \<Rightarrow> u64" where
  "AVL_INDEX2NODE x = x AND NOT 1"

definition AVL_INDEX2CHILD :: "u64 \<Rightarrow> bool" where
  "AVL_INDEX2CHILD x \<longleftrightarrow> x AND 1 = 1"

definition AVL_MKINDEX :: "u64 \<Rightarrow> bool \<Rightarrow> u64" where
  "AVL_MKINDEX n c = n OR of_bool c"

definition avl_child2balance :: "bool \<Rightarrow> int" where
  "avl_child2balance c = (if c then 1 else - 1)"

text \<open>The table has three entries; the code reads it at one more than a balance or difference.\<close>

definition avl_balance2child :: "int \<Rightarrow> bool outcome" where
  "avl_balance2child i = (if i = 0 \<or> i = 1 then Inr False else if i = 2 then Inr True else Inl Bad_access)"

text \<open>Assignments through a pointer.\<close>

definition set_child :: "bool \<Rightarrow> u64 \<Rightarrow> avl_node \<Rightarrow> avl_node" where
  "set_child d p n = n\<lparr>avl_child := (avl_child n)(d := p)\<rparr>"

definition upd :: "u64 \<Rightarrow> (avl_node \<Rightarrow> avl_node) \<Rightarrow> heap \<Rightarrow> heap" where
  "upd a f h = h(a := f (h a))"

subsection \<open>Searching and walking\<close>

text \<open>\<^verbatim>\<open>for (; node->avl_child[d] != NULL; node = node->avl_child[d]);\<close>\<close>

partial_function (option) avl_descend :: "heap \<Rightarrow> bool \<Rightarrow> u64 \<Rightarrow> u64 option" where
  "avl_descend h d node =
     (if avl_child (h node) d \<noteq> 0 then avl_descend h d (avl_child (h node) d) else Some node)"

partial_function (option) avl_ascend :: "heap \<Rightarrow> bool \<Rightarrow> u64 \<Rightarrow> u64 option" where
  "avl_ascend h right node =
    (let was_child = AVL_XCHILD (h node); node = AVL_XPARENT (h node)
     in if node = 0 then Some 0
        else if was_child = right then Some node
        else avl_ascend h right node)"

definition avl_walk :: "avl_tree \<Rightarrow> heap \<Rightarrow> u64 \<Rightarrow> bool \<Rightarrow> u64 option" where
  "avl_walk tree h oldnode left =
    (let off = avl_offset tree; node = AVL_DATA2NODE oldnode off; right = (\<not> left)
     in if node = 0 then Some 0
        else if avl_child (h node) left \<noteq> 0
        then map_option (\<lambda>n. AVL_NODE2DATA n off) (avl_descend h right (avl_child (h node) left))
        else map_option (\<lambda>n. if n = 0 then 0 else AVL_NODE2DATA n off) (avl_ascend h right node))"

partial_function (option) avl_end_loop :: "heap \<Rightarrow> bool \<Rightarrow> u64 \<Rightarrow> u64 \<Rightarrow> u64 option" where
  "avl_end_loop h d node prev =
     (if node \<noteq> 0 then avl_end_loop h d (avl_child (h node) d) node else Some prev)"

definition avl_first :: "avl_tree \<Rightarrow> heap \<Rightarrow> u64 option" where
  "avl_first tree h =
     map_option (\<lambda>prev. if prev \<noteq> 0 then AVL_NODE2DATA prev (avl_offset tree) else 0)
       (avl_end_loop h False (avl_root tree) 0)"

definition avl_last :: "avl_tree \<Rightarrow> heap \<Rightarrow> u64 option" where
  "avl_last tree h =
     map_option (\<lambda>prev. if prev \<noteq> 0 then AVL_NODE2DATA prev (avl_offset tree) else 0)
       (avl_end_loop h True (avl_root tree) 0)"

definition avl_nearest :: "avl_tree \<Rightarrow> heap \<Rightarrow> u64 \<Rightarrow> bool \<Rightarrow> u64 option" where
  "avl_nearest tree h where_idx direction =
    (let child = AVL_INDEX2CHILD where_idx; node = AVL_INDEX2NODE where_idx
     in if node = 0 then Some 0
        else let data = AVL_NODE2DATA node (avl_offset tree)
     in if child \<noteq> direction then Some data else avl_walk tree h data direction)"

text \<open>The result is the data found, or the place to insert (with no data).\<close>

partial_function (option) avl_find_loop ::
  "avl_tree \<Rightarrow> heap \<Rightarrow> u64 \<Rightarrow> u64 \<Rightarrow> u64 \<Rightarrow> bool \<Rightarrow> (u64 + u64) outcome option" where
  "avl_find_loop tree h val node prev child =
    (if node \<noteq> 0
     then let prev = node; diff = avl_compar tree val (AVL_NODE2DATA node (avl_offset tree))
          in if diff = 0 then Some (Inr (Inl (AVL_NODE2DATA node (avl_offset tree))))
             else case avl_balance2child (1 + diff) of
                 Inl p \<Rightarrow> Some (Inl p)
               | Inr child \<Rightarrow> avl_find_loop tree h val (avl_child (h node) child) prev child
     else Some (Inr (Inr (AVL_MKINDEX prev child))))"

definition avl_find :: "avl_tree \<Rightarrow> heap \<Rightarrow> u64 \<Rightarrow> (u64 + u64) outcome option" where
  "avl_find tree h val = avl_find_loop tree h val (avl_root tree) 0 False"

subsection \<open>Rotation\<close>

text \<open>\<^verbatim>\<open>parent->avl_child[which_child] = node\<close>, or the root.\<close>

definition set_link :: "u64 \<Rightarrow> bool \<Rightarrow> u64 \<Rightarrow> avl_tree \<times> heap \<Rightarrow> avl_tree \<times> heap" where
  "set_link parent which_child node = (\<lambda>(tree, h).
     if parent \<noteq> 0 then (tree, upd parent (set_child which_child node) h)
     else (tree\<lparr>avl_root := node\<rparr>, h))"

definition avl_rotation :: "avl_tree \<Rightarrow> heap \<Rightarrow> u64 \<Rightarrow> int \<Rightarrow> avl_tree \<times> heap \<times> bool" where
  "avl_rotation tree h node balance =
    (let left = (\<not> balance < 0); right = (\<not> left);
         left_heavy = balance div 2; right_heavy = - left_heavy;
         parent = AVL_XPARENT (h node);
         child = avl_child (h node) left;
         which_child = AVL_XCHILD (h node);
         child_bal = AVL_XBALANCE (h child)
     in if child_bal \<noteq> right_heavy
        then
          let child_bal = child_bal + right_heavy;
              cright = avl_child (h child) right;
              h = upd node (set_child left cright) h;
              h = (if cright \<noteq> 0
                   then upd cright (AVL_SETCHILD left) (upd cright (AVL_SETPARENT node) h) else h);
              h = upd child (set_child right node) h;
              h = upd node (AVL_SETBALANCE (- child_bal)) h;
              h = upd node (AVL_SETCHILD right) h;
              h = upd node (AVL_SETPARENT child) h;
              h = upd child (AVL_SETBALANCE child_bal) h;
              h = upd child (AVL_SETCHILD which_child) h;
              h = upd child (AVL_SETPARENT parent) h;
              (tree, h) = set_link parent which_child child (tree, h)
          in (tree, h, child_bal = 0)
        else
          let gchild = avl_child (h child) right;
              gleft = avl_child (h gchild) left;
              gright = avl_child (h gchild) right;
              h = upd node (set_child left gright) h;
              h = (if gright \<noteq> 0
                   then upd gright (AVL_SETCHILD left) (upd gright (AVL_SETPARENT node) h) else h);
              h = upd child (set_child right gleft) h;
              h = (if gleft \<noteq> 0
                   then upd gleft (AVL_SETCHILD right) (upd gleft (AVL_SETPARENT child) h) else h);
              balance = AVL_XBALANCE (h gchild);
              h = upd gchild (set_child left child) h;
              h = upd child (AVL_SETBALANCE (if balance = right_heavy then left_heavy else 0)) h;
              h = upd child (AVL_SETPARENT gchild) h;
              h = upd child (AVL_SETCHILD left) h;
              h = upd gchild (set_child right node) h;
              h = upd node (AVL_SETBALANCE (if balance = left_heavy then right_heavy else 0)) h;
              h = upd node (AVL_SETPARENT gchild) h;
              h = upd node (AVL_SETCHILD right) h;
              h = upd gchild (AVL_SETBALANCE 0) h;
              h = upd gchild (AVL_SETPARENT parent) h;
              h = upd gchild (AVL_SETCHILD which_child) h;
              (tree, h) = set_link parent which_child gchild (tree, h)
          in (tree, h, True))"

subsection \<open>Insertion\<close>

partial_function (option) avl_insert_loop ::
  "avl_tree \<Rightarrow> heap \<Rightarrow> u64 \<Rightarrow> bool \<Rightarrow> (avl_tree \<times> heap) option" where
  "avl_insert_loop tree h parent which_child =
    (let node = parent
     in if node = 0 then Some (tree, h)
        else let old_balance = AVL_XBALANCE (h node);
                 new_balance = old_balance + avl_child2balance which_child
     in if new_balance = 0 then Some (tree, upd node (AVL_SETBALANCE 0) h)
        else if old_balance \<noteq> 0
        then let (tree, h, shorter) = avl_rotation tree h node new_balance in Some (tree, h)
        else let h = upd node (AVL_SETBALANCE new_balance) h
     in avl_insert_loop tree h (AVL_XPARENT (h node)) (AVL_XCHILD (h node)))"

definition avl_insert :: "avl_tree \<Rightarrow> heap \<Rightarrow> u64 \<Rightarrow> u64 \<Rightarrow> (avl_tree \<times> heap) option" where
  "avl_insert tree h new_data where_idx =
    (let parent = AVL_INDEX2NODE where_idx; which_child = AVL_INDEX2CHILD where_idx;
         node = AVL_DATA2NODE new_data (avl_offset tree);
         tree = tree\<lparr>avl_numnodes := avl_numnodes tree + 1\<rparr>;
         h = upd node (set_child False 0) h;
         h = upd node (set_child True 0) h;
         h = upd node (AVL_SETCHILD which_child) h;
         h = upd node (AVL_SETBALANCE 0) h;
         h = upd node (AVL_SETPARENT parent) h;
         (tree, h) = set_link parent which_child node (tree, h)
     in avl_insert_loop tree h parent which_child)"

definition avl_insert_here :: "avl_tree \<Rightarrow> heap \<Rightarrow> u64 \<Rightarrow> u64 \<Rightarrow> bool \<Rightarrow> (avl_tree \<times> heap) option" where
  "avl_insert_here tree h new_data here direction =
    (let child = direction; node = AVL_DATA2NODE here (avl_offset tree)
     in if avl_child (h node) child \<noteq> 0
        then Option.bind (avl_descend h (\<not> child) (avl_child (h node) child)) (\<lambda>node.
             avl_insert tree h new_data (AVL_MKINDEX node (\<not> child)))
        else avl_insert tree h new_data (AVL_MKINDEX node child))"

text \<open>
  A node that is already there only trips an \<^verbatim>\<open>ASSERT\<close> in user space: with it compiled out, the code
  goes on with the \<^verbatim>\<open>where\<close> that \<^verbatim>\<open>avl_find()\<close> left unset. \<open>junk\<close> is that stack word.
\<close>

definition avl_add :: "avl_tree \<Rightarrow> heap \<Rightarrow> u64 \<Rightarrow> u64 \<Rightarrow> (avl_tree \<times> heap) outcome option" where
  "avl_add tree h junk new_node =
     Option.bind (avl_find tree h new_node) (\<lambda>r.
       case r of
         Inl p \<Rightarrow> Some (Inl p)
       | Inr found \<Rightarrow>
           let where_idx = (case found of Inl data \<Rightarrow> junk | Inr w \<Rightarrow> w)
           in map_option Inr (avl_insert tree h new_node where_idx))"

subsection \<open>Removal\<close>

text \<open>
  \<open>tmp\<close> is the address of the place holder on the stack. The first half moves the neighbour to the
  place of a node with two children, the second unlinks the node, the loop restores the balance.
\<close>

definition avl_remove_swap :: "avl_tree \<Rightarrow> heap \<Rightarrow> u64 \<Rightarrow> u64 \<Rightarrow> (avl_tree \<times> heap \<times> u64) outcome option" where
  "avl_remove_swap tree h tmp delete =
    (if avl_child (h delete) False \<noteq> 0 \<and> avl_child (h delete) True \<noteq> 0
     then case avl_balance2child (AVL_XBALANCE (h delete) + 1) of
         Inl p \<Rightarrow> Some (Inl p)
       | Inr left \<Rightarrow>
           let right = (\<not> left)
           in map_option (\<lambda>node.
             let h = h(tmp := h node);
                 h = h(node := h delete);
                 h = (if avl_child (h node) left = node then upd node (set_child left tmp) h else h);
                 parent = AVL_XPARENT (h node);
                 (tree, h) = set_link parent (AVL_XCHILD (h node)) node (tree, h);
                 h = upd (avl_child (h node) left) (AVL_SETPARENT node) h;
                 h = upd (avl_child (h node) right) (AVL_SETPARENT node) h;
                 delete = tmp;
                 parent = AVL_XPARENT (h delete);
                 h = upd parent (set_child (AVL_XCHILD (h delete)) delete) h;
                 which_child = (avl_child (h delete) True \<noteq> 0);
                 h = (if avl_child (h delete) which_child \<noteq> 0
                      then upd (avl_child (h delete) which_child) (AVL_SETPARENT delete) h else h)
             in Inr (tree, h, delete)) (avl_descend h right (avl_child (h delete) left))
     else Some (Inr (tree, h, delete)))"

definition avl_unlink :: "avl_tree \<Rightarrow> heap \<Rightarrow> u64 \<Rightarrow> avl_tree \<times> heap \<times> u64 \<times> bool" where
  "avl_unlink tree h delete =
    (let tree = tree\<lparr>avl_numnodes := avl_numnodes tree - 1\<rparr>;
         parent = AVL_XPARENT (h delete);
         which_child = AVL_XCHILD (h delete);
         node = (if avl_child (h delete) False \<noteq> 0 then avl_child (h delete) False
                 else avl_child (h delete) True);
         h = (if node \<noteq> 0
              then upd node (AVL_SETCHILD which_child) (upd node (AVL_SETPARENT parent) h) else h);
         (tree, h) = set_link parent which_child node (tree, h)
     in (tree, h, parent, which_child))"

partial_function (option) avl_remove_loop ::
  "avl_tree \<Rightarrow> heap \<Rightarrow> u64 \<Rightarrow> bool \<Rightarrow> (avl_tree \<times> heap) option" where
  "avl_remove_loop tree h parent which_child =
    (let node = parent;
         old_balance = AVL_XBALANCE (h node);
         new_balance = old_balance - avl_child2balance which_child;
         parent = AVL_XPARENT (h node);
         which_child = AVL_XCHILD (h node)
     in if old_balance = 0 then Some (tree, upd node (AVL_SETBALANCE new_balance) h)
        else if new_balance = 0
        then let h = upd node (AVL_SETBALANCE new_balance) h
             in if parent \<noteq> 0 then avl_remove_loop tree h parent which_child else Some (tree, h)
        else let (tree, h, shorter) = avl_rotation tree h node new_balance
             in if shorter \<and> parent \<noteq> 0 then avl_remove_loop tree h parent which_child
                else Some (tree, h))"

definition avl_remove :: "avl_tree \<Rightarrow> heap \<Rightarrow> u64 \<Rightarrow> u64 \<Rightarrow> (avl_tree \<times> heap) outcome option" where
  "avl_remove tree h tmp data =
     Option.bind (avl_remove_swap tree h tmp (AVL_DATA2NODE data (avl_offset tree))) (\<lambda>r.
       case r of
         Inl p \<Rightarrow> Some (Inl p)
       | Inr (tree, h, delete) \<Rightarrow>
           let (tree, h, parent, which_child) = avl_unlink tree h delete
           in if parent = 0 then Some (Inr (tree, h))
              else map_option Inr (avl_remove_loop tree h parent which_child))"

subsection \<open>Creation and teardown\<close>

definition avl_create :: "(u64 \<Rightarrow> u64 \<Rightarrow> int) \<Rightarrow> u64 \<Rightarrow> u64 \<Rightarrow> avl_tree" where
  "avl_create compar sz offset =
     \<lparr>avl_root = 0, avl_compar = compar, avl_offset = offset, avl_numnodes = 0, avl_size = sz\<rparr>"

definition avl_is_empty :: "avl_tree \<Rightarrow> bool" where
  "avl_is_empty tree \<longleftrightarrow> avl_numnodes tree = 0"

definition CHILDBIT :: u64 where
  "CHILDBIT = 1"

text \<open>The walk to the leftmost descendant, which also keeps the parent.\<close>

partial_function (option) avl_leftmost :: "heap \<Rightarrow> u64 \<Rightarrow> u64 \<Rightarrow> (u64 \<times> u64) option" where
  "avl_leftmost h parent node =
     (if avl_child (h node) False \<noteq> 0 then avl_leftmost h node (avl_child (h node) False)
      else Some (parent, node))"

text \<open>The labels \<^verbatim>\<open>done\<close> and \<^verbatim>\<open>check_right_side\<close>. The results are the data, the cookie and the state.\<close>

definition destroy_done :: "avl_tree \<Rightarrow> heap \<Rightarrow> u64 \<Rightarrow> u64 \<Rightarrow> u64 \<times> u64 \<times> avl_tree \<times> heap" where
  "destroy_done tree h parent node =
     (AVL_NODE2DATA node (avl_offset tree),
      if parent = 0 then CHILDBIT else parent OR of_bool (AVL_XCHILD (h node)), tree, h)"

definition destroy_check_right :: "avl_tree \<Rightarrow> heap \<Rightarrow> u64 \<Rightarrow> u64 \<Rightarrow> u64 \<times> u64 \<times> avl_tree \<times> heap" where
  "destroy_check_right tree h parent node =
     (if avl_child (h node) True \<noteq> 0 then destroy_done tree h node (avl_child (h node) True)
      else destroy_done tree h parent node)"

definition avl_destroy_nodes :: "avl_tree \<Rightarrow> heap \<Rightarrow> u64 \<Rightarrow> (u64 \<times> u64 \<times> avl_tree \<times> heap) option" where
  "avl_destroy_nodes tree h cookie =
    (if cookie = 0
     then Option.bind (avl_first tree h) (\<lambda>first.
          if first = 0 then Some (0, CHILDBIT, tree, h)
          else let node = AVL_DATA2NODE first (avl_offset tree)
               in Some (destroy_check_right tree h (AVL_XPARENT (h node)) node))
     else
       let parent = cookie AND NOT CHILDBIT
       in if parent = 0
          then Some (0, cookie,
                     if avl_root tree \<noteq> 0 then tree\<lparr>avl_root := 0, avl_numnodes := 0\<rparr> else tree, h)
          else
            let child = (cookie AND CHILDBIT = 1);
                h = upd parent (set_child child 0) h;
                tree = tree\<lparr>avl_numnodes := avl_numnodes tree - 1\<rparr>
            in if child \<or> avl_child (h parent) True = 0
               then Some (destroy_done tree h (AVL_XPARENT (h parent)) parent)
               else map_option (\<lambda>(parent, node). destroy_check_right tree h parent node)
                      (avl_leftmost h parent (avl_child (h parent) True)))"

text \<open>
  \<^verbatim>\<open>avl_update()\<close> and its one-sided forms. The first component says whether the node was moved.
\<close>

definition avl_reinsert :: "avl_tree \<Rightarrow> heap \<Rightarrow> u64 \<Rightarrow> u64 \<Rightarrow> u64 \<Rightarrow> (bool \<times> avl_tree \<times> heap) outcome option" where
  "avl_reinsert tree h tmp junk obj =
     Option.bind (avl_remove tree h tmp obj) (\<lambda>r.
       case r of
         Inl p \<Rightarrow> Some (Inl p)
       | Inr (tree, h) \<Rightarrow> map_option (map_sum id (Pair True)) (avl_add tree h junk obj))"

definition avl_update_lt :: "avl_tree \<Rightarrow> heap \<Rightarrow> u64 \<Rightarrow> u64 \<Rightarrow> u64 \<Rightarrow> (bool \<times> avl_tree \<times> heap) outcome option" where
  "avl_update_lt tree h tmp junk obj =
     Option.bind (avl_walk tree h obj False) (\<lambda>neighbor.
       if neighbor \<noteq> 0 \<and> avl_compar tree obj neighbor < 0 then avl_reinsert tree h tmp junk obj
       else Some (Inr (False, tree, h)))"

definition avl_update_gt :: "avl_tree \<Rightarrow> heap \<Rightarrow> u64 \<Rightarrow> u64 \<Rightarrow> u64 \<Rightarrow> (bool \<times> avl_tree \<times> heap) outcome option" where
  "avl_update_gt tree h tmp junk obj =
     Option.bind (avl_walk tree h obj True) (\<lambda>neighbor.
       if neighbor \<noteq> 0 \<and> 0 < avl_compar tree obj neighbor then avl_reinsert tree h tmp junk obj
       else Some (Inr (False, tree, h)))"

definition avl_update :: "avl_tree \<Rightarrow> heap \<Rightarrow> u64 \<Rightarrow> u64 \<Rightarrow> u64 \<Rightarrow> (bool \<times> avl_tree \<times> heap) outcome option" where
  "avl_update tree h tmp junk obj =
     Option.bind (avl_walk tree h obj False) (\<lambda>neighbor.
       if neighbor \<noteq> 0 \<and> avl_compar tree obj neighbor < 0 then avl_reinsert tree h tmp junk obj
       else
         Option.bind (avl_walk tree h obj True) (\<lambda>neighbor.
           if neighbor \<noteq> 0 \<and> 0 < avl_compar tree obj neighbor then avl_reinsert tree h tmp junk obj
           else Some (Inr (False, tree, h))))"

end
