(* ===== verification/Avl_Refine.thy ===== *)
theory Avl_Refine
  imports Avl_Heap
begin

text \<open>
  The pointer routines of \<open>Avl_Heap\<close> implement the abstract trees of \<open>Avl_Tree\<close>.
\<close>

subsection \<open>The packed word\<close>

definition aligned :: "u64 \<Rightarrow> bool" where
  "aligned p \<longleftrightarrow> p AND 7 = 0"

definition balance_ok :: "int \<Rightarrow> bool" where
  "balance_ok b \<longleftrightarrow> b = - 1 \<or> b = 0 \<or> b = 1"

lemma bit_7: "bit (7 :: u64) n \<longleftrightarrow> n < 3"
proof -
  have e: "(7 :: u64) = mask 3" by (simp add: mask_eq_exp_minus_1)
  show ?thesis unfolding e by (auto simp: bit_mask_iff)
qed

lemma bit_3: "bit (3 :: u64) n \<longleftrightarrow> n < 2"
proof -
  have e: "(3 :: u64) = mask 2" by (simp add: mask_eq_exp_minus_1)
  show ?thesis unfolding e by (auto simp: bit_mask_iff)
qed

lemma bit_4: "bit (4 :: u64) n \<longleftrightarrow> n = 2"
proof -
  have e: "(4 :: u64) = 2 ^ 2" by simp
  show ?thesis by (subst e, subst bit_exp_iff) auto
qed

lemma bit_2: "bit (2 :: int) n \<longleftrightarrow> n = 1"
proof -
  have e: "(2 :: int) = 2 ^ 1" by simp
  show ?thesis by (subst e, subst bit_exp_iff) auto
qed

lemma aligned_bit: "aligned p \<longleftrightarrow> (\<forall>n < 3. \<not> bit p n)"
proof
  assume p: "aligned p"
  show "\<forall>n < 3. \<not> bit p n"
    using arg_cong [OF p [unfolded aligned_def], of bit] unfolding fun_eq_iff bit_and_iff bit_7 by auto
next
  assume "\<forall>n < 3. \<not> bit p n"
  then show "aligned p"
    unfolding aligned_def by (intro bit_word_eqI, unfold bit_and_iff bit_7) auto
qed

lemma bit_balance: "balance_ok b \<Longrightarrow> bit (of_int (b + 1) :: u64) n \<Longrightarrow> n < 2"
  by (auto simp: balance_ok_def bit_1_iff bit_2)

lemma avl_pcb_simps:
  "avl_pcb (AVL_SETPARENT p n) = (avl_pcb n AND 7) OR p"
  "avl_pcb (AVL_SETCHILD c n) = (avl_pcb n AND NOT 4) OR push_bit 2 (of_bool c)"
  "avl_pcb (AVL_SETBALANCE b n) = (avl_pcb n AND NOT 3) OR of_int (b + 1)"
  by (simp_all add: AVL_SETPARENT_def AVL_SETCHILD_def AVL_SETBALANCE_def)

lemmas bit_pcb = avl_pcb_simps bit_and_iff bit_or_iff bit_not_iff bit_7 bit_3 bit_4 bit_push_bit_iff bit_of_bool_iff

lemma XPARENT_SETPARENT [simp]: "aligned p \<Longrightarrow> AVL_XPARENT (AVL_SETPARENT p n) = p"
  by (intro bit_word_eqI, unfold AVL_XPARENT_def bit_pcb aligned_bit) (auto)

lemma XPARENT_SETCHILD [simp]: "AVL_XPARENT (AVL_SETCHILD c n) = AVL_XPARENT n"
  by (intro bit_word_eqI, unfold AVL_XPARENT_def bit_pcb) (auto)

lemma XPARENT_SETBALANCE [simp]: "balance_ok b \<Longrightarrow> AVL_XPARENT (AVL_SETBALANCE b n) = AVL_XPARENT n"
  by (intro bit_word_eqI, unfold AVL_XPARENT_def bit_pcb) (auto dest: bit_balance)

lemma aligned_XPARENT [simp]: "aligned (AVL_XPARENT n)"
  by (unfold AVL_XPARENT_def aligned_bit bit_pcb) (auto)

lemma XCHILD_bit: "AVL_XCHILD n \<longleftrightarrow> bit (avl_pcb n) 2"
  by (simp add: AVL_XCHILD_def and_one_eq bit_iff_odd_drop_bit odd_iff_mod_2_eq_one)

lemma XCHILD_SETPARENT [simp]: "aligned p \<Longrightarrow> AVL_XCHILD (AVL_SETPARENT p n) = AVL_XCHILD n"
  by (unfold XCHILD_bit bit_pcb aligned_bit) (auto)

lemma XCHILD_SETCHILD [simp]: "AVL_XCHILD (AVL_SETCHILD c n) = c"
  by (unfold XCHILD_bit bit_pcb) (auto)

lemma XCHILD_SETBALANCE [simp]: "balance_ok b \<Longrightarrow> AVL_XCHILD (AVL_SETBALANCE b n) = AVL_XCHILD n"
  by (unfold XCHILD_bit bit_pcb) (auto dest: bit_balance)

lemma XBALANCE_low: "AVL_XBALANCE n = AVL_XBALANCE m" if "avl_pcb n AND 3 = avl_pcb m AND 3"
  using that by (simp add: AVL_XBALANCE_def)

lemma XBALANCE_SETPARENT [simp]: "aligned p \<Longrightarrow> AVL_XBALANCE (AVL_SETPARENT p n) = AVL_XBALANCE n"
  by (intro XBALANCE_low bit_word_eqI, unfold bit_pcb aligned_bit) (auto)

lemma XBALANCE_SETCHILD [simp]: "AVL_XBALANCE (AVL_SETCHILD c n) = AVL_XBALANCE n"
  by (intro XBALANCE_low bit_word_eqI, unfold bit_pcb) (auto)

lemma XBALANCE_SETBALANCE [simp]:
  assumes "balance_ok b"
  shows "AVL_XBALANCE (AVL_SETBALANCE b n) = b"
proof -
  have "avl_pcb (AVL_SETBALANCE b n) AND 3 = of_int (b + 1)"
    by (intro bit_word_eqI, unfold bit_pcb) (auto dest: bit_balance [OF assms, simplified])
  moreover have "(ucast (- 1 :: u64) :: u32) = - 1"
    by (intro bit_word_eqI) (simp add: bit_ucast_iff)
  ultimately show ?thesis
    using assms by (auto simp: AVL_XBALANCE_def balance_ok_def)
qed

lemma set_child_simps [simp]:
  "AVL_XPARENT (set_child d p n) = AVL_XPARENT n" "AVL_XCHILD (set_child d p n) = AVL_XCHILD n"
  "AVL_XBALANCE (set_child d p n) = AVL_XBALANCE n"
  "avl_child (set_child d p n) = (avl_child n)(d := p)"
  by (simp_all add: set_child_def AVL_XPARENT_def AVL_XCHILD_def AVL_XBALANCE_def)

lemma avl_child_simps [simp]:
  "avl_child (AVL_SETPARENT p n) = avl_child n" "avl_child (AVL_SETCHILD c n) = avl_child n"
  "avl_child (AVL_SETBALANCE b n) = avl_child n"
  by (simp_all add: AVL_SETPARENT_def AVL_SETCHILD_def AVL_SETBALANCE_def)

lemma index2child_bit: "AVL_INDEX2CHILD x \<longleftrightarrow> bit x 0"
  by (simp add: AVL_INDEX2CHILD_def and_one_eq bit_0 odd_iff_mod_2_eq_one)

lemma index_simps [simp]:
  assumes "aligned p"
  shows "AVL_INDEX2NODE (AVL_MKINDEX p c) = p" "AVL_INDEX2CHILD (AVL_MKINDEX p c) = c"
proof -
  show "AVL_INDEX2NODE (AVL_MKINDEX p c) = p"
    using assms by (intro bit_word_eqI, unfold AVL_INDEX2NODE_def AVL_MKINDEX_def bit_pcb aligned_bit bit_1_iff)
      (auto intro!: gr0I)
  show "AVL_INDEX2CHILD (AVL_MKINDEX p c) = c"
    using assms unfolding index2child_bit AVL_MKINDEX_def bit_or_iff aligned_bit by (auto simp: bit_1_iff)
qed

lemma data_node [simp]:
  "AVL_DATA2NODE (AVL_NODE2DATA n off) off = n" "AVL_NODE2DATA (AVL_DATA2NODE d off) off = d"
  by (simp_all add: AVL_DATA2NODE_def AVL_NODE2DATA_def)

lemma balance_ok_simps [simp]: "balance_ok 0" "balance_ok 1" "balance_ok (- 1)"
  by (simp_all add: balance_ok_def)

lemma upd_apply [simp]: "upd a f h b = (if b = a then f (h a) else h b)"
  by (simp add: upd_def)

subsection \<open>Trees and contexts in the heap\<close>

text \<open>
  \<open>tree_at h par ix p t\<close>: the pointer \<open>p\<close>, stored as child \<open>ix\<close> of \<open>par\<close>, leads to the tree of
  node addresses \<open>t\<close>. \<open>ctx_at h root par ix p fs\<close>: the nodes above a hole, whose pointer is \<open>p\<close>.
\<close>

primrec tree_at :: "heap \<Rightarrow> u64 \<Rightarrow> bool \<Rightarrow> u64 \<Rightarrow> u64 atree \<Rightarrow> bool" where
  "tree_at h par ix p Null \<longleftrightarrow> p = 0"
| "tree_at h par ix p (Node l x b r) \<longleftrightarrow>
     p = x \<and> x \<noteq> 0 \<and> aligned x \<and> balance_ok b
     \<and> AVL_XPARENT (h x) = par \<and> AVL_XCHILD (h x) = ix \<and> AVL_XBALANCE (h x) = b
     \<and> tree_at h x False (avl_child (h x) False) l \<and> tree_at h x True (avl_child (h x) True) r"

fun ctx_at :: "heap \<Rightarrow> u64 \<Rightarrow> u64 \<Rightarrow> bool \<Rightarrow> u64 \<Rightarrow> u64 frame list \<Rightarrow> bool" where
  "ctx_at h root par ix p [] \<longleftrightarrow> par = 0 \<and> root = p"
| "ctx_at h root par ix p ((d, x, b, s) # fs) \<longleftrightarrow>
     par = x \<and> x \<noteq> 0 \<and> aligned x \<and> balance_ok b \<and> ix = d
     \<and> AVL_XBALANCE (h x) = b \<and> avl_child (h x) d = p
     \<and> tree_at h x (\<not> d) (avl_child (h x) (\<not> d)) s
     \<and> ctx_at h root (AVL_XPARENT (h x)) (AVL_XCHILD (h x)) x fs"

abbreviation ctx_nodes :: "'a frame list \<Rightarrow> 'a set" where
  "ctx_nodes fs \<equiv> set (lefts fs) \<union> set (rights fs)"

abbreviation nodes :: "'a atree \<Rightarrow> 'a set" where
  "nodes t \<equiv> set (inorder t)"

lemma tree_at_mk:
  "tree_at h par ix p (mk d c x b s) \<longleftrightarrow>
     p = x \<and> x \<noteq> 0 \<and> aligned x \<and> balance_ok b
     \<and> AVL_XPARENT (h x) = par \<and> AVL_XCHILD (h x) = ix \<and> AVL_XBALANCE (h x) = b
     \<and> tree_at h x d (avl_child (h x) d) c \<and> tree_at h x (\<not> d) (avl_child (h x) (\<not> d)) s"
  by (auto simp: mk_def)

lemma tree_at_0 [simp]: "tree_at h par ix 0 t \<longleftrightarrow> t = Null"
  by (cases t) auto

lemma tree_at_nonzero: "tree_at h par ix p t \<Longrightarrow> p = 0 \<longleftrightarrow> t = Null"
  by (cases t) auto

lemma tree_at_nodes: "tree_at h par ix p t \<Longrightarrow> a \<in> nodes t \<Longrightarrow> a \<noteq> 0 \<and> aligned a"
  by (induction t arbitrary: par ix p) auto

lemma tree_at_root: "tree_at h par ix p t \<Longrightarrow> p \<noteq> 0 \<Longrightarrow> p \<in> nodes t"
  by (cases t) auto

lemma tree_at_cong:
  "(\<And>a. a \<in> nodes t \<Longrightarrow> h' a = h a) \<Longrightarrow> tree_at h' par ix p t \<longleftrightarrow> tree_at h par ix p t"
  by (induction t arbitrary: par ix p) auto

text \<open>A subtree whose root gets another parent or child index.\<close>

lemma tree_at_move:
  assumes "tree_at h par ix p t" "distinct (inorder t)"
    and "\<And>a. a \<in> nodes t \<Longrightarrow> a \<noteq> p \<Longrightarrow> h' a = h a"
    and "p \<noteq> 0 \<Longrightarrow> AVL_XPARENT (h' p) = par'" "p \<noteq> 0 \<Longrightarrow> AVL_XCHILD (h' p) = ix'"
    and "p \<noteq> 0 \<Longrightarrow> AVL_XBALANCE (h' p) = AVL_XBALANCE (h p)"
    and "p \<noteq> 0 \<Longrightarrow> avl_child (h' p) = avl_child (h p)"
  shows "tree_at h' par' ix' p t"
proof (cases t)
  case (Node l x b r)
  then have "tree_at h' q j a u = tree_at h q j a u" if "u = l \<or> u = r" for q j a u
    using assms(1,2,3) that by (intro tree_at_cong) auto
  then show ?thesis
    using assms Node by auto
qed (use assms in auto)

lemma ctx_at_nodes: "ctx_at h root par ix p fs \<Longrightarrow> a \<in> ctx_nodes fs \<Longrightarrow> a \<noteq> 0 \<and> aligned a"
  by (induction h root par ix p fs rule: ctx_at.induct) (auto dest: tree_at_nodes split: if_splits)

lemma ctx_at_aligned: "ctx_at h root par ix p fs \<Longrightarrow> aligned par"
  by (cases fs) (auto simp: aligned_def)

lemma ctx_at_root: "ctx_at h root par ix p fs \<Longrightarrow> par = 0 \<longleftrightarrow> fs = []"
  by (cases fs) auto

lemma ctx_at_par: "ctx_at h root par ix p fs \<Longrightarrow> par \<noteq> 0 \<Longrightarrow> par \<in> ctx_nodes fs"
  by (cases fs) auto

lemma ctx_at_cong:
  "(\<And>a. a \<in> ctx_nodes fs \<Longrightarrow> h' a = h a) \<Longrightarrow> ctx_at h' root par ix p fs \<longleftrightarrow> ctx_at h root par ix p fs"
proof (induction fs arbitrary: par ix p)
  case (Cons f fs)
  obtain d x b s where f: "f = (d, x, b, s)" by (cases f)
  have "tree_at h' q j a s = tree_at h q j a s" for q j a
    using Cons.prems f by (intro tree_at_cong) auto
  moreover have "ctx_at h' root q j a fs = ctx_at h root q j a fs" for q j a
    using Cons.prems f by (intro Cons.IH) auto
  moreover have "h' x = h x" using Cons.prems f by (cases d) auto
  ultimately show ?case unfolding f by simp
qed simp

lemma plug_at:
  "(\<exists>ix. tree_at h 0 ix root (plug fs t)) \<longleftrightarrow>
     (\<exists>par ix p. ctx_at h root par ix p fs \<and> tree_at h par ix p t)"
proof (induction fs arbitrary: t)
  case (Cons f fs)
  obtain d x b s where f: "f = (d, x, b, s)" by (cases f)
  show ?case
    unfolding f plug.simps Cons.IH tree_at_mk by auto
qed simp

lemma distinct_plug: "distinct (inorder (plug fs t)) \<longleftrightarrow>
    distinct (lefts fs @ rights fs) \<and> distinct (inorder t) \<and> ctx_nodes fs \<inter> nodes t = {}"
  by auto

text \<open>Storing another pointer in the hole.\<close>

lemma set_link_at:
  assumes "ctx_at h (avl_root T) par ix q fs" "distinct (lefts fs @ rights fs)"
  obtains T' h' where "set_link par ix p (T, h) = (T', h')" "ctx_at h' (avl_root T') par ix p fs"
    "\<And>a. a = 0 \<or> a \<noteq> par \<Longrightarrow> h' a = h a" "T' = T\<lparr>avl_root := avl_root T'\<rparr>"
proof (cases fs)
  case Nil
  then show thesis
    using that [of "T\<lparr>avl_root := p\<rparr>" h] assms(1) by (simp add: set_link_def)
next
  case (Cons f gs)
  obtain d x b s where f: "f = (d, x, b, s)" by (cases f)
  let ?h = "upd par (set_child ix p) h"
  have "tree_at ?h q j a s = tree_at h q j a s" for q j a
    using assms Cons f by (intro tree_at_cong) (auto split: if_splits)
  moreover have "ctx_at ?h r q j a gs = ctx_at h r q j a gs" for r q j a
    using assms Cons f by (intro ctx_at_cong) (auto split: if_splits)
  ultimately have "ctx_at ?h (avl_root T) par ix p fs"
    using assms(1) unfolding Cons f by auto
  then show thesis
    using assms(1) Cons f by (intro that [of T ?h]) (auto simp: set_link_def)
qed

text \<open>Replacing the subtree in the hole by another one over some of the same nodes.\<close>

lemma relink:
  assumes ctx: "ctx_at h (avl_root T) par ix q fs" and dist: "distinct (inorder (plug fs t))"
    and frame: "\<And>a. a \<notin> nodes t \<Longrightarrow> h1 a = h a"
    and tree: "tree_at h1 par ix p u" and sub: "nodes u \<subseteq> nodes t"
  obtains T' h' where "set_link par ix p (T, h1) = (T', h')" "ctx_at h' (avl_root T') par ix p fs"
    "tree_at h' par ix p u" "\<And>a. a \<notin> nodes (plug fs t) \<Longrightarrow> h' a = h a"
    "T' = T\<lparr>avl_root := avl_root T'\<rparr>"
proof -
  have C: "ctx_at h1 (avl_root T) par ix q fs"
    using ctx by (subst ctx_at_cong [of fs h1 h]) (use dist in \<open>auto intro!: frame\<close>)
  have dl: "distinct (lefts fs @ rights fs)"
    using dist by auto
  obtain T' h' where L: "set_link par ix p (T, h1) = (T', h')" "ctx_at h' (avl_root T') par ix p fs"
    "\<And>a. a = 0 \<or> a \<noteq> par \<Longrightarrow> h' a = h1 a" "T' = T\<lparr>avl_root := avl_root T'\<rparr>"
    using set_link_at [OF C dl, of p] by blast
  have par: "par = 0 \<or> par \<in> ctx_nodes fs"
    using ctx_at_par [OF ctx] by blast
  show thesis
  proof (rule that [OF L(1,2) _ _ L(4)])
    have "tree_at h' par ix p u = tree_at h1 par ix p u"
      by (rule tree_at_cong, rule L(3)) (use par dist sub tree_at_nodes [OF tree] in auto)
    then show "tree_at h' par ix p u"
      using tree by simp
    show "h' a = h a" if "a \<notin> nodes (plug fs t)" for a
      using that par L(3) [of a] frame [of a] by auto
  qed
qed

subsection \<open>Rotation\<close>

lemma rotation_single:
  assumes n: "tree_at h par ix x (mk d (mk d co cx cb ci) x b s)"
    and ctx: "ctx_at h (avl_root T) par ix x fs"
    and dist: "distinct (inorder (plug fs (mk d (mk d co cx cb ci) x b s)))"
    and cb: "cb \<noteq> - child2balance d"
  obtains T' h' p where
    "avl_rotation T h x (2 * child2balance d) = (T', h', cb = child2balance d)"
    "ctx_at h' (avl_root T') par ix p fs"
    "tree_at h' par ix p (mk d co cx (cb - child2balance d) (mk d ci x (child2balance d - cb) s))"
    "\<And>a. a \<notin> nodes (plug fs (mk d (mk d co cx cb ci) x b s)) \<Longrightarrow> h' a = h a"
    "T' = T\<lparr>avl_root := avl_root T'\<rparr>"
proof -
  define cp op sp where "cp = avl_child (h cx) (\<not> d)" and "op = avl_child (h cx) d"
    and "sp = avl_child (h x) (\<not> d)"
  define h1 where "h1 = upd x (set_child d cp) h"
  define h2 where "h2 = (if cp \<noteq> 0 then upd cp (AVL_SETCHILD d) (upd cp (AVL_SETPARENT x) h1) else h1)"
  define h3 where "h3 = upd x (AVL_SETPARENT cx) (upd x (AVL_SETCHILD (\<not> d)) (upd x (AVL_SETBALANCE (child2balance d - cb)) (upd cx (set_child (\<not> d) x) h2)))"
  define h4 where "h4 = upd cx (AVL_SETPARENT par) (upd cx (AVL_SETCHILD ix) (upd cx (AVL_SETBALANCE (cb - child2balance d)) h3))"
  have N: "AVL_XPARENT (h x) = par" "AVL_XCHILD (h x) = ix" "avl_child (h x) d = cx"
    "AVL_XBALANCE (h cx) = cb" "x \<noteq> 0" "cx \<noteq> 0" "aligned x" "aligned cx" "balance_ok cb"
    "tree_at h cx d op co" "tree_at h cx (\<not> d) cp ci" "tree_at h x (\<not> d) sp s"
    using n by (auto simp: tree_at_mk cp_def op_def sp_def)
  have D: "x \<noteq> cx" "cp \<noteq> x" "cp \<noteq> cx" "x \<notin> nodes co" "x \<notin> nodes ci" "x \<notin> nodes s"
    "cx \<notin> nodes co" "cx \<notin> nodes ci" "cx \<notin> nodes s" "distinct (inorder ci)"
    using dist N(5,6) tree_at_root [OF N(11)] unfolding distinct_plug by (cases d; cases "cp = 0"; force)+
  have ok: "balance_ok (cb - child2balance d)" "balance_ok (child2balance d - cb)"
    using cb N(9) by (auto simp: balance_ok_def child2balance_def split: if_splits)
  have V: "h4 x = AVL_SETPARENT cx (AVL_SETCHILD (\<not> d)
      (AVL_SETBALANCE (child2balance d - cb) (set_child d cp (h x))))"
    "h4 cx = AVL_SETPARENT par (AVL_SETCHILD ix
      (AVL_SETBALANCE (cb - child2balance d) (set_child (\<not> d) x (h cx))))"
    "cp \<noteq> 0 \<Longrightarrow> h4 cp = AVL_SETCHILD d (AVL_SETPARENT x (h cp))"
    "\<And>a. a \<noteq> x \<Longrightarrow> a \<noteq> cx \<Longrightarrow> a \<noteq> cp \<or> cp = 0 \<Longrightarrow> h4 a = h a"
    using D(1-3) by (auto simp: h4_def h3_def h2_def h1_def)
  have al: "aligned par" by (rule ctx_at_aligned [OF ctx])
  have I: "tree_at h4 x d cp ci"
    by (rule tree_at_move [OF N(11) D(10)]) (use D N(7) V(3) in \<open>auto intro!: V(4)\<close>)
  have outside: "h4 a = h a" if "a \<notin> nodes ci" "a \<noteq> x" "a \<noteq> cx" for a
    using that tree_at_root [OF N(11)] by (intro V(4)) auto
  have O: "tree_at h4 cx d op co = tree_at h cx d op co"
    by (rule tree_at_cong, rule outside) (use dist D in \<open>auto split: if_splits\<close>)
  have S: "tree_at h4 x (\<not> d) sp s = tree_at h x (\<not> d) sp s"
    by (rule tree_at_cong, rule outside) (use dist D in \<open>auto split: if_splits\<close>)
  have R: "tree_at h4 par ix cx (mk d co cx (cb - child2balance d) (mk d ci x (child2balance d - cb) s))"
    using N ok al I O S by (simp add: tree_at_mk V(1,2) flip: op_def sp_def)
  obtain T' h' where L: "set_link par ix cx (T, h4) = (T', h')" "ctx_at h' (avl_root T') par ix cx fs"
    "tree_at h' par ix cx (mk d co cx (cb - child2balance d) (mk d ci x (child2balance d - cb) s))"
    "\<And>a. a \<notin> nodes (plug fs (mk d (mk d co cx cb ci) x b s)) \<Longrightarrow> h' a = h a"
    "T' = T\<lparr>avl_root := avl_root T'\<rparr>"
    by (rule relink [OF ctx dist _ R]) (use outside in \<open>auto split: if_splits\<close>)
  show thesis
  proof (rule that [OF _ L(2-)])
    have "\<not> 2 * child2balance d < 0 \<longleftrightarrow> d" "2 * child2balance d div 2 = child2balance d"
      by (simp_all add: child2balance_def)
    then have "avl_rotation T h x (2 * child2balance d) =
        (let (T, h) = set_link par ix cx (T, h4) in (T, h, cb - child2balance d = 0))"
      using N cb by (simp add: avl_rotation_def Let_def h4_def h3_def h2_def h1_def flip: cp_def cong: if_cong)
    then show "avl_rotation T h x (2 * child2balance d) = (T', h', cb = child2balance d)"
      by (simp add: L(1))
  qed
qed


lemma rotation_double:
  assumes n: "tree_at h par ix x (mk d (mk d co cx cb (mk d gl gx gb gr)) x b s)"
    and ctx: "ctx_at h (avl_root T) par ix x fs"
    and dist: "distinct (inorder (plug fs (mk d (mk d co cx cb (mk d gl gx gb gr)) x b s)))"
    and cb: "cb = - child2balance d"
  obtains T' h' p where
    "avl_rotation T h x (2 * child2balance d) = (T', h', True)"
    "ctx_at h' (avl_root T') par ix p fs"
    "tree_at h' par ix p (mk d (mk d co cx (if gb = - child2balance d then child2balance d else 0) gl) gx 0
       (mk d gr x (if gb = child2balance d then - child2balance d else 0) s))"
    "\<And>a. a \<notin> nodes (plug fs (mk d (mk d co cx cb (mk d gl gx gb gr)) x b s)) \<Longrightarrow> h' a = h a"
    "T' = T\<lparr>avl_root := avl_root T'\<rparr>"
proof -
  let ?c = "child2balance d"
  let ?B = "if gb = - ?c then ?c else 0" and ?B' = "if gb = ?c then - ?c else 0"
  define lp rp op sp where "lp = avl_child (h gx) d" and "rp = avl_child (h gx) (\<not> d)"
    and "op = avl_child (h cx) d" and "sp = avl_child (h x) (\<not> d)"
  define h1 where "h1 = upd x (set_child d rp) h"
  define h2 where "h2 = (if rp \<noteq> 0 then upd rp (AVL_SETCHILD d) (upd rp (AVL_SETPARENT x) h1) else h1)"
  define h3 where "h3 = upd cx (set_child (\<not> d) lp) h2"
  define h4 where "h4 = (if lp \<noteq> 0 then upd lp (AVL_SETCHILD (\<not> d)) (upd lp (AVL_SETPARENT cx) h3) else h3)"
  define h5 where "h5 = upd cx (AVL_SETCHILD d) (upd cx (AVL_SETPARENT gx) (upd cx (AVL_SETBALANCE ?B)
    (upd gx (set_child d cx) h4)))"
  define h6 where "h6 = upd x (AVL_SETCHILD (\<not> d)) (upd x (AVL_SETPARENT gx) (upd x (AVL_SETBALANCE ?B')
    (upd gx (set_child (\<not> d) x) h5)))"
  define h7 where "h7 = upd gx (AVL_SETCHILD ix) (upd gx (AVL_SETPARENT par) (upd gx (AVL_SETBALANCE 0) h6))"
  have N: "AVL_XPARENT (h x) = par" "AVL_XCHILD (h x) = ix" "avl_child (h x) d = cx"
    "AVL_XBALANCE (h cx) = cb" "avl_child (h cx) (\<not> d) = gx" "AVL_XBALANCE (h gx) = gb"
    "x \<noteq> 0" "cx \<noteq> 0" "gx \<noteq> 0" "aligned x" "aligned cx" "aligned gx"
    "tree_at h cx d op co" "tree_at h gx d lp gl" "tree_at h gx (\<not> d) rp gr" "tree_at h x (\<not> d) sp s"
    using n by (auto simp: tree_at_mk lp_def rp_def op_def sp_def)
  note in_l = tree_at_root [OF N(14)] and in_r = tree_at_root [OF N(15)]
  have D: "x \<noteq> cx" "x \<noteq> gx" "cx \<noteq> gx" "distinct (inorder gl)" "distinct (inorder gr)"
    "nodes gl \<inter> nodes gr = {}" "{x, cx, gx} \<inter> (nodes co \<union> nodes gl \<union> nodes gr \<union> nodes s) = {}"
    "(nodes gl \<union> nodes gr) \<inter> (nodes co \<union> nodes s) = {}"
    using dist unfolding distinct_plug by (cases d; force)+
  have P: "rp \<noteq> x" "rp \<noteq> cx" "rp \<noteq> gx" "lp \<noteq> x" "lp \<noteq> cx" "lp \<noteq> gx" "lp \<noteq> rp \<or> lp = 0"
    using D(6,7) in_l in_r N(7-9) by auto
  have V: "h7 x = AVL_SETCHILD (\<not> d) (AVL_SETPARENT gx (AVL_SETBALANCE ?B' (set_child d rp (h x))))"
    "h7 cx = AVL_SETCHILD d (AVL_SETPARENT gx (AVL_SETBALANCE ?B (set_child (\<not> d) lp (h cx))))"
    "h7 gx = AVL_SETCHILD ix (AVL_SETPARENT par (AVL_SETBALANCE 0 (set_child (\<not> d) x (set_child d cx (h gx)))))"
    "lp \<noteq> 0 \<Longrightarrow> h7 lp = AVL_SETCHILD (\<not> d) (AVL_SETPARENT cx (h lp))"
    "rp \<noteq> 0 \<Longrightarrow> h7 rp = AVL_SETCHILD d (AVL_SETPARENT x (h rp))"
    "\<And>a. a \<noteq> x \<Longrightarrow> a \<noteq> cx \<Longrightarrow> a \<noteq> gx \<Longrightarrow> a \<noteq> lp \<or> lp = 0 \<Longrightarrow> a \<noteq> rp \<or> rp = 0 \<Longrightarrow> h7 a = h a"
    using D(1-3) P by (auto simp: h7_def h6_def h5_def h4_def h3_def h2_def h1_def)
  have outside: "h7 a = h a" if "a \<notin> nodes gl \<union> nodes gr \<union> {x, cx, gx}" for a
    using that in_l in_r by (intro V(6)) auto
  have al: "aligned par" by (rule ctx_at_aligned [OF ctx])
  have L: "tree_at h7 cx (\<not> d) lp gl"
    by (rule tree_at_move [OF N(14) D(4)]) (use N(11) V(4) D(6,7) in_r in \<open>auto intro!: V(6)\<close>)
  have R: "tree_at h7 x d rp gr"
    by (rule tree_at_move [OF N(15) D(5)]) (use N(10) V(5) D(6,7) in_l in \<open>auto intro!: V(6)\<close>)
  have O: "tree_at h7 cx d op co = tree_at h cx d op co" "tree_at h7 x (\<not> d) sp s = tree_at h x (\<not> d) sp s"
    by (rule tree_at_cong, rule outside, use D(7,8) in blast)+
  have G: "tree_at h7 par ix gx (mk d (mk d co cx ?B gl) gx 0 (mk d gr x ?B' s))"
    using N al L R O D(1-3) by (auto simp: tree_at_mk V(1-3) child2balance_def simp flip: op_def sp_def)
  obtain T' h' where K: "set_link par ix gx (T, h7) = (T', h')" "ctx_at h' (avl_root T') par ix gx fs"
    "tree_at h' par ix gx (mk d (mk d co cx ?B gl) gx 0 (mk d gr x ?B' s))"
    "\<And>a. a \<notin> nodes (plug fs (mk d (mk d co cx cb (mk d gl gx gb gr)) x b s)) \<Longrightarrow> h' a = h a"
    "T' = T\<lparr>avl_root := avl_root T'\<rparr>"
    by (rule relink [OF ctx dist _ G]) (use outside in \<open>auto split: if_splits\<close>)
  show thesis
  proof (rule that [OF _ K(2-)])
    have "\<not> 2 * child2balance d < 0 \<longleftrightarrow> d" "2 * child2balance d div 2 = child2balance d"
      by (simp_all add: child2balance_def)
    moreover have "AVL_XBALANCE (h4 gx) = gb"
      using P D(2,3) N(6) by (auto simp: h4_def h3_def h2_def h1_def)
    ultimately have "avl_rotation T h x (2 * child2balance d) =
        (let (T, h) = set_link par ix gx (T, h7) in (T, h, True))"
      using N cb unfolding avl_rotation_def Let_def h7_def h6_def h5_def
      by (simp add: h4_def h3_def h2_def h1_def flip: lp_def rp_def cong: if_cong)
    then show "avl_rotation T h x (2 * child2balance d) = (T', h', True)"
      by (simp add: K(1))
  qed
qed

lemma mk_cases:
  assumes "t \<noteq> Null"
  obtains c x b s where "t = mk d c x b s"
proof (cases t)
  case (Node l x b r)
  then show thesis
    using that [of "if d then r else l" x b "if d then l else r"] by (auto simp: mk_def)
qed (use assms in simp)

lemma rot_mk:
  "cb \<noteq> - child2balance d \<Longrightarrow> rot d (mk d co cx cb ci) x s =
     (mk d co cx (cb - child2balance d) (mk d ci x (child2balance d - cb) s), cb = child2balance d)"
  "rot d (mk d co cx (- child2balance d) (mk d gl gx gb gr)) x s =
     (mk d (mk d co cx (if gb = - child2balance d then child2balance d else 0) gl) gx 0
       (mk d gr x (if gb = child2balance d then - child2balance d else 0) s), True)"
  by (auto simp: mk_def child2balance_def Let_def)

lemma rotation_refines:
  assumes n: "tree_at h par ix x (mk d c x b s)" and ctx: "ctx_at h (avl_root T) par ix x fs"
    and dist: "distinct (inorder (plug fs (mk d c x b s)))"
    and tall: "balanced c" "height c = Suc (Suc n)"
  obtains T' h' p where
    "avl_rotation T h x (2 * child2balance d) = (T', h', snd (rot d c x s))"
    "ctx_at h' (avl_root T') par ix p fs" "tree_at h' par ix p (fst (rot d c x s))"
    "\<And>a. a \<notin> nodes (plug fs (mk d c x b s)) \<Longrightarrow> h' a = h a"
    "T' = T\<lparr>avl_root := avl_root T'\<rparr>"
proof -
  have "c \<noteq> Null" using tall(2) by auto
  then obtain co cx cb ci where c: "c = mk d co cx cb ci" by (rule mk_cases)
  show thesis
  proof (cases "cb = - child2balance d")
    case False
    then show thesis
      using rotation_single [OF n [unfolded c] ctx dist [unfolded c] False] that
      unfolding c rot_mk(1) [OF False] by auto
  next
    case True
    then have "ci \<noteq> Null"
      using tall unfolding c by (auto simp: child2balance_def split: if_splits)
    then obtain gl gx gb gr where g: "ci = mk d gl gx gb gr" by (rule mk_cases)
    show thesis
      using rotation_double [OF n [unfolded c g] ctx dist [unfolded c g] True] that
      unfolding c g True rot_mk(2) by auto
  qed
qed

subsection \<open>Climbing after an insertion\<close>

definition tree_rep :: "heap \<Rightarrow> u64 \<Rightarrow> u64 atree \<Rightarrow> bool" where
  "tree_rep h root t \<longleftrightarrow> (\<exists>ix. tree_at h 0 ix root t)"

lemma tree_rep_plug: "ctx_at h root par ix p fs \<Longrightarrow> tree_at h par ix p t \<Longrightarrow> tree_rep h root (plug fs t)"
  unfolding tree_rep_def plug_at by blast

lemma focus_up:
  assumes "ctx_at h root x d p ((d, x, b, s) # fs)" "tree_at h x d p t"
  shows "ctx_at h root (AVL_XPARENT (h x)) (AVL_XCHILD (h x)) x fs"
    and "tree_at h (AVL_XPARENT (h x)) (AVL_XCHILD (h x)) x (mk d t x b s)"
  using assms by (auto simp: tree_at_mk)

lemma rebalance:
  assumes "ctx_at h root par ix x fs" "tree_at h par ix x (mk d t x b s)"
    and "distinct (inorder (plug fs (mk d t x b s)))" "balance_ok nb"
  defines "h' \<equiv> upd x (AVL_SETBALANCE nb) h"
  shows "ctx_at h' root par ix x fs" and "tree_at h' par ix x (mk d t x nb s)"
proof -
  have "ctx_at h' root par ix x fs = ctx_at h root par ix x fs"
    by (rule ctx_at_cong) (use assms(3) in \<open>auto simp: h'_def split: if_splits\<close>)
  then show "ctx_at h' root par ix x fs"
    using assms(1) by simp
  have "tree_at h' q j a u = tree_at h q j a u" if "u = t \<or> u = s" for q j a u
    by (rule tree_at_cong) (use assms(3) that in \<open>auto simp: h'_def split: if_splits\<close>)
  then show "tree_at h' par ix x (mk d t x nb s)"
    using assms(2,4) by (auto simp: tree_at_mk h'_def)
qed

lemma insert_loop_refines:
  assumes "ctx_at h (avl_root T) par ix p fs" "tree_at h par ix p t" "distinct (inorder (plug fs t))"
    and "balanced t" "ctx_ok fs n" "height t = Suc n"
  shows "\<exists>T' h'. avl_insert_loop T h par ix = Some (T', h') \<and> tree_rep h' (avl_root T') (insert_up fs t)
    \<and> (\<forall>a. a \<notin> nodes (plug fs t) \<longrightarrow> h' a = h a) \<and> T' = T\<lparr>avl_root := avl_root T'\<rparr>"
  using assms
proof (induction fs arbitrary: h par ix p t n)
  case Nil
  then show ?case
    by (subst avl_insert_loop.simps) (auto simp: tree_rep_def)
next
  case (Cons f fs)
  obtain d x b s where f: "f = (d, x, b, s)" by (cases f)
  have [simp]: "par = x" "ix = d" "x \<noteq> 0" "AVL_XBALANCE (h x) = b" and b: "balance_ok b"
    using Cons.prems(1) f by auto
  let ?q = "AVL_XPARENT (h x)" and ?j = "AVL_XCHILD (h x)" and ?nb = "b + child2balance d"
  note up = focus_up [OF Cons.prems(1) [unfolded f, simplified \<open>par = x\<close> \<open>ix = d\<close>] Cons.prems(2) [simplified]]
  have dist: "distinct (inorder (plug fs (mk d t x b' s)))" for b'
    using Cons.prems(3) by (simp add: f)
  have c2b: "avl_child2balance d = child2balance d"
    by (simp add: avl_child2balance_def child2balance_def)
  note loop = avl_insert_loop.simps [of T h par ix, simplified, unfolded c2b]
  consider "?nb = 0" | "?nb \<noteq> 0" "b \<noteq> 0" | "?nb \<noteq> 0" "b = 0" by blast
  then show ?case
  proof cases
    case 1
    then show ?thesis
      using tree_rep_plug [OF rebalance [OF up dist, of 0]]
      by (auto simp: loop f split: if_splits)
  next
    case 2
    have nb: "?nb = 2 * child2balance d"
      using 2 b by (auto simp: balance_ok_def child2balance_def split: if_splits)
    have tall: "height t = Suc (Suc (height s))"
      using Cons.prems(5,6) 2 by (auto simp: f child2balance_def split: if_splits)
    obtain T' h' p' where R: "avl_rotation T h x (2 * child2balance d) = (T', h', snd (rot d t x s))"
      "ctx_at h' (avl_root T') ?q ?j p' fs" "tree_at h' ?q ?j p' (fst (rot d t x s))"
      "\<And>a. a \<notin> nodes (plug fs (mk d t x b s)) \<Longrightarrow> h' a = h a" "T' = T\<lparr>avl_root := avl_root T'\<rparr>"
      using rotation_refines [OF up(2,1) dist Cons.prems(4) tall] by blast
    have "avl_insert_loop T h par ix = Some (T', h')"
      using 2 R(1) by (simp add: loop nb)
    moreover have "insert_up (f # fs) t = plug fs (fst (rot d t x s))"
      using 2 by (simp add: f)
    ultimately show ?thesis
      using tree_rep_plug [OF R(2,3)] R(4,5) by (auto simp: f)
  next
    case 3
    let ?h = "upd x (AVL_SETBALANCE ?nb) h"
    have ok: "balance_ok ?nb"
      using 3 by (simp add: child2balance_def)
    have hs: "height s = n" "ctx_ok fs (Suc n)" "balanced s"
      using 3 Cons.prems(5) by (auto simp: f child2balance_def split: if_splits)
    have m: "balanced (mk d t x ?nb s)" "height (mk d t x ?nb s) = Suc (Suc n)"
      using 3 hs Cons.prems(4,6) by (auto simp: child2balance_def)
    obtain T' h' where R: "avl_insert_loop T ?h ?q ?j = Some (T', h')"
      "tree_rep h' (avl_root T') (insert_up fs (mk d t x ?nb s))"
      "\<forall>a. a \<notin> nodes (plug fs (mk d t x ?nb s)) \<longrightarrow> h' a = ?h a" "T' = T\<lparr>avl_root := avl_root T'\<rparr>"
      using Cons.IH [of ?h ?q ?j x, OF rebalance [OF up dist ok] dist m(1) hs(2) m(2)] by blast
    have "avl_insert_loop T h par ix = Some (T', h')"
      using 3 ok R(1) by (simp add: loop)
    then show ?thesis
      using 3 R(2-) by (auto simp: f split: if_splits)
  qed
qed

lemma focus_zip:
  assumes "tree_rep h root t" "zip_to q t [] = (fs, u)"
  obtains par ix p where "ctx_at h root par ix p fs" "tree_at h par ix p u"
  using assms plug_zip_to [OF assms(2)] plug_at [of h root fs u] by (auto simp: tree_rep_def)

lemma insert_refines:
  assumes ctx: "ctx_at h (avl_root T) par ix 0 fs" and dist: "distinct (lefts fs @ rights fs)"
    and new: "node = AVL_DATA2NODE new (avl_offset T)" "node \<noteq> 0" "aligned node" "node \<notin> ctx_nodes fs"
    and ok: "ctx_ok fs 0"
  shows "\<exists>T' h'. avl_insert T h new (AVL_MKINDEX par ix) = Some (T', h')
    \<and> tree_rep h' (avl_root T') (insert_up fs (Node Null node 0 Null))
    \<and> (\<forall>a. a \<notin> insert node (ctx_nodes fs) \<longrightarrow> h' a = h a)
    \<and> T' = T\<lparr>avl_root := avl_root T', avl_numnodes := avl_numnodes T + 1\<rparr>"
proof -
  let ?T = "T\<lparr>avl_numnodes := avl_numnodes T + 1\<rparr>"
  define h1 where "h1 = upd node (AVL_SETPARENT par) (upd node (AVL_SETBALANCE 0)
    (upd node (AVL_SETCHILD ix) (upd node (set_child True 0) (upd node (set_child False 0) h))))"
  have al: "aligned par" by (rule ctx_at_aligned [OF ctx])
  have leaf: "tree_at h1 par ix node (Node Null node 0 Null)"
    using new al by (simp add: h1_def)
  have d: "distinct (inorder (plug fs (Node Null node b Null)))" for b
    using dist new(4) by auto
  obtain T1 h2 where L: "set_link par ix node (?T, h1) = (T1, h2)" "ctx_at h2 (avl_root T1) par ix node fs"
    "tree_at h2 par ix node (Node Null node 0 Null)"
    "\<And>a. a \<notin> nodes (plug fs (Node Null node 0 Null)) \<Longrightarrow> h2 a = h a" "T1 = ?T\<lparr>avl_root := avl_root T1\<rparr>"
    by (rule relink [of h ?T par ix 0 fs "Node Null node 0 Null" h1 node "Node Null node 0 Null"])
      (use ctx d leaf in \<open>auto simp: h1_def\<close>)
  obtain T' h' where R: "avl_insert_loop T1 h2 par ix = Some (T', h')"
    "tree_rep h' (avl_root T') (insert_up fs (Node Null node 0 Null))"
    "\<forall>a. a \<notin> nodes (plug fs (Node Null node 0 Null)) \<longrightarrow> h' a = h2 a" "T' = T1\<lparr>avl_root := avl_root T'\<rparr>"
    using insert_loop_refines [OF L(2,3) d _ ok] by auto
  have "avl_insert T h new (AVL_MKINDEX par ix) = Some (T', h')"
    using L(1) R(1) al by (simp add: avl_insert_def Let_def h1_def flip: new(1))
  moreover have "T' = T\<lparr>avl_root := avl_root T', avl_numnodes := avl_numnodes T + 1\<rparr>"
    by (subst R(4), subst L(5)) simp
  ultimately show ?thesis
    using R(2,3) L(4) by auto
qed

subsection \<open>Searching and walking\<close>

lemma find_loop_refines:
  fixes T :: avl_tree and val :: u64
  defines "cmp \<equiv> \<lambda>x. avl_compar T val (AVL_NODE2DATA x (avl_offset T))"
  assumes "ctx_at h root par ix p fs" "tree_at h par ix p t" "\<forall>x\<in>nodes t. \<bar>cmp x\<bar> \<le> 1"
    and "t = Null \<Longrightarrow> c = ix"
  shows "case tree_find cmp t of
      (Some x, q) \<Rightarrow> avl_find_loop T h val p par c = Some (Inr (Inl (AVL_NODE2DATA x (avl_offset T))))
    | (None, q) \<Rightarrow> \<exists>par' ix'. avl_find_loop T h val p par c = Some (Inr (Inr (AVL_MKINDEX par' ix')))
        \<and> ctx_at h root par' ix' 0 (fst (zip_to q t fs))"
  using assms(2-)
proof (induction t arbitrary: par ix p fs c)
  case Null
  then show ?case
    by (subst avl_find_loop.simps) auto
next
  case (Node l x b r)
  have [simp]: "p = x" "x \<noteq> 0" using Node.prems(2) by auto
  let ?d = "0 < cmp x"
  have tab: "cmp x \<noteq> 0 \<Longrightarrow> avl_balance2child (1 + cmp x) = Inr ?d"
    using Node.prems(3) by (auto simp: avl_balance2child_def)
  have down: "ctx_at h root x d (avl_child (h x) d) ((d, x, b, if d then l else r) # fs)"
    "tree_at h x d (avl_child (h x) d) (if d then r else l)" for d
    using Node.prems(1,2) by (cases d; auto)+
  note IH = Node.IH(1) [OF down(1) [of False] down(2) [of False, simplified], of False]
    Node.IH(2) [OF down(1) [of True] down(2) [of True, simplified], of True]
  have loop: "avl_find_loop T h val x par c =
      (if cmp x = 0 then Some (Inr (Inl (AVL_NODE2DATA x (avl_offset T))))
       else avl_find_loop T h val (avl_child (h x) ?d) x ?d)"
    using tab by (subst avl_find_loop.simps) (auto simp: Let_def cmp_def)
  show ?case
    using IH Node.prems(3) by (auto simp: loop split: prod.splits option.splits)
qed

end
