(* ===== verification/Avl_Pointers.thy ===== *)
theory Avl_Pointers
  imports Avl_Refine
begin

text \<open>
  The rest of the refinement of \<open>Avl_Heap\<close> to \<open>Avl_Tree\<close>: walking, removal, teardown, and the
  properties of the pointer routines.
\<close>

subsection \<open>Walking\<close>

lemma descend_refines:
  "tree_at h par ix p t \<Longrightarrow> t \<noteq> Null \<Longrightarrow> avl_descend h d p = tree_extreme d t"
proof (induction t arbitrary: par ix p)
  case (Node l x b r)
  let ?c = "if d then r else l" and ?p = "avl_child (h x) d"
  have c: "tree_at h x d ?p ?c" and [simp]: "p = x"
    using Node.prems by auto
  show ?case
  proof (cases "?c = Null")
    case True
    then show ?thesis
      using c by (subst avl_descend.simps) (auto split: if_splits)
  next
    case False
    then have "avl_descend h d ?p = tree_extreme d ?c" "?p \<noteq> 0"
      using Node.IH c tree_at_nonzero [OF c] by (auto split: if_splits)
    moreover have "tree_extreme d ?c \<noteq> None"
      using False by (cases ?c) (auto split: option.splits)
    ultimately show ?thesis
      by (subst avl_descend.simps) (auto split: option.splits if_splits)
  qed
qed simp

lemma end_loop_refines:
  "tree_at h par ix p t \<Longrightarrow>
     avl_end_loop h d p prev = Some (case tree_extreme d t of None \<Rightarrow> prev | Some y \<Rightarrow> y)"
proof (induction t arbitrary: par ix p prev)
  case Null
  then show ?case by (subst avl_end_loop.simps) simp
next
  case (Node l x b r)
  have "tree_at h x d (avl_child (h x) d) (if d then r else l)" "p = x" "x \<noteq> 0"
    using Node.prems by auto
  then show ?case
    using Node.IH(1) [of x d "avl_child (h x) d" x] Node.IH(2) [of x d "avl_child (h x) d" x]
    by (subst avl_end_loop.simps) (auto split: option.splits if_splits)
qed

lemma ascend_refines:
  assumes "ctx_at h root par ix p fs" "AVL_XPARENT (h x) = par" "par \<noteq> 0 \<Longrightarrow> AVL_XCHILD (h x) = ix"
  shows "avl_ascend h (\<not> dir) x = Some (case climb dir fs of None \<Rightarrow> 0 | Some y \<Rightarrow> y)"
  using assms
proof (induction fs arbitrary: par ix p x)
  case Nil
  then show ?case by (subst avl_ascend.simps) (simp add: Let_def)
next
  case (Cons f fs)
  obtain d y b s where f: "f = (d, y, b, s)" by (cases f)
  have "par = y" "y \<noteq> 0" "ix = d" "ctx_at h root (AVL_XPARENT (h y)) (AVL_XCHILD (h y)) y fs"
    using Cons.prems(1) f by auto
  then show ?case
    using Cons.IH [of "AVL_XPARENT (h y)" "AVL_XCHILD (h y)" y y] Cons.prems(2,3)
    by (subst avl_ascend.simps) (auto simp: Let_def f)
qed

lemma climb_nonzero: "ctx_at h root par ix p fs \<Longrightarrow> climb dir fs = Some y \<Longrightarrow> y \<noteq> 0"
  by (induction h root par ix p fs rule: ctx_at.induct) (auto split: if_splits)

text \<open>Data pointers for node addresses: none for the null pointer.\<close>

definition node_data :: "avl_tree \<Rightarrow> u64 option \<Rightarrow> u64" where
  "node_data T n = (case n of None \<Rightarrow> 0 | Some y \<Rightarrow> AVL_NODE2DATA y (avl_offset T))"

lemma node_data_simps [simp]: "node_data T None = 0" "node_data T (Some y) = AVL_NODE2DATA y (avl_offset T)"
  by (simp_all add: node_data_def)

lemma walk_at_refines:
  assumes ctx: "ctx_at h root par ix x fs" and x: "tree_at h par ix x (Node l x b r)"
  shows "avl_walk T h (AVL_NODE2DATA x (avl_offset T)) dir =
    Some (node_data T (if sub dir (Node l x b r) \<noteq> Null then tree_extreme (\<not> dir) (sub dir (Node l x b r))
                       else climb dir fs))"
proof -
  let ?u = "sub dir (Node l x b r)" and ?p = "avl_child (h x) dir"
  have u: "tree_at h x dir ?p ?u" "x \<noteq> 0" "AVL_XPARENT (h x) = par" "AVL_XCHILD (h x) = ix"
    using x by auto
  show ?thesis
  proof (cases "?u = Null")
    case True
    moreover have "?p = 0" using u(1) True by simp
    ultimately show ?thesis
      using u ascend_refines [OF ctx, of x dir] climb_nonzero [OF ctx, of dir]
      by (cases "climb dir fs") (auto simp: avl_walk_def Let_def)
  next
    case False
    have "tree_extreme (\<not> dir) ?u \<noteq> None"
      using False by (cases ?u) (auto split: option.splits)
    moreover have "?p \<noteq> 0" using tree_at_nonzero [OF u(1)] False by simp
    ultimately show ?thesis
      using u descend_refines [OF u(1) False, of "\<not> dir"] False by (auto simp: avl_walk_def Let_def)
  qed
qed

lemma walk_refines:
  assumes "tree_rep h (avl_root T) t" "x \<in> nodes t"
  shows "avl_walk T h (AVL_NODE2DATA x (avl_offset T)) dir = Some (node_data T (tree_walk x dir t))"
proof -
  obtain p fs l b r where p: "path_of x t = Some p" and z: "zip_to p t [] = (fs, Node l x b r)"
    using path_ofE [OF assms(2)] by metis
  obtain par ix where "ctx_at h (avl_root T) par ix x fs" "tree_at h par ix x (Node l x b r)"
    using focus_zip [OF assms(1) z] by (metis tree_at.simps(2))
  from walk_at_refines [OF this, of T dir] show ?thesis
    using p z by (simp add: tree_walk_def)
qed

lemma ends_refine:
  assumes "tree_rep h (avl_root T) t"
  shows "avl_first T h = Some (node_data T (tree_first t))" "avl_last T h = Some (node_data T (tree_last t))"
proof -
  obtain ix where t: "tree_at h 0 ix (avl_root T) t"
    using assms by (auto simp: tree_rep_def)
  have "tree_extreme d t = Some y \<Longrightarrow> y \<noteq> 0" for d y
    using tree_at_nodes [OF t, of y] tree_extreme_ends [of t]
    by (cases d) (auto simp: first_of_eq_Some last_of_eq_Some)
  then show "avl_first T h = Some (node_data T (tree_first t))" "avl_last T h = Some (node_data T (tree_last t))"
    using end_loop_refines [OF t, of _ 0]
    by (auto simp: avl_first_def avl_last_def split: option.splits)
qed

lemma nearest_refines:
  assumes ctx: "ctx_at h (avl_root T) par ix 0 fs"
  shows "avl_nearest T h (AVL_MKINDEX par ix) dir = Some (node_data T (climb dir fs))"
proof (cases fs)
  case Nil
  then show ?thesis
    using ctx ctx_at_aligned [OF ctx] by (simp add: avl_nearest_def Let_def)
next
  case (Cons f gs)
  obtain d x b s where f: "f = (d, x, b, s)" by (cases f)
  have c: "ctx_at h (avl_root T) x d 0 ((d, x, b, s) # gs)" and [simp]: "par = x" "ix = d" "x \<noteq> 0"
    using ctx by (auto simp: Cons f)
  have "tree_at h x d 0 Null" by simp
  note up = focus_up [OF c this]
  have "aligned x" using c by simp
  then show ?thesis
    using walk_at_refines [OF up(1), of "if d then s else Null" b "if d then Null else s" T dir] up(2)
    by (auto simp: avl_nearest_def Let_def Cons f mk_def)
qed

lemma find_refines:
  fixes T :: avl_tree and val :: u64
  defines "cmp \<equiv> \<lambda>x. avl_compar T val (AVL_NODE2DATA x (avl_offset T))"
  assumes t: "tree_rep h (avl_root T) t" and "\<forall>x\<in>nodes t. \<bar>cmp x\<bar> \<le> 1"
  shows "case tree_find cmp t of
      (Some x, q) \<Rightarrow> avl_find T h val = Some (Inr (Inl (AVL_NODE2DATA x (avl_offset T))))
    | (None, q) \<Rightarrow> \<exists>par ix. avl_find T h val = Some (Inr (Inr (AVL_MKINDEX par ix)))
        \<and> ctx_at h (avl_root T) par ix 0 (fst (zip_to q t []))"
proof -
  obtain ix where ix: "tree_at h 0 ix (avl_root T) t" "t = Null \<Longrightarrow> False = ix"
    using t by (cases "t = Null") (auto simp: tree_rep_def)
  have "ctx_at h (avl_root T) 0 ix (avl_root T) []" by simp
  from find_loop_refines [OF this ix(1), of T val False] assms(3) ix(2) show ?thesis
    by (auto simp: avl_find_def cmp_def split: prod.splits option.splits)
qed

subsection \<open>Removal\<close>

lemma unlink_refines:
  assumes ctx: "ctx_at h (avl_root T) par ix x fs" and x: "tree_at h par ix x (Node l x b r)"
    and dist: "distinct (inorder (plug fs (Node l x b r)))" and leaf: "l = Null \<or> r = Null"
  obtains T' h' p where "avl_unlink T h x = (T', h', par, ix)" "ctx_at h' (avl_root T') par ix p fs"
    "tree_at h' par ix p (if l \<noteq> Null then l else r)"
    "\<And>a. a \<notin> nodes (plug fs (Node l x b r)) \<Longrightarrow> h' a = h a"
    "T' = T\<lparr>avl_root := avl_root T', avl_numnodes := avl_numnodes T - 1\<rparr>"
proof -
  let ?u = "if l \<noteq> Null then l else r" and ?T = "T\<lparr>avl_numnodes := avl_numnodes T - 1\<rparr>"
  define d where "d = (l = Null)"
  define p where "p = avl_child (h x) d"
  have l: "tree_at h x False (avl_child (h x) False) l" and r: "tree_at h x True (avl_child (h x) True) r"
    and f: "AVL_XPARENT (h x) = par" "AVL_XCHILD (h x) = ix"
    using x by auto
  have u: "tree_at h x d p ?u"
    using l r by (auto simp: d_def p_def)
  have pick: "(if avl_child (h x) False \<noteq> 0 then avl_child (h x) False else avl_child (h x) True) = p"
    using tree_at_nonzero [OF l] leaf by (auto simp: d_def p_def)
  define h1 where "h1 = (if p \<noteq> 0 then upd p (AVL_SETCHILD ix) (upd p (AVL_SETPARENT par) h) else h)"
  have al: "aligned par" by (rule ctx_at_aligned [OF ctx])
  have du: "distinct (inorder ?u)" using dist by auto
  have m: "tree_at h1 par ix p ?u"
    by (rule tree_at_move [OF u du]) (use al in \<open>auto simp: h1_def\<close>)
  have ctx': "ctx_at h (avl_root ?T) par ix x fs" using ctx by simp
  have frame: "h1 a = h a" if "a \<notin> nodes (Node l x b r)" for a
    using that tree_at_root [OF u] by (auto simp: h1_def split: if_splits)
  obtain T' h' where L: "set_link par ix p (?T, h1) = (T', h')" "ctx_at h' (avl_root T') par ix p fs"
    "tree_at h' par ix p ?u" "\<And>a. a \<notin> nodes (plug fs (Node l x b r)) \<Longrightarrow> h' a = h a"
    "T' = ?T\<lparr>avl_root := avl_root T'\<rparr>"
    by (rule relink [OF ctx' dist frame m]) auto
  show thesis
  proof (rule that [OF _ L(2-4)])
    show "avl_unlink T h x = (T', h', par, ix)"
      using L(1) by (simp add: avl_unlink_def Let_def f pick flip: h1_def)
    show "T' = T\<lparr>avl_root := avl_root T', avl_numnodes := avl_numnodes T - 1\<rparr>"
      by (subst L(5)) simp
  qed
qed

lemma remove_loop_refines:
  assumes "ctx_at h (avl_root T) par ix p fs" "tree_at h par ix p t" "distinct (inorder (plug fs t))"
    and "balanced t" "ctx_ok fs (Suc (height t))" "fs \<noteq> []"
  shows "\<exists>T' h'. avl_remove_loop T h par ix = Some (T', h') \<and> tree_rep h' (avl_root T') (delete_up fs t)
    \<and> (\<forall>a. a \<notin> nodes (plug fs t) \<longrightarrow> h' a = h a) \<and> T' = T\<lparr>avl_root := avl_root T'\<rparr>"
  using assms
proof (induction fs arbitrary: T h par ix p t)
  case (Cons f fs)
  obtain d x b s where f: "f = (d, x, b, s)" by (cases f)
  have [simp]: "par = x" "ix = d" "AVL_XBALANCE (h x) = b" and b: "balance_ok b"
    using Cons.prems(1) f by auto
  let ?q = "AVL_XPARENT (h x)" and ?j = "AVL_XCHILD (h x)" and ?nb = "b - child2balance d"
  note up = focus_up [OF Cons.prems(1) [unfolded f, simplified \<open>par = x\<close> \<open>ix = d\<close>] Cons.prems(2) [simplified]]
  have dist: "distinct (inorder (plug fs (mk d t x b' s)))" for b'
    using Cons.prems(3) by (simp add: f)
  have top: "?q = 0 \<longleftrightarrow> fs = []"
    by (rule ctx_at_root [OF up(1)])
  have c2b: "avl_child2balance d = child2balance d"
    by (simp add: avl_child2balance_def child2balance_def)
  note loop = avl_remove_loop.simps [of T h par ix, simplified, unfolded c2b Let_def]
  consider "b = 0" | "b \<noteq> 0" "?nb = 0" | "b \<noteq> 0" "?nb \<noteq> 0" by blast
  then show ?case
  proof cases
    case 1
    then have "balance_ok ?nb" by (simp add: child2balance_def)
    note tree_rep_plug [OF rebalance [OF up dist this]]
    then show ?thesis
      using 1 by (auto simp: loop f split: if_splits)
  next
    case 2
    let ?h = "upd x (AVL_SETBALANCE 0) h" and ?t = "mk d t x 0 s"
    have m: "balanced ?t" "ctx_ok fs (Suc (height ?t))"
      using 2 Cons.prems(4,5) by (auto simp: f child2balance_def split: if_splits)
    note re = rebalance [OF up dist balance_ok_simps(1)]
    have "\<exists>T' h'. (if ?q \<noteq> 0 then avl_remove_loop T ?h ?q ?j else Some (T, ?h)) = Some (T', h')
        \<and> tree_rep h' (avl_root T') (delete_up fs ?t) \<and> (\<forall>a. a \<notin> nodes (plug fs ?t) \<longrightarrow> h' a = ?h a)
        \<and> T' = T\<lparr>avl_root := avl_root T'\<rparr>"
    proof (cases "fs = []")
      case True
      then show ?thesis using tree_rep_plug [OF re] by (simp add: top)
    next
      case False
      then show ?thesis unfolding top using Cons.IH [OF re dist m False] by metis
    qed
    then obtain T' h' where R: "(if ?q \<noteq> 0 then avl_remove_loop T ?h ?q ?j else Some (T, ?h)) = Some (T', h')"
      "tree_rep h' (avl_root T') (delete_up fs ?t)" "\<forall>a. a \<notin> nodes (plug fs ?t) \<longrightarrow> h' a = ?h a"
      "T' = T\<lparr>avl_root := avl_root T'\<rparr>" by blast
    have "avl_remove_loop T h par ix = Some (T', h')"
      using 2 R(1) by (auto simp: loop split: if_splits)
    then show ?thesis
      using 2 R(2-) by (auto simp: f split: if_splits)
  next
    case 3
    let ?u = "fst (rot (\<not> d) s x t)" and ?sh = "snd (rot (\<not> d) s x t)"
    have nb: "?nb = 2 * child2balance (\<not> d)"
      using 3 b by (auto simp: balance_ok_def child2balance_def split: if_splits)
    have tall: "balanced s" "height s = Suc (Suc (height t))" "ctx_ok fs (Suc (height s))"
      using 3 Cons.prems(5) by (auto simp: f child2balance_def max_def split: if_splits)
    have flip: "mk d t x b s = mk (\<not> d) s x b t" by (simp add: mk_def)
    obtain T1 h1 p1 where R: "avl_rotation T h x ?nb = (T1, h1, ?sh)"
      "ctx_at h1 (avl_root T1) ?q ?j p1 fs" "tree_at h1 ?q ?j p1 ?u"
      "\<And>a. a \<notin> nodes (plug fs (mk d t x b s)) \<Longrightarrow> h1 a = h a" "T1 = T\<lparr>avl_root := avl_root T1\<rparr>"
      using rotation_refines [OF up(2) [unfolded flip] up(1) dist [of b, unfolded flip] tall(1,2)]
      unfolding nb flip by blast
    have n: "inorder ?u = inorder (mk d t x b s)" by (simp add: mk_def)
    have d1: "distinct (inorder (plug fs ?u))" using dist [of b] n by (metis inorder_plug)
    have m: "balanced ?u" "?sh \<Longrightarrow> ctx_ok fs (Suc (height ?u))"
      using balanced_rot [OF tall(1) Cons.prems(4), of "\<not> d" x] tall(2,3) by auto
    have "\<exists>T' h'. (if ?sh \<and> ?q \<noteq> 0 then avl_remove_loop T1 h1 ?q ?j else Some (T1, h1)) = Some (T', h')
        \<and> tree_rep h' (avl_root T') (if ?sh then delete_up fs ?u else plug fs ?u)
        \<and> (\<forall>a. a \<notin> nodes (plug fs ?u) \<longrightarrow> h' a = h1 a) \<and> T' = T1\<lparr>avl_root := avl_root T'\<rparr>"
      using Cons.IH [OF R(2,3) d1 m] tree_rep_plug [OF R(2,3)] by (cases "fs = []") (simp_all add: top)
    then obtain T' h' where S: "(if ?sh \<and> ?q \<noteq> 0 then avl_remove_loop T1 h1 ?q ?j else Some (T1, h1)) = Some (T', h')"
      "tree_rep h' (avl_root T') (if ?sh then delete_up fs ?u else plug fs ?u)"
      "\<forall>a. a \<notin> nodes (plug fs ?u) \<longrightarrow> h' a = h1 a" "T' = T1\<lparr>avl_root := avl_root T'\<rparr>" by blast
    have "avl_remove_loop T h par ix = Some (T', h')"
      using 3 R(1) S(1) by (simp add: loop)
    moreover have "delete_up (f # fs) t = (if ?sh then delete_up fs ?u else plug fs ?u)"
      using 3 by (simp add: f split_beta)
    moreover have "nodes (plug fs ?u) = nodes (plug (f # fs) t)"
      using n by (simp add: f)
    moreover have "T' = T\<lparr>avl_root := avl_root T'\<rparr>"
      by (subst S(4), subst R(5)) simp
    ultimately show ?thesis
      using S(2,3) R(4) by (auto simp: f)
  qed
qed simp

text \<open>The neighbour of a node with two children trades places with it.\<close>

lemma ctx_at_suffix:
  "ctx_at h root par ix p (gs @ fs) \<Longrightarrow> \<exists>par' ix' p'. ctx_at h root par' ix' p' fs"
  by (induction h root par ix p gs rule: ctx_at.induct) auto

lemma ctx_at_last:
  assumes "ctx_at h root par ix p (gs @ (d, x, b, s) # fs)"
  shows "gs \<noteq> [] \<Longrightarrow> avl_child (h x) d \<in> ctx_nodes gs"
    and "gs = [] \<Longrightarrow> avl_child (h x) d = p \<and> par = x \<and> ix = d"
proof -
  show "gs \<noteq> [] \<Longrightarrow> avl_child (h x) d \<in> ctx_nodes gs"
    using assms
  proof (induction gs arbitrary: par ix p)
    case (Cons g gs)
    obtain gd gx gb gs' where g: "g = (gd, gx, gb, gs')" by (cases g)
    show ?case
      using Cons.IH Cons.prems by (cases "gs = []") (auto simp: g)
  qed simp
qed (use assms in simp)

lemma ctx_retarget:
  assumes "ctx_at h root par ix p (gs @ (d, x, b, s) # fs)" "gs \<noteq> []"
    and "distinct (lefts gs @ rights gs)" "cp = avl_child (h x) d"
    and "ctx_at h' root' y d cp ((d, y, b, s) # fs)"
    and "\<And>a. a \<in> ctx_nodes gs \<Longrightarrow> a \<noteq> cp \<Longrightarrow> h' a = h a"
    and "h' cp = AVL_SETPARENT y (h cp)"
  shows "ctx_at h' root' par ix p (gs @ (d, y, b, s) # fs)"
  using assms(1,2,3,6)
proof (induction gs arbitrary: par ix p)
  case (Cons g gs)
  obtain gd gx gb gs' where g: "g = (gd, gx, gb, gs')" by (cases g)
  have al: "aligned y" using assms(5) by simp
  have sib: "tree_at h' q j a gs' = tree_at h q j a gs'" if "cp \<notin> nodes gs'" for q j a
    by (rule tree_at_cong, rule Cons.prems(4)) (use that g in \<open>auto split: if_splits\<close>)
  have ctx: "par = gx \<and> gx \<noteq> 0 \<and> aligned gx \<and> balance_ok gb \<and> ix = gd \<and> AVL_XBALANCE (h gx) = gb
    \<and> avl_child (h gx) gd = p \<and> tree_at h gx (\<not> gd) (avl_child (h gx) (\<not> gd)) gs'"
    and rest: "ctx_at h root (AVL_XPARENT (h gx)) (AVL_XCHILD (h gx)) gx (gs @ (d, x, b, s) # fs)"
    using Cons.prems(1) g by auto
  show ?case
  proof (cases "gs = []")
    case True
    then have "cp = gx" "AVL_XCHILD (h gx) = d" "cp \<notin> nodes gs'"
      using rest assms(4) Cons.prems(3) g by (auto split: if_splits)
    then show ?thesis
      using ctx sib assms(5,7) al by (simp add: g True)
  next
    case False
    have cp: "cp \<in> ctx_nodes gs"
      using ctx_at_last(1) [OF rest False] assms(4) by simp
    then have "cp \<noteq> gx" "cp \<notin> nodes gs'"
      using Cons.prems(3) g by (auto split: if_splits)
    moreover have "ctx_at h' root' (AVL_XPARENT (h gx)) (AVL_XCHILD (h gx)) gx (gs @ (d, y, b, s) # fs)"
      by (rule Cons.IH [OF rest False]) (use Cons.prems(3,4) g in \<open>auto split: if_splits\<close>)
    moreover have "h' gx = h gx"
      using Cons.prems(4) [of gx] \<open>cp \<noteq> gx\<close> g by (auto split: if_splits)
    ultimately show ?thesis
      using ctx sib by (simp add: g)
  qed
qed simp

lemma distinct_frame:
  "distinct (inorder (plug (gs @ (d, x, b, s) # fs) t)) \<longleftrightarrow>
     distinct (lefts gs @ rights gs) \<and> distinct (lefts fs @ rights fs) \<and> distinct (inorder s) \<and> distinct (inorder t)
     \<and> x \<notin> nodes s \<union> nodes t \<union> ctx_nodes gs \<union> ctx_nodes fs \<and> nodes s \<inter> nodes t = {}
     \<and> (nodes s \<union> nodes t) \<inter> (ctx_nodes gs \<union> ctx_nodes fs) = {} \<and> ctx_nodes gs \<inter> ctx_nodes fs = {}"
  by (cases d) (simp_all add: disjoint_iff, blast+)

lemma nodes_frame:
  "nodes (plug (gs @ (d, x, b, s) # fs) t) = insert x (nodes s \<union> nodes t \<union> ctx_nodes gs \<union> ctx_nodes fs)"
  by auto

lemma swap_refines:
  assumes ctx: "ctx_at h (avl_root T) py iy y (gs @ (d, x, b, s) # fs)"
    and Y: "tree_at h py iy y (Node nl y nb nr)"
    and dist: "distinct (inorder (plug (gs @ (d, x, b, s) # fs) (Node nl y nb nr)))"
    and tmp: "tmp \<noteq> 0" "aligned tmp" "tmp \<notin> nodes (plug (gs @ (d, x, b, s) # fs) (Node nl y nb nr))"
    and side: "d = (0 < b)" "s \<noteq> Null" "nl = Null \<or> nr = Null"
    and far: "avl_descend h (\<not> d) (avl_child (h x) d) = Some y"
  obtains T' h' par ix where "avl_remove_swap T h tmp x = Some (Inr (T', h', tmp))"
    "ctx_at h' (avl_root T') par ix tmp (gs @ (d, y, b, s) # fs)"
    "tree_at h' par ix tmp (Node nl tmp nb nr)"
    "\<And>a. a \<noteq> tmp \<Longrightarrow> a \<notin> nodes (plug (gs @ (d, x, b, s) # fs) (Node nl y nb nr)) \<Longrightarrow> h' a = h a"
    "T' = T\<lparr>avl_root := avl_root T'\<rparr>"
proof -
  define cp sp par ix where "cp = avl_child (h x) d" and "sp = avl_child (h x) (\<not> d)"
    and "par = AVL_XPARENT (h x)" and "ix = AVL_XCHILD (h x)"
  define cp' where "cp' = (if gs = [] then tmp else cp)"
  define h3 where "h3 = (if cp = y then upd y (set_child d tmp) (h(tmp := h y, y := h x)) else h(tmp := h y, y := h x))"
  have X: "balance_ok b" "x \<noteq> 0" "aligned x" "AVL_XBALANCE (h x) = b" "tree_at h x (\<not> d) sp s"
    "ctx_at h (avl_root T) par ix x fs"
    using ctx_at_suffix [OF ctx] by (auto simp: sp_def par_def ix_def)
  have nodes: "x \<noteq> y" "tmp \<noteq> x" "tmp \<noteq> y" "distinct (lefts fs @ rights fs)" "distinct (inorder s)"
    "distinct (lefts gs @ rights gs)"
    "{x, y, tmp} \<inter> (ctx_nodes fs \<union> nodes s \<union> ctx_nodes gs \<union> nodes nl \<union> nodes nr) = {}"
    "ctx_nodes fs \<inter> (nodes s \<union> ctx_nodes gs \<union> nodes nl \<union> nodes nr) = {}"
    "nodes s \<inter> (ctx_nodes gs \<union> nodes nl \<union> nodes nr) = {}" "ctx_nodes gs \<inter> (nodes nl \<union> nodes nr) = {}"
    "distinct (inorder nl)" "distinct (inorder nr)" "nodes nl \<inter> nodes nr = {}"
    using dist tmp(3) unfolding distinct_frame nodes_frame by auto
  have cpy: "cp = y \<longleftrightarrow> gs = []" and cp: "gs \<noteq> [] \<Longrightarrow> cp \<in> ctx_nodes gs"
    using ctx_at_last [OF ctx] nodes(7) by (auto simp: cp_def)
  have y: "y \<noteq> 0" "aligned y" "AVL_XPARENT (h y) = py" "AVL_XCHILD (h y) = iy" "AVL_XBALANCE (h y) = nb"
    "balance_ok nb" "tree_at h y False (avl_child (h y) False) nl" "tree_at h y True (avl_child (h y) True) nr"
    using Y by auto
  have V3: "h3 y = (if gs = [] then set_child d tmp (h x) else h x)" "h3 tmp = h y"
    "\<And>a. a \<noteq> y \<Longrightarrow> a \<noteq> tmp \<Longrightarrow> h3 a = h a"
    using nodes(3) by (auto simp: h3_def cpy)
  have "ctx_at h3 (avl_root T) par ix x fs = ctx_at h (avl_root T) par ix x fs"
    by (rule ctx_at_cong, rule V3(3)) (use nodes(7) in auto)
  then obtain T' h4 where L: "set_link par ix y (T, h3) = (T', h4)" "ctx_at h4 (avl_root T') par ix y fs"
    "\<And>a. a = 0 \<or> a \<noteq> par \<Longrightarrow> h4 a = h3 a" "T' = T\<lparr>avl_root := avl_root T'\<rparr>"
    using set_link_at [of h3 T par ix x fs y] X(6) nodes(4) by blast
  have par: "par = 0 \<or> par \<in> ctx_nodes fs"
    using ctx_at_par [OF X(6)] by blast
  have h4: "h4 a = h3 a" if "a \<notin> ctx_nodes fs" for a
    using that par L(3) [of a] by auto
  have s0: "sp \<noteq> 0" "sp \<in> nodes s"
    using tree_at_nonzero [OF X(5)] tree_at_root [OF X(5)] side(2) by auto
  define h6 where "h6 = upd sp (AVL_SETPARENT y) (upd cp' (AVL_SETPARENT y) h4)"
  have cp': "cp' \<noteq> y" "cp' \<noteq> sp" "cp' \<notin> ctx_nodes fs" "cp' \<notin> nodes s"
    using nodes(3,7-9) cp s0 by (auto simp: cp'_def)
  have V6: "h6 y = (if gs = [] then set_child d tmp (h x) else h x)" "h6 sp = AVL_SETPARENT y (h sp)"
    "h6 tmp = (if gs = [] then AVL_SETPARENT y (h y) else h y)"
    "gs \<noteq> [] \<Longrightarrow> h6 cp = AVL_SETPARENT y (h cp)"
    "\<And>a. a \<noteq> y \<Longrightarrow> a \<noteq> sp \<Longrightarrow> a \<noteq> tmp \<Longrightarrow> a \<noteq> cp \<Longrightarrow> a \<notin> ctx_nodes fs \<Longrightarrow> h6 a = h a"
proof -
    have "y \<notin> ctx_nodes fs" "tmp \<notin> ctx_nodes fs" "sp \<notin> ctx_nodes fs" "sp \<noteq> y" "sp \<noteq> tmp" "gs \<noteq> [] \<Longrightarrow> cp \<noteq> tmp"
      "gs \<noteq> [] \<Longrightarrow> cp \<noteq> y" "gs \<noteq> [] \<Longrightarrow> cp \<notin> ctx_nodes fs"
      using nodes(7-9) s0 cp by auto
    note n = this h4 [OF this(1)] h4 [OF this(2)] h4 [OF this(3)]
    show "h6 y = (if gs = [] then set_child d tmp (h x) else h x)"
      using n cp' by (auto simp: h6_def V3(1))
    show "h6 sp = AVL_SETPARENT y (h sp)"
      using n cp' by (auto simp: h6_def V3(3))
    show "h6 tmp = (if gs = [] then AVL_SETPARENT y (h y) else h y)"
      using n by (auto simp: h6_def V3(2) cp'_def)
    show "h6 cp = AVL_SETPARENT y (h cp)" if "gs \<noteq> []"
      using n that cp' h4 [of cp] by (auto simp: h6_def V3(3) cp'_def)
    show "h6 a = h a" if "a \<noteq> y" "a \<noteq> sp" "a \<noteq> tmp" "a \<noteq> cp" "a \<notin> ctx_nodes fs" for a
      using that h4 [of a] by (auto simp: h6_def V3(3) cp'_def)
  qed
  have in_s: "h6 a = h a" if "a \<in> nodes s" "a \<noteq> sp" for a
  proof (rule V6(5))
    show "a \<noteq> y" "a \<noteq> tmp" "a \<notin> ctx_nodes fs" using that nodes(7,8) by blast+
    show "a \<noteq> cp" using that(1) cp cpy nodes(7,9) by blast
  qed (fact that(2))
  have S: "tree_at h6 y (\<not> d) sp s"
    by (rule tree_at_move [OF X(5) nodes(5) in_s]) (use X(5) s0 in \<open>cases s; simp add: V6(2) y(2)\<close>)+
  have in_gs: "h6 a = h a" if "a \<in> ctx_nodes gs" "a \<noteq> cp" for a
  proof (rule V6(5))
    show "a \<noteq> y" "a \<noteq> tmp" "a \<notin> ctx_nodes fs" using that nodes(7,8) by blast+
    show "a \<noteq> sp" using that(1) s0 nodes(9) by blast
  qed (fact that(2))
  have "ctx_at h6 (avl_root T') par ix y fs = ctx_at h4 (avl_root T') par ix y fs"
    by (rule ctx_at_cong) (use cp' nodes(8) s0 in \<open>auto simp: h6_def\<close>)
  then have C1: "ctx_at h6 (avl_root T') y d cp' ((d, y, b, s) # fs)"
    using L(2) X y(1,2) S by (auto simp: V6(1) cp'_def sp_def par_def ix_def cp_def)
  define pt where "pt = (if gs = [] then y else py)"
  have iy: "gs = [] \<Longrightarrow> iy = d"
    using ctx_at_last(2) [OF ctx] by simp
  have C2: "ctx_at h6 (avl_root T') pt iy cp'' (gs @ (d, y, b, s) # fs)" if "cp'' = (if gs = [] then tmp else y)" for cp''
  proof (cases "gs = []")
    case True
    then show ?thesis using C1 iy that by (simp add: pt_def cp'_def)
  next
    case False
    have "ctx_at h6 (avl_root T') py iy y (gs @ (d, y, b, s) # fs)"
      by (rule ctx_retarget [OF ctx False nodes(6) cp_def])
        (use False C1 V6(4) in_gs in \<open>auto simp: cp'_def\<close>)
    then show ?thesis using False that by (simp add: pt_def)
  qed
  have pt: "pt \<noteq> 0" "pt \<noteq> tmp" "aligned pt" "pt = y \<or> pt \<in> ctx_nodes gs"
  proof -
    have g: "py \<in> ctx_nodes gs \<and> py \<noteq> 0 \<and> aligned py" if "gs \<noteq> []"
      using that ctx by (cases gs rule: list.exhaust) auto
    then show "pt \<noteq> 0" "aligned pt" "pt = y \<or> pt \<in> ctx_nodes gs" using y(1,2) by (auto simp: pt_def)
    then show "pt \<noteq> tmp" using nodes(3,7) by auto
  qed
  define h7 where "h7 = upd pt (set_child iy tmp) h6"
  have "distinct (inorder (plug (gs @ (d, y, b, s) # fs) Null))"
    unfolding distinct_frame using nodes(4-9) by auto
  then have dl: "distinct (lefts (gs @ (d, y, b, s) # fs) @ rights (gs @ (d, y, b, s) # fs))"
    unfolding inorder_plug by simp
  have C3: "ctx_at h7 (avl_root T') pt iy tmp (gs @ (d, y, b, s) # fs)"
    using set_link_at [OF C2 [OF refl] dl, of tmp] pt(1) by (auto simp: set_link_def h7_def)
  define np where "np = (if avl_child (h y) True \<noteq> 0 then avl_child (h y) True else avl_child (h y) False)"
  define h8 where "h8 = (if np \<noteq> 0 then upd np (AVL_SETPARENT tmp) h7 else h7)"
  have np: "np \<noteq> 0 \<Longrightarrow> np \<in> nodes nl \<union> nodes nr"
    using tree_at_root [OF y(7)] tree_at_root [OF y(8)] by (auto simp: np_def)
  have h8: "h8 a = h7 a" if "a \<notin> nodes nl \<union> nodes nr" for a
    using that np by (auto simp: h8_def)
  have "ctx_at h8 (avl_root T') pt iy tmp (gs @ (d, y, b, s) # fs) =
      ctx_at h7 (avl_root T') pt iy tmp (gs @ (d, y, b, s) # fs)"
    by (rule ctx_at_cong, rule h8) (use nodes(7-10) in \<open>auto split: if_splits\<close>)
  with C3 have C4: "ctx_at h8 (avl_root T') pt iy tmp (gs @ (d, y, b, s) # fs)" by simp
  have t8: "h8 tmp = (if gs = [] then AVL_SETPARENT y (h y) else h y)"
    using h8 [of tmp] nodes(7) pt(2) V6(3) by (simp add: h7_def)
  have low: "h7 a = h a" if "a \<in> nodes nl \<union> nodes nr" for a
  proof -
    have "a \<noteq> y" "a \<noteq> tmp" "a \<notin> ctx_nodes fs" using that nodes(7,8) by blast+
    moreover have "a \<noteq> cp" using that cp cpy nodes(7,10) by blast
    moreover have "a \<noteq> sp" using that s0 nodes(9) by blast
    moreover have "a \<noteq> pt" using that pt(4) nodes(7,10) by blast
    ultimately show ?thesis using V6(5) [of a] by (simp add: h7_def)
  qed
  have sub: "tree_at h8 tmp e (avl_child (h y) e) u" if u: "u = (if e then nr else nl)" for e u
  proof (rule tree_at_move)
    show t: "tree_at h y e (avl_child (h y) e) u" using y(7,8) u by (cases e) simp_all
    show "distinct (inorder u)" using nodes(11,12) u by simp
    have at: "np = avl_child (h y) e" if "avl_child (h y) e \<noteq> 0"
      using that side(3) y(7,8) by (cases e) (auto simp: np_def)
    show "h8 a = h a" if "a \<in> nodes u" "a \<noteq> avl_child (h y) e" for a
    proof -
      have "avl_child (h y) e \<noteq> 0" using that t by (cases u) auto
      then show ?thesis
        using that at low [of a] u by (auto simp: h8_def split: if_splits)
    qed
    assume nz: "avl_child (h y) e \<noteq> 0"
    then have "h8 (avl_child (h y) e) = AVL_SETPARENT tmp (h (avl_child (h y) e))"
      using at low [of np] np by (simp add: h8_def)
    then show "AVL_XPARENT (h8 (avl_child (h y) e)) = tmp" "AVL_XCHILD (h8 (avl_child (h y) e)) = e"
      "AVL_XBALANCE (h8 (avl_child (h y) e)) = AVL_XBALANCE (h (avl_child (h y) e))"
      "avl_child (h8 (avl_child (h y) e)) = avl_child (h (avl_child (h y) e))"
      using tmp(2) t nz by (cases u; simp)+
  qed
  have t: "tree_at h8 pt iy tmp (Node nl tmp nb nr)"
    using sub [of nl False] sub [of nr True] y tmp(1,2) by (simp add: t8 pt_def)
  have run: "avl_remove_swap T h tmp x = Some (Inr (T', h8, tmp))"
  proof -
    have tab: "avl_balance2child (b + 1) = Inr d"
      using X(1) side(1) by (auto simp: balance_ok_def avl_balance2child_def)
    have nz: "cp \<noteq> 0"
    proof (cases "gs = []")
      case True
      then show ?thesis using cpy y(1) by simp
    next
      case False
      then have "cp \<in> ctx_nodes (gs @ (d, x, b, s) # fs)"
        using cp unfolding lefts_append rights_append set_append by blast
      then show ?thesis using ctx_at_nodes [OF ctx] by blast
    qed
    have "y \<notin> ctx_nodes fs" using nodes(7) by blast
    then have h4y: "h4 y = (if gs = [] then set_child d tmp (h x) else h x)"
      using h4 V3(1) by simp
    have p3: "AVL_XPARENT (h3 y) = par" "AVL_XCHILD (h3 y) = ix"
      by (simp_all add: V3(1) par_def ix_def)
    have c4: "avl_child (h4 y) d = cp'" "avl_child (upd cp' (AVL_SETPARENT y) h4 y) (\<not> d) = sp"
      using cp'(1) by (simp_all add: h4y cp'_def sp_def cp_def)
    have p6: "AVL_XPARENT (h6 tmp) = pt" "AVL_XCHILD (h6 tmp) = iy"
      using y(2-4) by (simp_all add: V6(3) pt_def)
    have c7: "avl_child (h7 tmp) = avl_child (h y)"
      using pt(2) by (simp add: h7_def V6(3))
    have e: "(h(tmp := h y)) (y := (h(tmp := h y)) x) = h(tmp := h y, y := h x)"
      "avl_child ((h(tmp := h y, y := h x)) y) d = cp"
      using nodes(2) by (auto simp: cp_def)
    have two: "avl_child (h x) False \<noteq> 0 \<and> avl_child (h x) True \<noteq> 0"
      using nz s0(1) by (cases d) (auto simp: cp_def sp_def)
    have "avl_remove_swap T h tmp x = Some (Inr (T', h8, tmp))"
      using two far unfolding avl_remove_swap_def X(4)
      by (simp only: tab sum.case if_True Let_def e h3_def [symmetric] p3 L(1) split_conv c4 h6_def [symmetric]
          p6 h7_def [symmetric] c7 option.map cp_def [symmetric])
        (auto simp: h8_def np_def)
    then show ?thesis .
  qed
  show thesis
  proof (rule that [OF run C4 t _ L(4)])
    fix a assume "a \<noteq> tmp" "a \<notin> nodes (plug (gs @ (d, x, b, s) # fs) (Node nl y nb nr))"
    then have a: "a \<noteq> tmp" "a \<noteq> x" "a \<noteq> y" "a \<notin> nodes s" "a \<notin> nodes nl \<union> nodes nr" "a \<notin> ctx_nodes gs" "a \<notin> ctx_nodes fs"
      unfolding nodes_frame by auto
    have "a \<noteq> sp" "a \<noteq> cp" "a \<noteq> pt" using a s0 cp cpy pt(4) by auto
    then show "h8 a = h a"
      using a h8 [of a] V6(5) [of a] by (simp add: h7_def)
  qed
qed

lemma delete_at_focus:
  fixes b :: int
  assumes "l \<noteq> Null" "r \<noteq> Null"
  defines "d \<equiv> 0 < b"
  obtains gs nl y nb nr where
    "delete_at fs (Node l x b r) =
       delete_up (gs @ (d, y, b, if d then l else r) # fs) (if nl \<noteq> Null then nl else nr)"
    "plug gs (Node nl y nb nr) = (if d then r else l)" "nl = Null \<or> nr = Null"
    "tree_extreme (\<not> d) (if d then r else l) = Some y"
proof -
  obtain gs nl y nb nr where
    D: "delete_at fs (Node l x b r) =
      delete_up (gs @ (0 < b, y, b, if 0 < b then l else r) # fs) (if nl \<noteq> Null then nl else nr)"
    and p: "plug gs (Node nl y nb nr) = (if 0 < b then r else l)"
    and e: "if 0 < b then nl = Null \<and> lefts gs = [] else nr = Null \<and> rights gs = []"
    using delete_at_two [OF assms(1,2), of fs x b] by blast
  have "tree_extreme (\<not> d) (plug gs (Node nl y nb nr)) = Some y"
    using e by (cases "0 < b")
      (simp_all add: d_def tree_extreme_ends first_of_append last_of_append last_of_Cons split: option.splits)
  then show thesis
    using D p e by (intro that [of gs y nl nr nb]) (auto simp: d_def split: if_splits)
qed

lemma remove_finish:
  assumes ctx: "ctx_at h (avl_root T) par ix x fs" and x: "tree_at h par ix x (Node l x b r)"
    and dist: "distinct (inorder (plug fs (Node l x b r)))" and leaf: "l = Null \<or> r = Null"
    and ok: "balanced (Node l x b r)" "ctx_ok fs (height (Node l x b r))"
  shows "\<exists>T' h'. (let (T, h, par, ix) = avl_unlink T h x in
      if par = 0 then Some (T, h) else avl_remove_loop T h par ix) = Some (T', h')
    \<and> tree_rep h' (avl_root T') (delete_up fs (if l \<noteq> Null then l else r))
    \<and> (\<forall>a. a \<notin> nodes (plug fs (Node l x b r)) \<longrightarrow> h' a = h a)
    \<and> T' = T\<lparr>avl_root := avl_root T', avl_numnodes := avl_numnodes T - 1\<rparr>"
proof -
  let ?u = "if l \<noteq> Null then l else r"
  obtain T1 h1 p where U: "avl_unlink T h x = (T1, h1, par, ix)" "ctx_at h1 (avl_root T1) par ix p fs"
    "tree_at h1 par ix p ?u" "\<And>a. a \<notin> nodes (plug fs (Node l x b r)) \<Longrightarrow> h1 a = h a"
    "T1 = T\<lparr>avl_root := avl_root T1, avl_numnodes := avl_numnodes T - 1\<rparr>"
    using unlink_refines [OF ctx x dist leaf] by blast
  have d1: "distinct (inorder (plug fs ?u))" using dist by auto
  have h: "height (Node l x b r) = Suc (height ?u)" "balanced ?u" using leaf ok(1) by auto
  have n: "nodes (plug fs ?u) \<subseteq> nodes (plug fs (Node l x b r))" by auto
  show ?thesis
  proof (cases "fs = []")
    case True
    then show ?thesis
      using tree_rep_plug [OF U(2,3)] U(4,5) ctx_at_root [OF U(2)] by (simp add: U(1))
  next
    case False
    obtain T' h' where L: "avl_remove_loop T1 h1 par ix = Some (T', h')"
      "tree_rep h' (avl_root T') (delete_up fs ?u)" "\<forall>a. a \<notin> nodes (plug fs ?u) \<longrightarrow> h' a = h1 a"
      "T' = T1\<lparr>avl_root := avl_root T'\<rparr>"
      using remove_loop_refines [OF U(2,3) d1 h(2) ok(2) [unfolded h(1)] False] by blast
    have "T' = T\<lparr>avl_root := avl_root T', avl_numnodes := avl_numnodes T - 1\<rparr>"
      by (subst L(4), subst U(5)) simp
    then show ?thesis
      using L(1-3) U(4) n ctx_at_root [OF U(2)] False by (auto simp: U(1))
  qed
qed

lemma remove_eq:
  "avl_remove T h tmp data =
     Option.bind (avl_remove_swap T h tmp (AVL_DATA2NODE data (avl_offset T))) (\<lambda>r.
       case r of
         Inl p \<Rightarrow> Some (Inl p)
       | Inr (T, h, x) \<Rightarrow> map_option Inr (let (T, h, par, ix) = avl_unlink T h x in
           if par = 0 then Some (T, h) else avl_remove_loop T h par ix))"
  by (auto simp: avl_remove_def split: prod.splits intro!: arg_cong [where f = "Option.bind _"] ext sum.case_cong)

end
