(* ===== verification/Avl_Client.thy ===== *)
theory Avl_Client
  imports Avl_Pointers
begin

text \<open>
  What a caller of the pointer routines of \<^verbatim>\<open>lib/libavl/avl.c\<close> sees: the representation invariant
  of a tree in the heap, one refinement fact per public routine, the teardown walk.
\<close>

subsection \<open>The representation invariant\<close>

definition avl_rep :: "avl_tree \<Rightarrow> heap \<Rightarrow> u64 atree \<Rightarrow> bool" where
  "avl_rep T h t \<longleftrightarrow> tree_rep h (avl_root T) t \<and> distinct (inorder t) \<and> balanced t
     \<and> avl_numnodes T = of_nat (length (inorder t))"

lemma avl_repD:
  assumes "avl_rep T h t"
  shows "tree_rep h (avl_root T) t" "distinct (inorder t)" "balanced t"
    "avl_numnodes T = of_nat (length (inorder t))"
  using assms by (simp_all add: avl_rep_def)

lemma avl_create_rep: "avl_rep (avl_create compar sz offset) h Null"
  by (simp add: avl_rep_def avl_create_def tree_rep_def)

text \<open>A node that can be added: not null, eight-byte aligned, not in the tree.\<close>

definition fresh_node :: "u64 \<Rightarrow> u64 atree \<Rightarrow> bool" where
  "fresh_node n t \<longleftrightarrow> n \<noteq> 0 \<and> aligned n \<and> n \<notin> nodes t"

lemma insert_rep:
  assumes rep: "avl_rep T h t" and z: "zip_to q t [] = (fs, Null)"
    and ctx: "ctx_at h (avl_root T) par ix 0 fs"
    and new: "fresh_node (AVL_DATA2NODE new (avl_offset T)) t"
  shows "\<exists>T' h'. avl_insert T h new (AVL_MKINDEX par ix) = Some (T', h')
    \<and> avl_rep T' h' (tree_insert (AVL_DATA2NODE new (avl_offset T)) q t)
    \<and> (\<forall>a. a \<notin> insert (AVL_DATA2NODE new (avl_offset T)) (nodes t) \<longrightarrow> h' a = h a)
    \<and> T' = T\<lparr>avl_root := avl_root T', avl_numnodes := avl_numnodes T + 1\<rparr>"
proof -
  let ?n = "AVL_DATA2NODE new (avl_offset T)"
  note r = avl_repD [OF rep]
  have i: "inorder t = lefts fs @ rights fs" using inorder_zip_to [OF z] by simp
  have slot: "is_slot q t" using z by (simp add: is_slot_def)
  have ok: "ctx_ok fs 0" using ctx_ok_zip_to(1) [OF r(3) z] by simp
  have d: "distinct (lefts fs @ rights fs)" and n: "?n \<noteq> 0" "aligned ?n" "?n \<notin> ctx_nodes fs"
    using new r(2) i by (auto simp: fresh_node_def)
  obtain T' h' where I: "avl_insert T h new (AVL_MKINDEX par ix) = Some (T', h')"
    "tree_rep h' (avl_root T') (insert_up fs (Node Null ?n 0 Null))"
    "\<forall>a. a \<notin> insert ?n (ctx_nodes fs) \<longrightarrow> h' a = h a"
    "T' = T\<lparr>avl_root := avl_root T', avl_numnodes := avl_numnodes T + 1\<rparr>"
    using insert_refines [OF ctx d refl n ok] by blast
  have "avl_numnodes T' = avl_numnodes T + 1" by (subst I(4)) simp
  moreover have "inorder (tree_insert ?n q t) = lefts fs @ ?n # rights fs"
    using z by (simp add: tree_insert_def)
  ultimately have "avl_rep T' h' (tree_insert ?n q t)"
    using I(2) r new i z balanced_tree_insert [OF r(3) slot, of ?n]
    by (simp add: avl_rep_def tree_insert_def fresh_node_def)
  then show ?thesis
    using I i by auto
qed

lemma ctx_ok_relabel: "ctx_ok (gs @ (d, x, b, s) # fs) n \<longleftrightarrow> ctx_ok (gs @ (d, y, b, s) # fs) n"
  by (induction gs arbitrary: n) auto

text \<open>Both shapes of a removal, with the node unlinked at the place that the neighbour had.\<close>

lemma remove_focus:
  assumes ctx: "ctx_at h (avl_root T) par ix x fs" and n: "tree_at h par ix x (Node l x b s)"
    and dist: "distinct (inorder (plug fs (Node l x b s)))" and bal: "balanced (plug fs (Node l x b s))"
    and tmp: "fresh_node tmp (plug fs (Node l x b s))" and data: "x = AVL_DATA2NODE data (avl_offset T)"
  shows "\<exists>T' h'. avl_remove T h tmp data = Some (Inr (T', h'))
    \<and> tree_rep h' (avl_root T') (delete_at fs (Node l x b s))
    \<and> (\<forall>a. a \<notin> insert tmp (nodes (plug fs (Node l x b s))) \<longrightarrow> h' a = h a)
    \<and> T' = T\<lparr>avl_root := avl_root T', avl_numnodes := avl_numnodes T - 1\<rparr>"
proof (cases "l \<noteq> Null \<and> s \<noteq> Null")
  case False
  then have leaf: "l = Null \<or> s = Null" by simp
  have "avl_child (h x) False = 0 \<or> avl_child (h x) True = 0"
    using n False by auto
  then have "avl_remove_swap T h tmp x = Some (Inr (T, h, x))"
    by (auto simp: avl_remove_swap_def)
  moreover have "delete_at fs (Node l x b s) = delete_up fs (if l \<noteq> Null then l else s)"
    using False by auto
  moreover have "balanced (Node l x b s)" "ctx_ok fs (height (Node l x b s))"
    using bal unfolding balanced_plug by blast+
  note remove_finish [OF ctx n dist leaf this]
  then obtain T' h' where F: "(let (T, h, par, ix) = avl_unlink T h x in
      if par = 0 then Some (T, h) else avl_remove_loop T h par ix) = Some (T', h')"
    "tree_rep h' (avl_root T') (delete_up fs (if l \<noteq> Null then l else s))"
    "\<forall>a. a \<notin> nodes (plug fs (Node l x b s)) \<longrightarrow> h' a = h a"
    "T' = T\<lparr>avl_root := avl_root T', avl_numnodes := avl_numnodes T - 1\<rparr>" by blast
  ultimately have "avl_remove T h tmp data = Some (Inr (T', h'))"
    "tree_rep h' (avl_root T') (delete_at fs (Node l x b s))"
    unfolding remove_eq data [symmetric] by simp_all
  then show ?thesis using F(3,4) by blast
next
  case True
  let ?d = "0 < b"
  let ?c = "if ?d then s else l" and ?s = "if ?d then l else s"
  obtain gs nl y nb nr where
    D: "delete_at fs (Node l x b s) = delete_up (gs @ (?d, y, b, ?s) # fs) (if nl \<noteq> Null then nl else nr)"
    and P: "plug gs (Node nl y nb nr) = ?c" and leaf: "nl = Null \<or> nr = Null"
    and far: "tree_extreme (\<not> ?d) ?c = Some y"
    by (rule delete_at_focus [OF conjunct1 [OF True] conjunct2 [OF True], of fs x b]) simp_all
  have eq: "plug fs (Node l x b s) = plug (gs @ (?d, x, b, ?s) # fs) (Node nl y nb nr)"
    by (simp only: plug_append plug.simps P) (simp add: mk_def)
  have "tree_rep h (avl_root T) (plug fs (Node l x b s))"
    by (rule tree_rep_plug [OF ctx n])
  then obtain py iy where ctx': "ctx_at h (avl_root T) py iy y (gs @ (?d, x, b, ?s) # fs)"
    and Y: "tree_at h py iy y (Node nl y nb nr)"
    unfolding eq tree_rep_def plug_at by (metis tree_at.simps(2))
  have c: "tree_at h x ?d (avl_child (h x) ?d) ?c" using n by auto
  have "?c \<noteq> Null" "?s \<noteq> Null" using True by auto
  then have far': "avl_descend h (\<not> ?d) (avl_child (h x) ?d) = Some y"
    using descend_refines [OF c] far by simp
  have t: "tmp \<noteq> 0" "aligned tmp" "tmp \<notin> nodes (plug (gs @ (?d, x, b, ?s) # fs) (Node nl y nb nr))"
    using tmp unfolding eq fresh_node_def by auto
  obtain T1 h1 par1 ix1 where S: "avl_remove_swap T h tmp x = Some (Inr (T1, h1, tmp))"
    "ctx_at h1 (avl_root T1) par1 ix1 tmp (gs @ (?d, y, b, ?s) # fs)"
    "tree_at h1 par1 ix1 tmp (Node nl tmp nb nr)"
    "\<And>a. a \<noteq> tmp \<Longrightarrow> a \<notin> nodes (plug (gs @ (?d, x, b, ?s) # fs) (Node nl y nb nr)) \<Longrightarrow> h1 a = h a"
    "T1 = T\<lparr>avl_root := avl_root T1\<rparr>"
    using swap_refines [OF ctx' Y dist [unfolded eq] t refl \<open>?s \<noteq> Null\<close> leaf far'] by blast
  have d1: "distinct (inorder (plug (gs @ (?d, y, b, ?s) # fs) (Node nl tmp nb nr)))"
    using dist t(3) unfolding eq distinct_frame nodes_frame by auto
  have "balanced (Node nl y nb nr)" "ctx_ok (gs @ (?d, x, b, ?s) # fs) (height (Node nl y nb nr))"
    using bal unfolding eq balanced_plug by auto
  then have b1: "balanced (Node nl tmp nb nr)" "ctx_ok (gs @ (?d, y, b, ?s) # fs) (height (Node nl tmp nb nr))"
    by (simp_all add: ctx_ok_relabel [of gs _ y _ _ _ _ x])
  obtain T' h' where F: "(let (T, h, par, ix) = avl_unlink T1 h1 tmp in
      if par = 0 then Some (T, h) else avl_remove_loop T h par ix) = Some (T', h')"
    "tree_rep h' (avl_root T') (delete_at fs (Node l x b s))"
    "\<forall>a. a \<notin> nodes (plug (gs @ (?d, y, b, ?s) # fs) (Node nl tmp nb nr)) \<longrightarrow> h' a = h1 a"
    "T' = T1\<lparr>avl_root := avl_root T', avl_numnodes := avl_numnodes T1 - 1\<rparr>"
    using remove_finish [OF S(2,3) d1 leaf b1] unfolding D by blast
  have "avl_remove T h tmp data = Some (Inr (T', h'))"
    using S(1) F(1) unfolding remove_eq data [symmetric] by simp
  moreover have "avl_numnodes T1 = avl_numnodes T" by (subst S(5)) simp
  then have "T' = T\<lparr>avl_root := avl_root T', avl_numnodes := avl_numnodes T - 1\<rparr>"
    by (subst F(4), subst S(5)) simp
  moreover have "h' a = h a" if "a \<notin> insert tmp (nodes (plug fs (Node l x b s)))" for a
    using that F(3) S(4) [of a] unfolding eq nodes_frame by auto
  ultimately show ?thesis using F(2) by blast
qed

lemma remove_rep:
  assumes rep: "avl_rep T h t" and x: "AVL_DATA2NODE data (avl_offset T) \<in> nodes t"
    and tmp: "fresh_node tmp t"
  shows "\<exists>T' h'. avl_remove T h tmp data = Some (Inr (T', h'))
    \<and> avl_rep T' h' (tree_remove (AVL_DATA2NODE data (avl_offset T)) t)
    \<and> (\<forall>a. a \<notin> insert tmp (nodes t) \<longrightarrow> h' a = h a)
    \<and> T' = T\<lparr>avl_root := avl_root T', avl_numnodes := avl_numnodes T - 1\<rparr>"
proof -
  let ?x = "AVL_DATA2NODE data (avl_offset T)"
  note r = avl_repD [OF rep]
  obtain p fs l b s where p: "path_of ?x t = Some p" and z: "zip_to p t [] = (fs, Node l ?x b s)"
    using path_ofE [OF x] by metis
  obtain par ix where ctx: "ctx_at h (avl_root T) par ix ?x fs" and n: "tree_at h par ix ?x (Node l ?x b s)"
    using focus_zip [OF r(1) z] by (metis tree_at.simps(2))
  have t: "t = plug fs (Node l ?x b s)" using plug_zip_to [OF z] by simp
  obtain T' h' where R: "avl_remove T h tmp data = Some (Inr (T', h'))"
    "tree_rep h' (avl_root T') (delete_at fs (Node l ?x b s))"
    "\<forall>a. a \<notin> insert tmp (nodes t) \<longrightarrow> h' a = h a"
    "T' = T\<lparr>avl_root := avl_root T', avl_numnodes := avl_numnodes T - 1\<rparr>"
    using remove_focus [OF ctx n _ _ _ refl, of tmp] r(2,3) tmp unfolding t by blast
  obtain as bs where i: "inorder t = as @ ?x # bs" using x by (meson split_list)
  have "avl_numnodes T' = avl_numnodes T - 1" by (subst R(4)) simp
  moreover have "delete_at fs (Node l ?x b s) = tree_remove ?x t"
    using p z by (simp add: tree_remove_def)
  ultimately have "avl_rep T' h' (tree_remove ?x t)"
    using R(2) r tree_remove_at [OF r(2) i] i by (simp add: avl_rep_def)
  then show ?thesis using R by blast
qed

subsection \<open>From addresses to the data stored there\<close>

text \<open>
  Clients think of a tree of data, not of addresses: \<open>val\<close> reads the structure around a node. The
  abstract operations commute with it.
\<close>

definition map_frame :: "('a \<Rightarrow> 'b) \<Rightarrow> 'a frame \<Rightarrow> 'b frame" where
  "map_frame f = (\<lambda>(d, x, b, s). (d, f x, b, map_atree f s))"

lemma map_frame_simp [simp]: "map_frame f (d, x, b, s) = (d, f x, b, map_atree f s)"
  by (simp add: map_frame_def)

lemma map_mk [simp]: "map_atree f (mk d c x b s) = mk d (map_atree f c) (f x) b (map_atree f s)"
  by (simp add: mk_def)

lemma map_eq_Null [simp]: "map_atree f t = Null \<longleftrightarrow> t = Null" "Null = map_atree f t \<longleftrightarrow> t = Null"
  by (cases t; simp)+

lemma map_plug [simp]: "map_atree f (plug fs t) = plug (map (map_frame f) fs) (map_atree f t)"
  by (induction fs t rule: plug.induct) auto

lemma map_rot: "rot d (map_atree f c) (f x) (map_atree f s) = map_prod (map_atree f) id (rot d c x s)"
  by (cases c) (auto simp: Let_def split: atree.splits)

lemma map_insert_up: "map_atree f (insert_up fs t) = insert_up (map (map_frame f) fs) (map_atree f t)"
  by (induction fs t rule: insert_up.induct) (auto simp: Let_def map_rot)

lemma map_delete_up: "map_atree f (delete_up fs t) = delete_up (map (map_frame f) fs) (map_atree f t)"
  by (induction fs t rule: delete_up.induct) (auto simp: Let_def map_rot split: prod.splits)

lemma map_zip_to:
  "zip_to p (map_atree f t) (map (map_frame f) fs) = map_prod (map (map_frame f)) (map_atree f) (zip_to p t fs)"
  by (induction p t fs rule: zip_to.induct) auto

lemma map_spine [simp]: "spine d (map_atree f t) = spine d t"
  by (induction t) auto

lemma map_delete_at: "map_atree f (delete_at fs t) = delete_at (map (map_frame f) fs) (map_atree f t)"
proof (cases t)
  case (Node l x b r)
  have "zip_to p (map_atree f c) [] = map_prod (map (map_frame f)) (map_atree f) (zip_to p c [])" for p c
    using map_zip_to [of p f c "[]"] by simp
  note z = this [of "butlast (spine True l)" l] this [of "butlast (spine False r)" r]
  show ?thesis
    unfolding Node
    by (cases "zip_to (butlast (spine True l)) l []"; cases "zip_to (butlast (spine False r)) r []")
      (auto simp: Let_def z map_delete_up split: atree.split)
qed simp

lemma map_path_of: "inj_on f (insert x (nodes t)) \<Longrightarrow> path_of (f x) (map_atree f t) = path_of x t"
  by (induction t) (auto simp: inj_on_def split: option.splits)

lemma map_tree_insert: "map_atree f (tree_insert x p t) = tree_insert (f x) p (map_atree f t)"
  using map_zip_to [of p f t "[]"] by (simp add: tree_insert_def map_insert_up)

lemma map_tree_remove:
  assumes "inj_on f (nodes t)" "x \<in> nodes t"
  shows "map_atree f (tree_remove x t) = tree_remove (f x) (map_atree f t)"
proof -
  have "path_of (f x) (map_atree f t) = path_of x t"
    using assms by (intro map_path_of) (simp add: insert_absorb)
  then show ?thesis
    using map_zip_to [of _ f t "[]"]
    by (auto simp: tree_remove_def map_delete_at split: option.splits prod.splits)
qed

lemma map_tree_find: "tree_find cmp (map_atree f t) = map_prod (map_option f) id (tree_find (\<lambda>x. cmp (f x)) t)"
  by (induction t) (auto split: prod.splits)

subsection \<open>Searching and adding\<close>

text \<open>The comparison function of a tree, on node addresses.\<close>

definition node_compar :: "avl_tree \<Rightarrow> u64 \<Rightarrow> u64 \<Rightarrow> int" where
  "node_compar T x y = avl_compar T (AVL_NODE2DATA x (avl_offset T)) (AVL_NODE2DATA y (avl_offset T))"

definition in_table :: "avl_tree \<Rightarrow> u64 \<Rightarrow> u64 atree \<Rightarrow> bool" where
  "in_table T n t \<longleftrightarrow> (\<forall>x\<in>nodes t. \<bar>node_compar T n x\<bar> \<le> 1)"

lemma node_compar_data: "node_compar T (AVL_DATA2NODE d (avl_offset T)) y =
    avl_compar T d (AVL_NODE2DATA y (avl_offset T))"
  by (simp add: node_compar_def)

lemma tree_find_slot: "fst (tree_find cmp t) = None \<Longrightarrow> is_slot (snd (tree_find cmp t)) t"
  by (induction t) (auto split: prod.splits)

lemma find_rep:
  assumes "tree_rep h (avl_root T) t" "in_table T n t" "n = AVL_DATA2NODE val (avl_offset T)"
  shows "case tree_find (node_compar T n) t of
      (Some x, q) \<Rightarrow> avl_find T h val = Some (Inr (Inl (AVL_NODE2DATA x (avl_offset T))))
    | (None, q) \<Rightarrow> \<exists>par ix. avl_find T h val = Some (Inr (Inr (AVL_MKINDEX par ix)))
        \<and> ctx_at h (avl_root T) par ix 0 (fst (zip_to q t []))"
proof -
  have eq: "(\<lambda>x. avl_compar T val (AVL_NODE2DATA x (avl_offset T))) = node_compar T n"
    by (simp add: fun_eq_iff assms(3) node_compar_data)
  have range: "\<forall>x\<in>nodes t. \<bar>avl_compar T val (AVL_NODE2DATA x (avl_offset T))\<bar> \<le> 1"
    using assms(2) by (simp add: in_table_def assms(3) node_compar_data)
  show ?thesis
    using find_refines [OF assms(1) range] unfolding eq .
qed

lemma add_rep:
  assumes rep: "avl_rep T h t" and range: "in_table T n t" and n: "n = AVL_DATA2NODE new (avl_offset T)"
    and none: "fst (tree_find (node_compar T n) t) = None" and fresh: "fresh_node n t"
  shows "\<exists>T' h'. avl_add T h junk new = Some (Inr (T', h')) \<and> avl_rep T' h' (tree_add (node_compar T) n t)
    \<and> (\<forall>a. a \<notin> insert n (nodes t) \<longrightarrow> h' a = h a)
    \<and> T' = T\<lparr>avl_root := avl_root T', avl_numnodes := avl_numnodes T + 1\<rparr>"
proof -
  define q where "q = snd (tree_find (node_compar T n) t)"
  have f: "tree_find (node_compar T n) t = (None, q)"
    using none by (simp add: q_def prod_eq_iff)
  have "is_slot q t" using tree_find_slot [OF none] by (simp add: q_def)
  then obtain fs where z: "zip_to q t [] = (fs, Null)"
    by (cases "zip_to q t []") (simp add: is_slot_def)
  obtain par ix where F: "avl_find T h new = Some (Inr (Inr (AVL_MKINDEX par ix)))"
    "ctx_at h (avl_root T) par ix 0 fs"
    using find_rep [OF avl_repD(1) [OF rep] range n] f z by auto
  have "avl_add T h junk new = map_option Inr (avl_insert T h new (AVL_MKINDEX par ix))"
    by (simp add: avl_add_def F(1))
  then show ?thesis
    using insert_rep [OF rep z F(2)] fresh f unfolding n tree_add_def by auto
qed

subsection \<open>Moving a node after its key changed\<close>

definition sorted_nodes :: "avl_tree \<Rightarrow> u64 list \<Rightarrow> bool" where
  "sorted_nodes T = sorted_wrt (\<lambda>a b. node_compar T a b < 0)"

lemma tree_rep_nodes: "tree_rep h root t \<Longrightarrow> x \<in> nodes t \<Longrightarrow> x \<noteq> 0 \<and> aligned x"
  by (auto simp: tree_rep_def dest: tree_at_nodes)

lemma reinsert_rep:
  assumes rep: "avl_rep T h t" and x: "x = AVL_DATA2NODE obj (avl_offset T)" and i: "inorder t = as @ x # bs"
    and cmp: "compare_fn (node_compar T)" and sorted: "sorted_nodes T (as @ bs)"
    and ne: "\<forall>y\<in>set (as @ bs). node_compar T x y \<noteq> 0" and range: "in_table T x t"
    and tmp: "fresh_node tmp t"
  shows "\<exists>T' h' t'. avl_reinsert T h tmp junk obj = Some (Inr (True, T', h')) \<and> avl_rep T' h' t'
    \<and> sorted_nodes T (inorder t') \<and> nodes t' = nodes t"
proof -
  note r = avl_repD [OF rep]
  have xt: "x \<in> nodes t" using i by simp
  obtain T1 h1 where R: "avl_remove T h tmp obj = Some (Inr (T1, h1))" "avl_rep T1 h1 (tree_remove x t)"
    "T1 = T\<lparr>avl_root := avl_root T1, avl_numnodes := avl_numnodes T - 1\<rparr>"
    using remove_rep [OF rep xt [unfolded x] tmp] unfolding x by blast
  have [simp]: "avl_offset T1 = avl_offset T" "avl_compar T1 = avl_compar T"
    by (subst R(3), simp)+
  have [simp]: "node_compar T1 = node_compar T" by (simp add: node_compar_def fun_eq_iff)
  have i1: "inorder (tree_remove x t) = as @ bs" by (rule tree_remove_at(1) [OF r(2) i])
  have s1: "sorted_wrt (\<lambda>a b. node_compar T a b < 0) (inorder (tree_remove x t))"
    using sorted by (simp add: i1 sorted_nodes_def)
  have "fst (tree_find (node_compar T1 x) (tree_remove x t)) = None"
    using avl.find_decides [OF compare_fn.descending_sorted [OF cmp s1]] ne by (simp add: i1)
  moreover have "fresh_node x (tree_remove x t)"
    using tree_rep_nodes [OF r(1) xt] r(2) i by (simp add: fresh_node_def i1)
  moreover have "in_table T1 x (tree_remove x t)"
    using range by (simp add: in_table_def i i1)
  ultimately obtain T' h' where A: "avl_add T1 h1 junk obj = Some (Inr (T', h'))"
    "avl_rep T' h' (tree_add (node_compar T) x (tree_remove x t))"
    using add_rep [OF R(2), of x obj junk] x by auto
  note new = compare_fn.tree_add_new [OF cmp avl_repD(3) [OF R(2)] s1]
  have "avl_reinsert T h tmp junk obj = Some (Inr (True, T', h'))"
    by (simp add: avl_reinsert_def R(1) A(1))
  moreover have "sorted_nodes T (inorder (tree_add (node_compar T) x (tree_remove x t)))"
    "nodes (tree_add (node_compar T) x (tree_remove x t)) = nodes t"
    using new(2,3) [of x] ne by (auto simp: sorted_nodes_def i1 i)
  ultimately show ?thesis using A(2) by blast
qed

lemma sorted_fit:
  assumes "compare_fn cmp" "sorted_wrt (\<lambda>a b. cmp a b < 0) (as @ bs)"
    and "\<forall>y. last_of as = Some y \<longrightarrow> cmp y x < 0" "\<forall>y. first_of bs = Some y \<longrightarrow> cmp x y < 0"
  shows "sorted_wrt (\<lambda>a b. cmp a b < 0) (as @ x # bs)"
proof -
  have "cmp a x < 0" if a: "a \<in> set as" for a
  proof -
    obtain cs y where as: "as = cs @ [y]" using a by (cases as rule: rev_cases) auto
    then show ?thesis
      using a assms(2,3) compare_fn.trans [OF assms(1), of a y x] by (auto simp: sorted_wrt_append)
  qed
  moreover have "cmp x b < 0" if b: "b \<in> set bs" for b
    using b assms(2,4) compare_fn.trans [OF assms(1), of x _ b] by (cases bs) (auto simp: sorted_wrt_append)
  ultimately show ?thesis using assms(2) by (auto simp: sorted_wrt_append)
qed

text \<open>No node has a null data pointer: the callers tell the end of the tree by it.\<close>

definition data_ok :: "avl_tree \<Rightarrow> u64 atree \<Rightarrow> bool" where
  "data_ok T t \<longleftrightarrow> avl_offset T \<notin> nodes t"

lemma walk_data:
  assumes "tree_rep h (avl_root T) t" "x \<in> nodes t" "x = AVL_DATA2NODE obj (avl_offset T)"
  shows "avl_walk T h obj dir = Some (node_data T (tree_walk x dir t))"
  using walk_refines [OF assms(1,2), of dir] assms(3) by simp

lemma tree_walk_nodes:
  assumes "distinct (inorder t)" "x \<in> nodes t" "tree_walk x dir t = Some y"
  shows "y \<in> nodes t"
proof -
  obtain as bs where i: "inorder t = as @ x # bs" using assms(2) by (meson split_list)
  show ?thesis
    using tree_walk_at [OF assms(1) i] assms(3) i by (cases dir) (auto simp: first_of_eq_Some last_of_eq_Some)
qed

lemma node_data_nonzero: "data_ok T t \<Longrightarrow> y \<in> nodes t \<Longrightarrow> AVL_NODE2DATA y (avl_offset T) \<noteq> 0"
  by (auto simp: data_ok_def AVL_NODE2DATA_def)

lemma update_rep:
  assumes rep: "avl_rep T h t" and x: "x = AVL_DATA2NODE obj (avl_offset T)" and i: "inorder t = as @ x # bs"
    and cmp: "compare_fn (node_compar T)" and sorted: "sorted_nodes T (as @ bs)"
    and ne: "\<forall>y\<in>set (as @ bs). node_compar T x y \<noteq> 0" and range: "in_table T x t"
    and tmp: "fresh_node tmp t" and ok: "data_ok T t"
  shows "\<exists>moved T' h' t'. avl_update T h tmp junk obj = Some (Inr (moved, T', h')) \<and> avl_rep T' h' t'
    \<and> sorted_nodes T (inorder t') \<and> nodes t' = nodes t"
proof -
  note r = avl_repD [OF rep]
  have xt: "x \<in> nodes t" using i by simp
  have W: "avl_walk T h obj False = Some (node_data T (last_of as))"
    "avl_walk T h obj True = Some (node_data T (first_of bs))"
    using walk_data [OF r(1) xt x] tree_walk_at [OF r(2) i] by simp_all
  have nz: "AVL_NODE2DATA y (avl_offset T) \<noteq> 0" if "y \<in> set (as @ bs)" for y
    using node_data_nonzero [OF ok, of y] that i by auto
  have c: "avl_compar T obj (AVL_NODE2DATA y (avl_offset T)) = node_compar T x y" for y
    by (simp add: x node_compar_data)
  note re = reinsert_rep [OF rep x i cmp sorted ne range tmp, of junk]
  consider (lo) y where "last_of as = Some y" "node_compar T x y < 0"
    | (hi) y where "first_of bs = Some y" "0 < node_compar T x y" "\<forall>y. last_of as = Some y \<longrightarrow> \<not> node_compar T x y < 0"
    | (fit) "\<forall>y. last_of as = Some y \<longrightarrow> \<not> node_compar T x y < 0"
        "\<forall>y. first_of bs = Some y \<longrightarrow> \<not> 0 < node_compar T x y"
    by blast
  then show ?thesis
  proof cases
    case lo
    then have "avl_update T h tmp junk obj = avl_reinsert T h tmp junk obj"
      using nz [of y] c [of y] by (auto simp: avl_update_def W last_of_eq_Some)
    then show ?thesis using re by metis
  next
    case hi
    then have "avl_update T h tmp junk obj = avl_reinsert T h tmp junk obj"
      using nz [of y] c by (auto simp: avl_update_def W first_of_eq_Some node_data_def split: option.splits)
    then show ?thesis using re by metis
  next
    case fit
    then have "avl_update T h tmp junk obj = Some (Inr (False, T, h))"
      using c by (auto simp: avl_update_def W node_data_def split: option.splits)
    moreover have "node_compar T y x < 0" if "last_of as = Some y" for y
      using that fit(1) ne compare_fn.flip [OF cmp, of y x] by (force simp: last_of_eq_Some)
    moreover have "node_compar T x y < 0" if "first_of bs = Some y" for y
      using that fit(2) ne by (force simp: first_of_eq_Some)
    ultimately have "avl_update T h tmp junk obj = Some (Inr (False, T, h))" "sorted_nodes T (inorder t)"
      using sorted_fit [OF cmp sorted [unfolded sorted_nodes_def]] by (auto simp: sorted_nodes_def i)
    then show ?thesis using rep by blast
  qed
qed

subsection \<open>Inserting beside a node\<close>

lemma zip_to_spine_end:
  assumes "c \<noteq> Null"
  shows "\<exists>y b s gs. zip_to (spine d c) c fs = ((d, y, b, s) # gs, Null) \<and> tree_extreme d c = Some y"
  using assms
proof (induction c arbitrary: fs)
  case (Node l x b r)
  let ?c = "if d then r else l"
  show ?case
  proof (cases "?c = Null")
    case True
    then show ?thesis by (cases d) auto
  next
    case False
    then have "\<exists>y b s gs. zip_to (spine d ?c) ?c fs = ((d, y, b, s) # gs, Null) \<and> tree_extreme d ?c = Some y" for fs
      using Node.IH by (cases d) auto
    then show ?thesis
      by (cases d) (auto split: option.splits; metis option.inject)+
  qed
qed simp

lemma insert_here_rep:
  assumes rep: "avl_rep T h t" and x: "AVL_DATA2NODE here (avl_offset T) \<in> nodes t"
    and new: "fresh_node (AVL_DATA2NODE new (avl_offset T)) t"
  shows "\<exists>T' h'. avl_insert_here T h new here dir = Some (T', h')
    \<and> avl_rep T' h' (tree_insert_here (AVL_DATA2NODE new (avl_offset T)) (AVL_DATA2NODE here (avl_offset T)) dir t)
    \<and> (\<forall>a. a \<notin> insert (AVL_DATA2NODE new (avl_offset T)) (nodes t) \<longrightarrow> h' a = h a)"
proof -
  let ?x = "AVL_DATA2NODE here (avl_offset T)" and ?n = "AVL_DATA2NODE new (avl_offset T)"
  note r = avl_repD [OF rep]
  obtain p fs l b s where p: "path_of ?x t = Some p" and z: "zip_to p t [] = (fs, Node l ?x b s)"
    using path_ofE [OF x] by metis
  obtain par ix where n: "tree_at h par ix ?x (Node l ?x b s)"
    using focus_zip [OF r(1) z] by (metis tree_at.simps(2))
  let ?c = "sub dir (Node l ?x b s)" and ?s = "if dir then l else s" and ?q = "slot_beside p dir t"
  have c: "tree_at h ?x dir (avl_child (h ?x) dir) ?c" using n by simp
  have zq: "zip_to ?q t [] = zip_to (spine (\<not> dir) ?c) ?c ((dir, ?x, b, ?s) # fs)"
    by (simp add: slot_beside_def zip_to_append z)
  have "\<exists>d y b' s' gs. zip_to ?q t [] = ((d, y, b', s') # gs, Null)
      \<and> avl_insert_here T h new here dir = avl_insert T h new (AVL_MKINDEX y d)"
  proof (cases "?c = Null")
    case True
    then have "avl_child (h ?x) dir = 0" using c by simp
    then show ?thesis using True by (simp add: zq avl_insert_here_def Let_def)
  next
    case False
    obtain y b' s' gs where y: "zip_to ?q t [] = ((\<not> dir, y, b', s') # gs, Null)"
      "tree_extreme (\<not> dir) ?c = Some y"
      using zip_to_spine_end [OF False, of "\<not> dir" "(dir, ?x, b, ?s) # fs"] unfolding zq by blast
    have "avl_insert_here T h new here dir = avl_insert T h new (AVL_MKINDEX y (\<not> dir))"
      using tree_at_nonzero [OF c] False descend_refines [OF c False, of "\<not> dir"] y(2)
      by (simp add: avl_insert_here_def Let_def)
    then show ?thesis using y(1) by blast
  qed
  then obtain d y b' s' gs where q: "zip_to ?q t [] = ((d, y, b', s') # gs, Null)"
    and run: "avl_insert_here T h new here dir = avl_insert T h new (AVL_MKINDEX y d)" by blast
  obtain par' ix' p' where "ctx_at h (avl_root T) par' ix' p' ((d, y, b', s') # gs)" "tree_at h par' ix' p' Null"
    using focus_zip [OF r(1) q] by blast
  then have ctx: "ctx_at h (avl_root T) y d 0 ((d, y, b', s') # gs)" by simp
  have "tree_insert_here ?n ?x dir t = tree_insert ?n ?q t"
    by (simp add: tree_insert_here_def p)
  then show ?thesis
    using insert_rep [OF rep q ctx new] unfolding run by auto
qed

end
