(* ===== verification/Avl_Teardown.thy ===== *)
theory Avl_Teardown
  imports Avl_Client
begin

text \<open>
  \<^verbatim>\<open>avl_destroy_nodes()\<close> of \<^verbatim>\<open>lib/libavl/avl.c\<close> and the loop its callers run around it: every node is
  handed out once, children before their parent, and a node is not looked at again after that.
\<close>

text \<open>
  \<^verbatim>\<open>while ((node = avl_destroy_nodes(tree, &cookie)) != NULL) kmem_free(node, ...)\<close>; \<open>free\<close> is what
  happens to the memory of a node that was handed out.
\<close>

partial_function (option) destroy_loop ::
  "(u64 \<Rightarrow> heap \<Rightarrow> heap) \<Rightarrow> avl_tree \<Rightarrow> heap \<Rightarrow> u64 \<Rightarrow> u64 list \<Rightarrow> (u64 list \<times> avl_tree \<times> heap) option" where
  "destroy_loop free tree h cookie acc =
     Option.bind (avl_destroy_nodes tree h cookie) (\<lambda>(node, cookie, tree, h).
       if node = 0 then Some (acc, tree, h)
       else destroy_loop free tree (free node h) cookie (acc @ [node]))"

subsection \<open>The nodes still to be handed out\<close>

fun pending :: "'a frame list \<Rightarrow> 'a list" where
  "pending [] = []"
| "pending ((d, x, b, s) # fs) = (if d then [] else postorder s) @ x # pending fs"

fun pending_ok :: "'a frame list \<Rightarrow> bool" where
  "pending_ok [] = True"
| "pending_ok ((d, x, b, s) # fs) \<longleftrightarrow> (if d then s = Null else balanced s) \<and> pending_ok fs"

primrec leftmost :: "'a atree \<Rightarrow> 'a frame list \<Rightarrow> 'a atree \<times> 'a frame list" where
  "leftmost Null fs = (Null, fs)"
| "leftmost (Node l x b r) fs =
     (if l = Null then (Node l x b r, fs) else leftmost l ((False, x, b, r) # fs))"

lemma leftmost_props:
  assumes "t \<noteq> Null" "balanced t" "leftmost t fs = (u, gs)"
  shows "\<exists>y b r. u = Node Null y b r \<and> (r = Null \<or> (\<exists>z c. r = Node Null z c Null))
    \<and> postorder t @ pending fs = postorder u @ pending gs \<and> (pending_ok fs \<longrightarrow> pending_ok gs)
    \<and> tree_first t = Some y \<and> plug gs u = plug fs t"
  using assms
proof (induction t arbitrary: fs)
  case (Node l x b r)
  show ?case
  proof (cases "l = Null")
    case True
    have "height r \<le> 1" using Node.prems(2) True by auto
    then have "r = Null \<or> (\<exists>z c. r = Node Null z c Null)"
    proof (cases r)
      case (Node a z c e)
      then have "height a = 0" "height e = 0" using \<open>height r \<le> 1\<close> by auto
      then show ?thesis using Node by (cases a; cases e) auto
    qed simp
    then show ?thesis using Node.prems True by auto
  next
    case False
    then have "leftmost l ((False, x, b, r) # fs) = (u, gs)" using Node.prems(3) by simp
    from Node.IH(1) [OF False _ this] show ?thesis
      using Node.prems(2) by (fastforce simp: mk_def)
  qed
qed simp

lemma leftmost_at:
  assumes "ctx_at h root par ix p fs" "tree_at h par ix p t" "t \<noteq> Null" "leftmost t fs = (u, gs)"
  shows "\<exists>par' ix' p'. avl_leftmost h par p = Some (par', p') \<and> ctx_at h root par' ix' p' gs
    \<and> tree_at h par' ix' p' u"
  using assms
proof (induction t arbitrary: par ix p fs)
  case (Node l x b r)
  have [simp]: "p = x" using Node.prems(2) by simp
  show ?case
  proof (cases "l = Null")
    case True
    then have "avl_child (h x) False = 0" using Node.prems(2) by simp
    then have "avl_leftmost h par p = Some (par, x)"
      by (subst avl_leftmost.simps) simp
    then show ?thesis using Node.prems True by auto
  next
    case False
    have "ctx_at h root x False (avl_child (h x) False) ((False, x, b, r) # fs)"
      "tree_at h x False (avl_child (h x) False) l" using Node.prems(1,2) by auto
    moreover have "leftmost l ((False, x, b, r) # fs) = (u, gs)"
      using Node.prems(4) False by simp
    ultimately have "\<exists>par' ix' p'. avl_leftmost h x (avl_child (h x) False) = Some (par', p')
        \<and> ctx_at h root par' ix' p' gs \<and> tree_at h par' ix' p' u"
      using Node.IH(1) False by blast
    moreover have "avl_child (h x) False \<noteq> 0"
      using tree_at_nonzero [of h x False "avl_child (h x) False" l] Node.prems(2) False by simp
    ultimately show ?thesis
      by (subst avl_leftmost.simps) simp
  qed
qed simp

subsection \<open>One call\<close>

definition cookie_for :: "u64 \<Rightarrow> bool \<Rightarrow> u64" where
  "cookie_for par ix = (if par = 0 then CHILDBIT else par OR of_bool ix)"

text \<open>
  The state between two calls: the context of the node handed out last. Its own memory is not
  mentioned any more.
\<close>

definition between :: "heap \<Rightarrow> avl_tree \<Rightarrow> u64 \<Rightarrow> u64 frame list \<Rightarrow> bool" where
  "between h T cookie fs \<longleftrightarrow> pending_ok fs \<and> distinct (lefts fs @ rights fs)
     \<and> (\<exists>par ix p. ctx_at h (avl_root T) par ix p fs \<and> cookie = cookie_for par ix)"

lemma destroy_check_right_step:
  assumes ctx: "ctx_at h (avl_root T) par ix y fs" and n: "tree_at h par ix y (Node Null y b r)"
    and r: "r = Null \<or> (\<exists>z c. r = Node Null z c Null)" and ok: "pending_ok fs"
    and dist: "distinct (inorder (plug fs (Node Null y b r)))"
  shows "\<exists>x cookie gs. destroy_check_right T h par y = (AVL_NODE2DATA x (avl_offset T), cookie, T, h)
    \<and> postorder (Node Null y b r) @ pending fs = x # pending gs \<and> between h T cookie gs
    \<and> x \<notin> ctx_nodes gs"
proof (cases "r = Null")
  case True
  then have "destroy_check_right T h par y = (AVL_NODE2DATA y (avl_offset T), cookie_for par ix, T, h)"
    using n by (simp add: destroy_check_right_def destroy_done_def cookie_for_def)
  moreover have "between h T (cookie_for par ix) fs"
    using ctx ok dist unfolding between_def by auto
  ultimately show ?thesis
    using True dist by auto
next
  case False
  then obtain z c where z: "r = Node Null z c Null" using r by blast
  let ?gs = "(True, y, b, Null) # fs"
  have "avl_child (h y) True = z" "z \<noteq> 0" "AVL_XCHILD (h z)" "y \<noteq> 0"
    using n by (auto simp: z)
  then have "destroy_check_right T h par y = (AVL_NODE2DATA z (avl_offset T), cookie_for y True, T, h)"
    by (simp add: destroy_check_right_def destroy_done_def cookie_for_def)
  moreover have "ctx_at h (avl_root T) y True z ?gs"
    using ctx n by (simp add: z)
  then have "between h T (cookie_for y True) ?gs"
    using ok dist unfolding between_def by auto
  ultimately show ?thesis
    using dist by (intro exI [of _ z] exI [of _ "cookie_for y True"] exI [of _ ?gs]) (auto simp: z)
qed

lemma cookie_for_simps:
  assumes "aligned par"
  shows "cookie_for par ix AND NOT CHILDBIT = par" "par \<noteq> 0 \<Longrightarrow> cookie_for par ix AND CHILDBIT = 1 \<longleftrightarrow> ix"
    "cookie_for par ix \<noteq> 0"
proof -
  have e: "cookie_for par ix = AVL_MKINDEX par (par = 0 \<or> ix)"
    by (simp add: cookie_for_def AVL_MKINDEX_def CHILDBIT_def)
  show "cookie_for par ix AND NOT CHILDBIT = par" "par \<noteq> 0 \<Longrightarrow> cookie_for par ix AND CHILDBIT = 1 \<longleftrightarrow> ix"
    using index_simps [OF assms, of "par = 0 \<or> ix"]
    unfolding e AVL_INDEX2NODE_def AVL_INDEX2CHILD_def CHILDBIT_def by simp_all
  then show "cookie_for par ix \<noteq> 0"
    by (cases "par = 0") (auto simp: cookie_for_def CHILDBIT_def)
qed

lemma destroy_step:
  assumes "between h T cookie fs" "fs \<noteq> []"
  shows "\<exists>x cookie' T' h' gs. avl_destroy_nodes T h cookie = Some (AVL_NODE2DATA x (avl_offset T), cookie', T', h')
    \<and> pending fs = x # pending gs \<and> between h' T' cookie' gs \<and> x \<notin> ctx_nodes gs
    \<and> (avl_offset T' = avl_offset T \<and> avl_root T' = avl_root T) \<and> (\<forall>a. a \<notin> ctx_nodes fs \<longrightarrow> h' a = h a)"
proof -
  obtain d x b s fs' where fs: "fs = (d, x, b, s) # fs'"
    using assms(2) by (cases fs) auto
  obtain par ix p where ctx: "ctx_at h (avl_root T) par ix p fs" and ck: "cookie = cookie_for par ix"
    using assms(1) by (auto simp: between_def)
  have ok: "pending_ok fs" and dist: "distinct (lefts fs @ rights fs)"
    using assms(1) by (auto simp: between_def)
  have x: "par = x" "ix = d" "x \<noteq> 0" "aligned x" "balance_ok b" "AVL_XBALANCE (h x) = b"
    "tree_at h x (\<not> d) (avl_child (h x) (\<not> d)) s"
    "ctx_at h (avl_root T) (AVL_XPARENT (h x)) (AVL_XCHILD (h x)) x fs'"
    using ctx by (auto simp: fs)
  define h1 where "h1 = upd x (set_child d 0) h"
  define T1 where "T1 = T\<lparr>avl_numnodes := avl_numnodes T - 1\<rparr>"
  have nx: "x \<notin> ctx_nodes fs'" "x \<notin> nodes s" "distinct (lefts fs' @ rights fs')"
    using dist by (auto simp: fs split: if_splits)
  have c1: "ctx_at h1 (avl_root T1) (AVL_XPARENT (h x)) (AVL_XCHILD (h x)) x fs'"
    using x(8) by (subst ctx_at_cong [of fs' h1 h]) (use nx in \<open>auto simp: h1_def T1_def\<close>)
  have s1: "tree_at h1 x (\<not> d) (avl_child (h x) (\<not> d)) s"
    using x(7) by (subst tree_at_cong [of s h1 h]) (use nx in \<open>auto simp: h1_def\<close>)
  have dn: "avl_destroy_nodes T h cookie =
      (if d \<or> avl_child (h1 x) True = 0 then Some (destroy_done T1 h1 (AVL_XPARENT (h1 x)) x)
       else map_option (\<lambda>(q, n). destroy_check_right T1 h1 q n) (avl_leftmost h1 x (avl_child (h1 x) True)))"
    using cookie_for_simps [OF x(4), of d] x(3)
    by (simp add: avl_destroy_nodes_def ck x(1,2) Let_def h1_def T1_def)
  have off: "avl_offset T1 = avl_offset T \<and> avl_root T1 = avl_root T"
    by (simp add: T1_def)
  have out: "\<forall>a. a \<notin> ctx_nodes fs \<longrightarrow> h1 a = h a"
    by (auto simp: fs h1_def)
  show ?thesis
  proof (cases "d \<or> s = Null")
    case True
    then have "avl_destroy_nodes T h cookie = Some (AVL_NODE2DATA x (avl_offset T),
        cookie_for (AVL_XPARENT (h x)) (AVL_XCHILD (h x)), T1, h1)"
      using x(7) by (auto simp: dn destroy_done_def cookie_for_def h1_def T1_def)
    moreover have "between h1 T1 (cookie_for (AVL_XPARENT (h x)) (AVL_XCHILD (h x))) fs'"
      using c1 ok nx(3) unfolding between_def fs by auto
    moreover have "pending fs = x # pending fs'"
      using True by (auto simp: fs)
    ultimately show ?thesis
      using nx(1) out off by blast
  next
    case False
    let ?gs = "(True, x, b, Null) # fs'" and ?p = "avl_child (h x) True"
    have c2: "ctx_at h1 (avl_root T1) x True ?p ?gs" and s2: "tree_at h1 x True ?p s"
      using False c1 s1 x by (auto simp: h1_def)
    obtain u gs where l: "leftmost s ?gs = (u, gs)" by fastforce
    have bal: "s \<noteq> Null" "balanced s" "pending_ok ?gs" using False ok by (auto simp: fs)
    obtain y c r where u: "u = Node Null y c r" "r = Null \<or> (\<exists>z c. r = Node Null z c Null)"
      "postorder s @ pending ?gs = postorder u @ pending gs" "pending_ok gs" "plug gs u = plug ?gs s"
      using leftmost_props [OF bal(1,2) l] bal(3) by blast
    obtain par' ix' where m: "avl_leftmost h1 x ?p = Some (par', y)" "ctx_at h1 (avl_root T1) par' ix' y gs"
      "tree_at h1 par' ix' y u"
      using leftmost_at [OF c2 s2 bal(1) l] by (auto simp: u(1))
    have "distinct (inorder (plug ?gs s))"
      using dist False by (auto simp: fs)
    then have d2: "distinct (inorder (plug gs u))" by (simp only: u(5))
    obtain w cookie' gs' where K: "destroy_check_right T1 h1 par' y = (AVL_NODE2DATA w (avl_offset T1), cookie', T1, h1)"
      "postorder u @ pending gs = w # pending gs'" "between h1 T1 cookie' gs'" "w \<notin> ctx_nodes gs'"
      using destroy_check_right_step [OF m(2) m(3) [unfolded u(1)] u(2,4) d2 [unfolded u(1)]]
      unfolding u(1) by blast
    have "avl_child (h1 x) True = ?p" "?p \<noteq> 0"
      using False tree_at_nonzero [OF s2] bal(1) by (auto simp: h1_def)
    then have "avl_destroy_nodes T h cookie = Some (AVL_NODE2DATA w (avl_offset T), cookie', T1, h1)"
      using False K(1) m(1) by (simp add: dn T1_def)
    moreover have "pending fs = w # pending gs'"
      using u(3) K(2) False by (simp add: fs)
    ultimately show ?thesis
      using K(3,4) out off by blast
  qed
qed

lemma destroy_end:
  assumes "between h T cookie []" "avl_root T \<noteq> 0"
  shows "avl_destroy_nodes T h cookie = Some (0, cookie, T\<lparr>avl_root := 0, avl_numnodes := 0\<rparr>, h)"
proof -
  have "cookie = cookie_for 0 ix" for ix
    using assms(1) by (auto simp: between_def cookie_for_def)
  then show ?thesis
    using cookie_for_simps [of 0 True] assms(2) by (simp add: avl_destroy_nodes_def Let_def aligned_def)
qed

lemma set_pending: "pending_ok fs \<Longrightarrow> set (pending fs) = ctx_nodes fs"
  by (induction fs rule: pending.induct) auto

text \<open>Freeing a node touches nothing but that node.\<close>

definition frees :: "avl_tree \<Rightarrow> (u64 \<Rightarrow> heap \<Rightarrow> heap) \<Rightarrow> bool" where
  "frees T free \<longleftrightarrow> (\<forall>d h a. a \<noteq> AVL_DATA2NODE d (avl_offset T) \<longrightarrow> free d h a = h a)"

lemma between_free:
  assumes "between h T cookie fs" "x \<notin> ctx_nodes fs" "\<And>a. a \<noteq> x \<Longrightarrow> h' a = h a"
  shows "between h' T cookie fs"
proof -
  have "ctx_at h' root par ix p fs = ctx_at h root par ix p fs" for root par ix p
    by (rule ctx_at_cong, rule assms(3)) (use assms(2) in auto)
  then show ?thesis using assms(1) by (simp add: between_def)
qed

lemma destroy_loop_from:
  assumes "between h T cookie fs" "avl_root T \<noteq> 0" "frees T free" "avl_offset T \<notin> ctx_nodes fs"
  shows "\<exists>T' h'. destroy_loop free T h cookie acc =
      Some (acc @ map (\<lambda>x. AVL_NODE2DATA x (avl_offset T)) (pending fs), T', h')
    \<and> avl_root T' = 0 \<and> avl_numnodes T' = 0 \<and> (\<forall>a. a \<notin> ctx_nodes fs \<longrightarrow> h' a = h a)"
  using assms
proof (induction "length (pending fs)" arbitrary: h T cookie fs acc rule: less_induct)
  case less
  have ok: "pending_ok fs" using less.prems(1) by (simp add: between_def)
  show ?case
  proof (cases "fs = []")
    case True
    then show ?thesis
      using destroy_end [of h T cookie] less.prems(1,2) by (subst destroy_loop.simps) simp
  next
    case False
    obtain x cookie' T' h1 gs where S:
      "avl_destroy_nodes T h cookie = Some (AVL_NODE2DATA x (avl_offset T), cookie', T', h1)"
      "pending fs = x # pending gs" "between h1 T' cookie' gs" "x \<notin> ctx_nodes gs"
      "avl_offset T' = avl_offset T" "avl_root T' = avl_root T" "\<forall>a. a \<notin> ctx_nodes fs \<longrightarrow> h1 a = h a"
      using destroy_step [OF less.prems(1) False] by blast
    let ?d = "AVL_NODE2DATA x (avl_offset T)" and ?h = "free (AVL_NODE2DATA x (avl_offset T)) h1"
    have x: "x \<in> ctx_nodes fs" and gs: "ctx_nodes gs \<subseteq> ctx_nodes fs"
      using set_pending [OF ok] set_pending [of gs] S(2,3) by (auto simp: between_def)
    then have "?d \<noteq> 0" using less.prems(4) by (auto simp: AVL_NODE2DATA_def)
    have fr: "?h a = h1 a" if "a \<noteq> x" for a
      using less.prems(3) that by (simp add: frees_def)
    have b: "between ?h T' cookie' gs"
      by (rule between_free [OF S(3,4) fr])
    have "frees T' free" "avl_root T' \<noteq> 0" "avl_offset T' \<notin> ctx_nodes gs" "length (pending gs) < length (pending fs)"
      using less.prems S(2,5,6) gs by (auto simp: frees_def)
    then obtain T2 h2 where R: "destroy_loop free T' ?h cookie' (acc @ [?d]) =
        Some ((acc @ [?d]) @ map (\<lambda>x. AVL_NODE2DATA x (avl_offset T')) (pending gs), T2, h2)"
      "avl_root T2 = 0" "avl_numnodes T2 = 0" "\<forall>a. a \<notin> ctx_nodes gs \<longrightarrow> h2 a = ?h a"
      using less.hyps [OF _ b, of "acc @ [?d]"] by blast
    have "destroy_loop free T h cookie acc = destroy_loop free T' ?h cookie' (acc @ [?d])"
      using S(1) \<open>?d \<noteq> 0\<close> by (subst destroy_loop.simps) simp
    moreover have "h2 a = h a" if "a \<notin> ctx_nodes fs" for a
    proof -
      have "a \<notin> ctx_nodes gs" "a \<noteq> x" using that gs x by blast+
      then show ?thesis using R(4) fr [of a] S(7) that by simp
    qed
    ultimately show ?thesis
      using R(1-3) S(2,5) by simp
  qed
qed

lemma destroy_all_rep:
  assumes rep: "avl_rep T h t" and ok: "data_ok T t" and free: "frees T free"
  shows "\<exists>T' h'. destroy_loop free T h 0 [] = Some (map (\<lambda>x. AVL_NODE2DATA x (avl_offset T)) (postorder t), T', h')
    \<and> avl_rep T' h' Null \<and> (\<forall>a. a \<notin> nodes t \<longrightarrow> h' a = h a)"
proof (cases "t = Null")
  case True
  then have "avl_destroy_nodes T h 0 = Some (0, CHILDBIT, T, h)"
    using ends_refine(1) [OF avl_repD(1) [OF rep]] by (simp add: avl_destroy_nodes_def)
  then show ?thesis
    using True rep by (subst destroy_loop.simps) simp
next
  case False
  note r = avl_repD [OF rep]
  obtain u gs where l: "leftmost t [] = (u, gs)" by fastforce
  obtain y c s where u: "u = Node Null y c s" "s = Null \<or> (\<exists>z c. s = Node Null z c Null)"
    "postorder t = postorder u @ pending gs" "pending_ok gs" "tree_first t = Some y" "plug gs u = t"
    using leftmost_props [OF False r(3) l, unfolded pending.simps pending_ok.simps plug.simps append_Nil2] by blast
  obtain par ix where m: "ctx_at h (avl_root T) par ix y gs" "tree_at h par ix y u"
    using r(1) plug_at [of h "avl_root T" gs u] unfolding tree_rep_def u(6) by (metis tree_at.simps(2) u(1))
  obtain x cookie gs' where K: "destroy_check_right T h par y = (AVL_NODE2DATA x (avl_offset T), cookie, T, h)"
    "postorder u @ pending gs = x # pending gs'" "between h T cookie gs'" "x \<notin> ctx_nodes gs'"
    using destroy_check_right_step [OF m(1) m(2) [unfolded u(1)] u(2,4)] r(2) unfolding u(1) [symmetric] u(6)
    by blast
  let ?d = "AVL_NODE2DATA x (avl_offset T)"
  have post: "postorder t = x # pending gs'" using u(3) K(2) by simp
  have sub: "x \<in> nodes t" "ctx_nodes gs' \<subseteq> nodes t"
    using post set_pending [of gs'] K(3) set_postorder [of t] by (auto simp: between_def)
  have "y \<in> nodes t" using u(5) by (auto simp: tree_extreme_ends first_of_eq_Some)
  moreover have "AVL_XPARENT (h y) = par" using m(2) by (simp add: u(1))
  ultimately have first: "avl_destroy_nodes T h 0 = Some (?d, cookie, T, h)"
    using ends_refine(1) [OF r(1)] u(5) node_data_nonzero [OF ok, of y] K(1)
    by (simp add: avl_destroy_nodes_def Let_def)
  have fr: "free ?d h a = h a" if "a \<noteq> x" for a
    using free that by (simp add: frees_def)
  have root: "avl_root T \<noteq> 0"
    using r(1) False by (auto simp: tree_rep_def)
  have "avl_offset T \<notin> ctx_nodes gs'" using ok sub(2) by (auto simp: data_ok_def)
  then obtain T' h' where R: "destroy_loop free T (free ?d h) cookie [?d] =
      Some ([?d] @ map (\<lambda>x. AVL_NODE2DATA x (avl_offset T)) (pending gs'), T', h')"
    "avl_root T' = 0" "avl_numnodes T' = 0" "\<forall>a. a \<notin> ctx_nodes gs' \<longrightarrow> h' a = free ?d h a"
    using destroy_loop_from [OF between_free [OF K(3,4) fr] root free, of "[?d]"] by blast
  have "destroy_loop free T h 0 [] = Some (map (\<lambda>x. AVL_NODE2DATA x (avl_offset T)) (postorder t), T', h')"
    using first R(1) node_data_nonzero [OF ok sub(1)] by (subst destroy_loop.simps) (simp add: post)
  moreover have "avl_rep T' h' Null" using R(2,3) by (simp add: avl_rep_def tree_rep_def)
  moreover have "h' a = h a" if "a \<notin> nodes t" for a
  proof -
    have "a \<notin> ctx_nodes gs'" "a \<noteq> x" using that sub by blast+
    then show ?thesis using R(4) fr by simp
  qed
  ultimately show ?thesis by blast
qed

end
