(* ===== verification/Avl_Theorems.thy ===== *)
theory Avl_Theorems
  imports Avl_Teardown
begin

text \<open>
  The properties of the pointer routines of \<^verbatim>\<open>lib/libavl/avl.c\<close>, with a small tree as example.
\<close>

subsection \<open>The loop over a tree\<close>

text \<open>\<^verbatim>\<open>for (x = avl_first(t); x != NULL; x = AVL_NEXT(t, x))\<close>: the data visited.\<close>

partial_function (option) visit_loop :: "avl_tree \<Rightarrow> heap \<Rightarrow> u64 \<Rightarrow> u64 list \<Rightarrow> u64 list option" where
  "visit_loop tree h x acc =
     (if x = 0 then Some acc
      else Option.bind (avl_walk tree h x True) (\<lambda>y. visit_loop tree h y (acc @ [x])))"

lemma visit_loop_from:
  assumes r: "tree_rep h (avl_root T) t" "distinct (inorder t)" and ok: "data_ok T t"
    and i: "inorder t = as @ bs"
  shows "visit_loop T h (node_data T (first_of bs)) acc =
    Some (acc @ map (\<lambda>x. AVL_NODE2DATA x (avl_offset T)) bs)"
  using i
proof (induction bs arbitrary: as acc)
  case Nil
  then show ?case by (subst visit_loop.simps) simp
next
  case (Cons x bs)
  have x: "x \<in> nodes t" using Cons.prems by simp
  have "avl_walk T h (AVL_NODE2DATA x (avl_offset T)) True = Some (node_data T (first_of bs))"
    using walk_refines [OF r(1) x, of True] tree_walk_at(1) [OF r(2) Cons.prems] by simp
  then show ?case
    using node_data_nonzero [OF ok x] Cons.IH [of "as @ [x]"] Cons.prems
    by (subst visit_loop.simps) simp
qed

subsection \<open>An example\<close>

definition addr_compare :: "u64 \<Rightarrow> u64 \<Rightarrow> int" where
  "addr_compare x y = (if x < y then - 1 else if x = y then 0 else 1)"

definition example_tree :: avl_tree where
  "example_tree = \<lparr>avl_root = 72, avl_compar = addr_compare, avl_offset = 8, avl_numnodes = 2, avl_size = 32\<rparr>"

definition example_heap :: heap where
  "example_heap = (\<lambda>a. if a = 72 then \<lparr>avl_child = (\<lambda>d. if d then 104 else 0), avl_pcb = 2\<rparr>
     else \<lparr>avl_child = (\<lambda>d. 0), avl_pcb = 77\<rparr>)"

definition example_nodes :: "u64 atree" where
  "example_nodes = Node Null 72 1 (Node Null 104 0 Null)"

lemma example_rep: "avl_rep example_tree example_heap example_nodes"
  by (auto simp: avl_rep_def tree_rep_def example_tree_def example_heap_def example_nodes_def aligned_def
      balance_ok_def AVL_XPARENT_def AVL_XCHILD_def AVL_XBALANCE_def)

interpretation addr_order: compare_fn "node_compar example_tree"
  by unfold_locales
    (auto simp: node_compar_def example_tree_def addr_compare_def AVL_NODE2DATA_def split: if_splits)

lemma example_range: "in_table example_tree n t"
  by (simp add: in_table_def node_compar_def example_tree_def addr_compare_def)

lemma example_order: "sorted_nodes example_tree (inorder example_nodes)"
  by (simp add: sorted_nodes_def node_compar_def example_nodes_def example_tree_def addr_compare_def AVL_NODE2DATA_def)

subsection \<open>Properties\<close>

text \<open>
  (C16) \<^verbatim>\<open>avl_add()\<close>. On a tree in the heap that is in order, adding a node that compares different
  from all others terminates and leaves a balanced tree in order, with correct parent pointers,
  child indices, balances and count, over the old nodes and the new one. No other memory changes.
\<close>

theorem avl_add_correct:
  assumes "avl_rep T h t" and "compare_fn (node_compar T)" and "sorted_nodes T (inorder t)"
    and "n = AVL_DATA2NODE new (avl_offset T)" and "fresh_node n t" and "in_table T n t"
    and "\<forall>y\<in>nodes t. node_compar T n y \<noteq> 0"
  shows "\<exists>T' h' t'. avl_add T h junk new = Some (Inr (T', h')) \<and> avl_rep T' h' t'
    \<and> sorted_nodes T (inorder t') \<and> nodes t' = insert n (nodes t)
    \<and> (\<forall>a. a \<notin> insert n (nodes t) \<longrightarrow> h' a = h a)"
proof -
  note s = assms(3) [unfolded sorted_nodes_def]
  note new = compare_fn.tree_add_new [OF assms(2) avl_repD(3) [OF assms(1)] s assms(7)]
  have "fst (tree_find (node_compar T n) t) = None"
    using avl.find_decides [OF compare_fn.descending_sorted [OF assms(2) s]] assms(7) by blast
  then obtain T' h' where "avl_add T h junk new = Some (Inr (T', h'))" "avl_rep T' h' (tree_add (node_compar T) n t)"
    "\<forall>a. a \<notin> insert n (nodes t) \<longrightarrow> h' a = h a"
    using add_rep [OF assms(1,6,4) _ assms(5), of junk] by blast
  then show ?thesis using new(2,3) unfolding sorted_nodes_def by blast
qed

theorem avl_add_correct_witness:
  "\<exists>T' h' t'. avl_add example_tree example_heap 7 80 = Some (Inr (T', h')) \<and> avl_rep T' h' t'
    \<and> nodes t' = {72, 88, 104}"
proof -
  have "\<exists>T' h' t'. avl_add example_tree example_heap 7 80 = Some (Inr (T', h')) \<and> avl_rep T' h' t'
    \<and> sorted_nodes example_tree (inorder t') \<and> nodes t' = insert 88 (nodes example_nodes)
    \<and> (\<forall>a. a \<notin> insert 88 (nodes example_nodes) \<longrightarrow> h' a = example_heap a)"
    by (rule avl_add_correct [OF example_rep addr_order.compare_fn_axioms example_order _ _ example_range])
      (simp_all add: example_tree_def AVL_DATA2NODE_def fresh_node_def aligned_def example_nodes_def
        node_compar_def addr_compare_def AVL_NODE2DATA_def)
  moreover have "insert 88 (nodes example_nodes) = {72, 88, 104}"
    by (auto simp: example_nodes_def)
  ultimately show ?thesis by metis
qed

text \<open>
  (C17) \<^verbatim>\<open>avl_remove()\<close>. Removing a node of a tree in the heap terminates and implements the removal
  on the abstract tree of the data that the nodes carry: the sequence loses exactly that node, the
  tree stays balanced, and besides the nodes only the place holder on the stack is written.
\<close>

theorem avl_remove_refines:
  assumes "avl_rep T h t" and "inorder t = as @ x # bs" and "x = AVL_DATA2NODE data (avl_offset T)"
    and "fresh_node tmp t" and "inj_on val (nodes t)"
  shows "\<exists>T' h' t'. avl_remove T h tmp data = Some (Inr (T', h')) \<and> avl_rep T' h' t' \<and> inorder t' = as @ bs
    \<and> map_atree val t' = tree_remove (val x) (map_atree val t)
    \<and> (\<forall>a. a \<notin> insert tmp (nodes t) \<longrightarrow> h' a = h a)"
proof -
  have x: "x \<in> nodes t" using assms(2) by simp
  obtain T' h' where "avl_remove T h tmp data = Some (Inr (T', h'))" "avl_rep T' h' (tree_remove x t)"
    "\<forall>a. a \<notin> insert tmp (nodes t) \<longrightarrow> h' a = h a"
    using remove_rep [OF assms(1) x [unfolded assms(3)] assms(4)] unfolding assms(3) by blast
  then show ?thesis
    using tree_remove_at(1) [OF avl_repD(2) [OF assms(1)] assms(2)] map_tree_remove [OF assms(5) x] by blast
qed

theorem avl_remove_refines_witness:
  "\<exists>T' h' t'. avl_remove example_tree example_heap 16 64 = Some (Inr (T', h')) \<and> avl_rep T' h' t'
    \<and> inorder t' = [104] \<and> map_atree unat t' = Node Null 104 0 Null"
proof -
  have "inj_on (unat :: u64 \<Rightarrow> nat) (nodes example_nodes)"
    by (simp add: inj_on_def example_nodes_def)
  then have "\<exists>T' h' t'. avl_remove example_tree example_heap 16 64 = Some (Inr (T', h')) \<and> avl_rep T' h' t'
    \<and> inorder t' = [] @ [104] \<and> map_atree unat t' = tree_remove (unat (72 :: u64)) (map_atree unat example_nodes)
    \<and> (\<forall>a. a \<notin> insert 16 (nodes example_nodes) \<longrightarrow> h' a = example_heap a)"
    by (intro avl_remove_refines [OF example_rep])
      (simp_all add: example_nodes_def example_tree_def AVL_DATA2NODE_def fresh_node_def aligned_def)
  moreover have "tree_remove (unat (72 :: u64)) (map_atree unat example_nodes) = Node Null 104 0 Null"
    by (simp add: example_nodes_def tree_remove_def)
  ultimately show ?thesis by (metis append_Nil)
qed

text \<open>
  (C18) \<^verbatim>\<open>avl_find()\<close> and \<^verbatim>\<open>avl_nearest()\<close>. The search terminates and decides whether a node compares
  equal; when none does, the place it leaves leads \<^verbatim>\<open>avl_nearest()\<close> to the last smaller node and to
  the first larger one, or to a null pointer at the ends.
\<close>

theorem avl_find_correct:
  assumes "avl_rep T h t" and "compare_fn (node_compar T)" and "sorted_nodes T (inorder t)"
    and "n = AVL_DATA2NODE val (avl_offset T)" and "in_table T n t"
  shows "\<exists>r. avl_find T h val = Some (Inr r) \<and> (case r of
      Inl d \<Rightarrow> AVL_DATA2NODE d (avl_offset T) \<in> nodes t \<and> node_compar T n (AVL_DATA2NODE d (avl_offset T)) = 0
    | Inr w \<Rightarrow> (\<forall>y\<in>nodes t. node_compar T n y \<noteq> 0)
        \<and> avl_nearest T h w False = Some (node_data T (last_of (filter (\<lambda>y. 0 < node_compar T n y) (inorder t))))
        \<and> avl_nearest T h w True = Some (node_data T (first_of (filter (\<lambda>y. node_compar T n y < 0) (inorder t)))))"
proof -
  have d: "descending (node_compar T n) (inorder t)"
    using compare_fn.descending_sorted [OF assms(2) assms(3) [unfolded sorted_nodes_def]] .
  note f = find_rep [OF avl_repD(1) [OF assms(1)] assms(5,4)]
  obtain r q where rq: "tree_find (node_compar T n) t = (r, q)" by fastforce
  show ?thesis
  proof (cases r)
    case (Some x)
    then show ?thesis
      using f rq tree_find_Some [of "node_compar T n" t x q] by auto
  next
    case None
    then obtain par ix where w: "avl_find T h val = Some (Inr (Inr (AVL_MKINDEX par ix)))"
      "ctx_at h (avl_root T) par ix 0 (fst (zip_to q t []))"
      using f rq by auto
    have s: "is_slot q t" "\<forall>x\<in>set (before q t). 0 < node_compar T n x" "\<forall>x\<in>set (after q t). node_compar T n x < 0"
      using tree_find_None [OF d] rq None by auto
    have "filter (\<lambda>y. 0 < node_compar T n y) (inorder t) = before q t"
      "filter (\<lambda>y. node_compar T n y < 0) (inorder t) = after q t"
      using s(2,3) unfolding slot_splits [OF s(1)] filter_append
      by (simp_all add: filter_id_conv filter_empty_conv) (force simp: filter_id_conv filter_empty_conv)+
    moreover have "\<forall>y\<in>nodes t. node_compar T n y \<noteq> 0"
      using s(2,3) unfolding slot_splits [OF s(1)] by auto
    ultimately show ?thesis
      using w nearest_refines [OF w(2)] by (simp add: climb_ends before_def after_def)
  qed
qed

theorem avl_find_correct_witness:
  "\<exists>w. avl_find example_tree example_heap 80 = Some (Inr (Inr w))
    \<and> avl_nearest example_tree example_heap w False = Some 64 \<and> avl_nearest example_tree example_heap w True = Some 96"
proof -
  let ?n = "88 :: u64"
  obtain r where r: "avl_find example_tree example_heap 80 = Some (Inr r)"
    "case r of
      Inl d \<Rightarrow> AVL_DATA2NODE d (avl_offset example_tree) \<in> nodes example_nodes
        \<and> node_compar example_tree ?n (AVL_DATA2NODE d (avl_offset example_tree)) = 0
    | Inr w \<Rightarrow> (\<forall>y\<in>nodes example_nodes. node_compar example_tree ?n y \<noteq> 0)
        \<and> avl_nearest example_tree example_heap w False =
            Some (node_data example_tree (last_of (filter (\<lambda>y. 0 < node_compar example_tree ?n y) (inorder example_nodes))))
        \<and> avl_nearest example_tree example_heap w True =
            Some (node_data example_tree (first_of (filter (\<lambda>y. node_compar example_tree ?n y < 0) (inorder example_nodes))))"
    using avl_find_correct [OF example_rep addr_order.compare_fn_axioms example_order _ example_range, of ?n 80]
    by (auto simp: example_tree_def AVL_DATA2NODE_def)
  then show ?thesis
    by (cases r) (auto simp: example_nodes_def example_tree_def node_compar_def addr_compare_def AVL_NODE2DATA_def
        AVL_DATA2NODE_def node_data_def)
qed

text \<open>
  (C31) \<^verbatim>\<open>avl_first()\<close> and \<^verbatim>\<open>AVL_NEXT\<close>. The loop over a tree ends and visits the data of every node once,
  in order.
\<close>

theorem avl_iteration_complete:
  assumes "avl_rep T h t" and "data_ok T t"
  shows "\<exists>first. avl_first T h = Some first
    \<and> visit_loop T h first [] = Some (map (\<lambda>x. AVL_NODE2DATA x (avl_offset T)) (inorder t))"
  using visit_loop_from [OF avl_repD(1,2) [OF assms(1)] assms(2), of "[]" "inorder t" "[]"]
    ends_refine(1) [OF avl_repD(1) [OF assms(1)]]
  by (simp add: tree_extreme_ends)

theorem avl_iteration_complete_witness:
  "\<exists>first. avl_first example_tree example_heap = Some first
    \<and> visit_loop example_tree example_heap first [] = Some [64, 96]"
  using avl_iteration_complete [OF example_rep]
  by (simp add: example_tree_def example_nodes_def data_ok_def AVL_NODE2DATA_def)

text \<open>
  (C29) \<^verbatim>\<open>avl_destroy_nodes()\<close>. The documented loop ends, hands out the data of every node exactly once,
  children before their parent, although each node is overwritten as soon as it was handed out, and
  leaves an empty tree.
\<close>

theorem avl_destroy_nodes_complete:
  assumes "avl_rep T h t" and "data_ok T t" and "frees T free"
  shows "\<exists>T' h'. destroy_loop free T h 0 [] =
      Some (map (\<lambda>x. AVL_NODE2DATA x (avl_offset T)) (postorder t), T', h')
    \<and> avl_is_empty T' \<and> avl_root T' = 0 \<and> set (postorder t) = nodes t \<and> distinct (postorder t)
    \<and> (\<forall>a. a \<notin> nodes t \<longrightarrow> h' a = h a)"
proof -
  obtain T' h' where "destroy_loop free T h 0 [] =
      Some (map (\<lambda>x. AVL_NODE2DATA x (avl_offset T)) (postorder t), T', h')"
    "avl_rep T' h' Null" "\<forall>a. a \<notin> nodes t \<longrightarrow> h' a = h a"
    using destroy_all_rep [OF assms] by blast
  then show ?thesis
    using distinct_postorder [OF avl_repD(2) [OF assms(1)]]
    by (simp add: avl_rep_def tree_rep_def avl_is_empty_def)
qed

text \<open>Memory that is filled with a pattern when it is freed.\<close>

definition poison :: "u64 \<Rightarrow> heap \<Rightarrow> heap" where
  "poison d h = h(d + 8 := \<lparr>avl_child = (\<lambda>_. 0xdeadbeef), avl_pcb = 0xdeadbeef\<rparr>)"

theorem avl_destroy_nodes_complete_witness:
  "\<exists>T' h'. destroy_loop poison example_tree example_heap 0 [] = Some ([96, 64], T', h') \<and> avl_is_empty T'"
proof -
  have "frees example_tree poison" "data_ok example_tree example_nodes"
    by (simp_all add: frees_def poison_def example_tree_def AVL_DATA2NODE_def data_ok_def example_nodes_def)
  note * = avl_destroy_nodes_complete [OF example_rep this(2,1)]
  have "map (\<lambda>x. AVL_NODE2DATA x (avl_offset example_tree)) (postorder example_nodes) = [96, 64]"
    by (simp add: example_nodes_def example_tree_def AVL_NODE2DATA_def)
  then show ?thesis using * by metis
qed

text \<open>
  (C30) \<^verbatim>\<open>avl_update()\<close>. After the key of one node changed, in a tree that is in order without that node,
  the call moves the node if it has to and leaves a balanced tree in order over the same nodes.
\<close>

theorem avl_update_correct:
  assumes "avl_rep T h t" and "compare_fn (node_compar T)" and "inorder t = as @ x # bs"
    and "x = AVL_DATA2NODE obj (avl_offset T)" and "sorted_nodes T (as @ bs)"
    and "\<forall>y\<in>set (as @ bs). node_compar T x y \<noteq> 0" and "in_table T x t" and "fresh_node tmp t" and "data_ok T t"
  shows "\<exists>moved T' h' t'. avl_update T h tmp junk obj = Some (Inr (moved, T', h')) \<and> avl_rep T' h' t'
    \<and> sorted_nodes T (inorder t') \<and> nodes t' = nodes t"
  by (rule update_rep [OF assms(1,4,3,2,5-9)])

text \<open>The example with the two keys the wrong way round.\<close>

definition swapped_tree :: avl_tree where
  "swapped_tree = example_tree\<lparr>avl_compar := (\<lambda>x y. addr_compare y x)\<rparr>"

lemma swapped_rep: "avl_rep swapped_tree example_heap example_nodes"
  using example_rep by (simp add: swapped_tree_def avl_rep_def)

interpretation swapped_order: compare_fn "node_compar swapped_tree"
  by unfold_locales
    (auto simp: node_compar_def swapped_tree_def example_tree_def addr_compare_def AVL_NODE2DATA_def split: if_splits)

theorem avl_update_correct_witness:
  "\<exists>moved T' h' t'. avl_update swapped_tree example_heap 16 7 64 = Some (Inr (moved, T', h'))
    \<and> avl_rep T' h' t' \<and> sorted_nodes swapped_tree (inorder t') \<and> nodes t' = nodes example_nodes"
  by (rule avl_update_correct [OF swapped_rep swapped_order.compare_fn_axioms, of "[]" 72 "[104]"])
    (simp_all add: example_nodes_def swapped_tree_def example_tree_def AVL_DATA2NODE_def sorted_nodes_def
      node_compar_def addr_compare_def AVL_NODE2DATA_def in_table_def fresh_node_def aligned_def data_ok_def)

end
