(* ===== verification/Zle.thy ===== *)
theory Zle
  imports ZPrelude
begin

text \<open>
  Zero-length encoding, \<^verbatim>\<open>lib/libzpool/zle.c\<close>. Pointers into the source buffer are indices, the
  destination is the list of bytes written so far. \<open>n\<close> is the compression parameter.
\<close>

subsection \<open>Compression\<close>

text \<open>\<^verbatim>\<open>while (src < MIN(last, s_end) && src[0] == 0) src++;\<close> up to the index \<open>lim\<close>\<close>

function zle_zeros :: "u8 list \<Rightarrow> nat \<Rightarrow> nat \<Rightarrow> nat" where
  "zle_zeros s lim src = (if src < lim \<and> s ! src = 0 then zle_zeros s lim (Suc src) else src)"
  by pat_completeness auto
termination
  by (relation "measure (\<lambda>(s, lim, src). lim - src)") auto

text \<open>\<^verbatim>\<open>while (src < MIN(last, s_end) - 1 && (src[0] | src[1])) *dst++ = *src++;\<close>\<close>

function zle_literals :: "u8 list \<Rightarrow> nat \<Rightarrow> nat \<Rightarrow> u8 list \<Rightarrow> nat \<times> u8 list" where
  "zle_literals s lim src dst =
     (if src + 1 < lim \<and> s ! src OR s ! (src + 1) \<noteq> 0
      then zle_literals s lim (Suc src) (dst @ [s ! src]) else (src, dst))"
  by pat_completeness auto
termination
  by (relation "measure (\<lambda>(s, lim, src, dst). lim - src)") auto

declare zle_zeros.simps [simp del] zle_literals.simps [simp del]

text \<open>
  One turn of the main loop appends a length byte and perhaps literals; \<open>None\<close> is the \<^verbatim>\<open>break\<close>.
\<close>

definition zle_chunk :: "u8 list \<Rightarrow> nat \<Rightarrow> nat \<Rightarrow> nat \<Rightarrow> u8 list \<Rightarrow> (nat \<times> u8 list) option" where
  "zle_chunk s d_len n src dst =
    (if s ! src = 0
     then let src' = zle_zeros s (min (src + (256 - n)) (length s)) src
          in Some (src', dst @ [word_of_int (int src' - int src - 1 + int n)])
     else if d_len - (length dst + 1) < n then None
     else
       let (src1, lits1) = zle_literals s (min (src + n) (length s)) src [];
           (src', lits) = (if s ! src1 \<noteq> 0 then (src1 + 1, lits1 @ [s ! src1]) else (src1, lits1))
       in Some (src', dst @ [word_of_int (int src' - int src - 1)] @ lits))"

function zle_loop :: "u8 list \<Rightarrow> nat \<Rightarrow> nat \<Rightarrow> nat \<Rightarrow> u8 list \<Rightarrow> nat \<times> u8 list" where
  "zle_loop s d_len n src dst =
    (if src < length s \<and> length dst + 1 < d_len
     then case zle_chunk s d_len n src dst of
         None \<Rightarrow> (src, dst)
       | Some (src', dst') \<Rightarrow> zle_loop s d_len n src' dst'
     else (src, dst))"
  by pat_completeness auto
termination
  by (relation "measure (\<lambda>(s, d_len, n, src, dst). d_len - length dst)")
    (auto simp: zle_chunk_def Let_def split: if_splits prod.splits)

declare zle_loop.simps [simp del]

text \<open>The size returned, and the bytes in the destination.\<close>

definition zle_compress :: "u8 list \<Rightarrow> nat \<Rightarrow> nat \<Rightarrow> nat \<times> u8 list" where
  "zle_compress s d_len n =
     (let (src, dst) = zle_loop s d_len n 0 []
      in (if src = length s then length dst else length s, dst))"

subsection \<open>Decompression\<close>

text \<open>
  The inner loops have no limit of their own: a length byte that promises more than there is makes
  them read behind the source or write behind the destination.
\<close>

function zle_unloop :: "u8 list \<Rightarrow> nat \<Rightarrow> nat \<Rightarrow> nat \<Rightarrow> u8 list \<Rightarrow> (nat \<times> u8 list) outcome" where
  "zle_unloop s d_len n src dst =
    (if src < length s \<and> length dst < d_len
     then
       let len = 1 + unat (s ! src); src = src + 1
       in if len \<le> n
          then if length s < src + len \<or> d_len < length dst + len then Inl Bad_access
               else zle_unloop s d_len n (src + len) (dst @ take len (drop src s))
          else if d_len < length dst + (len - n) then Inl Bad_access
               else zle_unloop s d_len n src (dst @ replicate (len - n) 0)
     else Inr (src, dst))"
  by pat_completeness auto
termination
  by (relation "measure (\<lambda>(s, d_len, n, src, dst). length s - src)") auto

declare zle_unloop.simps [simp del]

definition zle_decompress :: "u8 list \<Rightarrow> nat \<Rightarrow> nat \<Rightarrow> (int \<times> u8 list) outcome" where
  "zle_decompress s d_len n =
     bind_outcome (zle_unloop s d_len n 0 []) (\<lambda>(src, dst). Inr (if length dst = d_len then 0 else - 1, dst))"

subsection \<open>What one chunk says\<close>

abbreviation slice :: "'a list \<Rightarrow> nat \<Rightarrow> nat \<Rightarrow> 'a list" where
  "slice s i j \<equiv> take (j - i) (drop i s)"

lemma slice_Suc: "i < j \<Longrightarrow> i < length s \<Longrightarrow> slice s i j = s ! i # slice s (Suc i) j"
  using Cons_nth_drop_Suc [of i s] Suc_diff_Suc [of i j] by (metis take_Suc_Cons)

lemma slice_snoc:
  assumes "i \<le> j" "j < length s"
  shows "slice s i (Suc j) = slice s i j @ [s ! j]"
  using assms by (simp add: Suc_diff_le take_Suc_conv_app_nth)

lemma slice_append: "i \<le> j \<Longrightarrow> j \<le> k \<Longrightarrow> slice s i j @ slice s j k = slice s i k"
  using take_add [of "j - i" "k - j" "drop i s"] by (simp add: add.commute)

lemma zle_zeros_props:
  assumes "src \<le> lim" "lim \<le> length s"
  shows "src \<le> zle_zeros s lim src \<and> zle_zeros s lim src \<le> lim
    \<and> slice s src (zle_zeros s lim src) = replicate (zle_zeros s lim src - src) 0
    \<and> (src < lim \<and> s ! src = 0 \<longrightarrow> src < zle_zeros s lim src)"
  using assms
proof (induction s lim src rule: zle_zeros.induct)
  case (1 s lim src)
  show ?case
  proof (cases "src < lim \<and> s ! src = 0")
    case True
    let ?z = "zle_zeros s lim (Suc src)"
    have IH: "Suc src \<le> ?z" "?z \<le> lim" "slice s (Suc src) ?z = replicate (?z - Suc src) 0"
      using 1 True by auto
    have "slice s src ?z = 0 # slice s (Suc src) ?z"
      using slice_Suc [of src ?z s] IH(1,2) True 1(3) by simp
    also have "\<dots> = replicate (?z - src) 0"
      using IH(1,3) by (simp add: Suc_diff_Suc [symmetric] flip: replicate_Suc)
    finally show ?thesis
      using IH True by (simp add: zle_zeros.simps [of s lim src])
  next
    case False
    then show ?thesis using 1 by (auto simp: zle_zeros.simps [of s lim src])
  qed
qed

lemma zle_literals_props:
  assumes "src < lim" "lim \<le> length s"
  shows "\<exists>src'. zle_literals s lim src dst = (src', dst @ slice s src src') \<and> src \<le> src' \<and> src' < lim
    \<and> (s ! src \<noteq> 0 \<and> s ! src' = 0 \<longrightarrow> src < src')"
  using assms
proof (induction s lim src dst rule: zle_literals.induct)
  case (1 s lim src dst)
  show ?case
  proof (cases "src + 1 < lim \<and> s ! src OR s ! (src + 1) \<noteq> 0")
    case True
    then obtain src' where "zle_literals s lim (Suc src) (dst @ [s ! src]) =
        (src', (dst @ [s ! src]) @ slice s (Suc src) src')" "Suc src \<le> src'" "src' < lim"
      using 1 by auto
    moreover from this have "slice s src src' = s ! src # slice s (Suc src) src'"
      using slice_Suc [of src src' s] 1(3) by simp
    ultimately show ?thesis
      using True by (simp add: zle_literals.simps [of s lim src])
  next
    case False
    then show ?thesis using 1 by (auto simp: zle_literals.simps [of s lim src])
  qed
qed

lemma unat_length_byte:
  assumes "0 < k" "k \<le> 256"
  shows "unat (word_of_int (int k - 1) :: u8) = k - 1"
proof -
  have "unat (of_nat (k - 1) :: u8) = k - 1"
    using assms by (intro unat_of_nat_small) auto
  moreover have "(word_of_int (int k - 1) :: u8) = of_nat (k - 1)"
    using assms by (simp add: of_nat_diff)
  ultimately show ?thesis by simp
qed

text \<open>
  A chunk stands for the bytes it was made from: the decoder at its start appends them and arrives
  at its end, whatever comes before and after it in the buffer.
\<close>

lemma zle_chunk_decodes:
  assumes chunk: "zle_chunk s d_len n src dst = Some (src', dst')"
    and src: "src < length s" "length dst + 1 < d_len" and n: "0 < n" "n < 256"
  obtains c where "dst' = dst @ c" "c \<noteq> []" "src < src'" "src' \<le> length s" "length dst' \<le> d_len"
    "\<And>pre post out D. length out + (src' - src) \<le> D \<Longrightarrow>
      zle_unloop (pre @ c @ post) D n (length pre) out =
      zle_unloop (pre @ c @ post) D n (length (pre @ c)) (out @ slice s src src')"
proof (cases "s ! src = 0")
  case True
  define lim where "lim = min (src + (256 - n)) (length s)"
  have src': "src' = zle_zeros s lim src" and raw: "dst' = dst @ [word_of_int (int src' - int src - 1 + int n)]"
    using chunk True by (auto simp: zle_chunk_def Let_def lim_def)
  have z: "src < src'" "src' \<le> lim" "slice s src src' = replicate (src' - src) 0"
    using zle_zeros_props [of src lim s] True src n by (auto simp: src' lim_def)
  have "int src' - int src - 1 + int n = int (src' - src + n) - 1"
    using z(1) by simp
  then have dst': "dst' = dst @ [word_of_int (int (src' - src + n) - 1)]"
    using raw by (simp only:)
  define bt :: u8 where "bt = word_of_int (int (src' - src + n) - 1)"
  have b: "unat bt = src' - src + n - 1"
    unfolding bt_def using z n by (intro unat_length_byte) (auto simp: lim_def)
  show thesis
  proof (rule that [of "[bt]"])
    fix pre post out :: "u8 list" and D
    assume D: "length out + (src' - src) \<le> (D :: nat)"
    have "\<not> 1 + (src' - src + n - 1) \<le> n" "1 + (src' - src + n - 1) - n = src' - src" "length out < D"
      using z(1) n D by auto
    then show "zle_unloop (pre @ [bt] @ post) D n (length pre) out =
      zle_unloop (pre @ [bt] @ post) D n (length (pre @ [bt])) (out @ slice s src src')"
      using D z by (subst zle_unloop.simps) (simp add: Let_def b nth_append)
  qed (use z dst' [folded bt_def] src in \<open>auto simp: lim_def\<close>)
next
  case False
  define lim where "lim = min (src + n) (length s)"
  have room: "\<not> d_len - (length dst + 1) < n"
    using chunk False by (auto simp: zle_chunk_def split: if_splits)
  obtain src1 where l: "zle_literals s lim src [] = (src1, slice s src src1)" "src \<le> src1" "src1 < lim"
    "s ! src1 = 0 \<longrightarrow> src < src1"
    using zle_literals_props [of src lim s "[]"] src n False by (auto simp: lim_def)
  have "src1 < length s" using l(3) by (simp add: lim_def)
  note snoc = slice_snoc [OF l(2) this]
  have src': "src' = (if s ! src1 \<noteq> 0 then Suc src1 else src1)"
    and dst': "dst' = dst @ word_of_int (int (src' - src) - 1) # slice s src src'"
    using chunk False room l src snoc
    by (auto simp: zle_chunk_def Let_def lim_def of_nat_diff simp flip: lim_def split: if_splits)
  have z: "src < src'" "src' \<le> lim" "lim \<le> length s" "lim \<le> src + n"
    using l by (auto simp: src' lim_def split: if_splits)
  define bt :: u8 where "bt = word_of_int (int (src' - src) - 1)"
  let ?l = "slice s src src'"
  have b: "unat bt = src' - src - 1"
    unfolding bt_def using z n by (intro unat_length_byte) auto
  have len: "length ?l = src' - src" using z by simp
  have fit: "length dst + 1 + (src' - src) \<le> d_len" "src' \<le> length s"
    using z room src(2) by linarith+
  have e: "dst' = dst @ bt # ?l" by (rule dst' [folded bt_def])
  have f: "length dst' \<le> d_len" using fit(1) len by (simp only: e length_append list.size)
  show thesis
  proof (rule that [OF e _ z(1) fit(2) f])
    show "bt # ?l \<noteq> []" by simp
    fix pre post out :: "u8 list" and D
    assume D: "length out + (src' - src) \<le> (D :: nat)"
    obtain l k where lk: "?l = l" "src' - src = k" by simp
    have "unat bt = k - 1" "length l = k" "0 < k" "k \<le> n" "length out + k \<le> D"
      using b len z D unfolding lk [symmetric] by linarith+
    then show "zle_unloop (pre @ (bt # ?l) @ post) D n (length pre) out =
      zle_unloop (pre @ (bt # ?l) @ post) D n (length (pre @ bt # ?l)) (out @ ?l)"
      unfolding lk(1) by (subst zle_unloop.simps) (simp add: Let_def nth_append)
  qed
qed

lemma zle_loop_decodes:
  assumes "src \<le> length s" "length dst \<le> d_len" "0 < n" "n < 256" "zle_loop s d_len n src dst = (src', dst')"
  shows "\<exists>c. dst' = dst @ c \<and> src \<le> src' \<and> src' \<le> length s \<and> length dst' \<le> d_len
    \<and> (\<forall>pre post out D. length out + (src' - src) \<le> D \<longrightarrow>
      zle_unloop (pre @ c @ post) D n (length pre) out =
      zle_unloop (pre @ c @ post) D n (length (pre @ c)) (out @ slice s src src'))"
  using assms
proof (induction s d_len n src dst rule: zle_loop.induct)
  case (1 s d_len n src dst)
  show ?case
  proof (cases "src < length s \<and> length dst + 1 < d_len \<and> zle_chunk s d_len n src dst \<noteq> None")
    case True
    then obtain src1 dst1 where c: "zle_chunk s d_len n src dst = Some (src1, dst1)"
      and src: "src < length s" "length dst + 1 < d_len" by fastforce
    obtain c1 where C: "dst1 = dst @ c1" "src < src1" "src1 \<le> length s" "length dst1 \<le> d_len"
      "\<And>pre post out D. length out + (src1 - src) \<le> D \<Longrightarrow>
        zle_unloop (pre @ c1 @ post) D n (length pre) out =
        zle_unloop (pre @ c1 @ post) D n (length (pre @ c1)) (out @ slice s src src1)"
      using zle_chunk_decodes [OF c src 1(4,5)] by metis
    have run: "zle_loop s d_len n src1 dst1 = (src', dst')"
      using 1(6) c src by (simp add: zle_loop.simps [of s d_len n src])
    have "src < length s \<and> length dst + 1 < d_len" using src by simp
    note IH = 1(1) [OF this c refl C(3,4) 1(4,5) run]
    then obtain c2 where E: "dst' = dst1 @ c2" "src1 \<le> src'" "src' \<le> length s" "length dst' \<le> d_len"
      "\<forall>pre post out D. length out + (src' - src1) \<le> D \<longrightarrow>
        zle_unloop (pre @ c2 @ post) D n (length pre) out =
        zle_unloop (pre @ c2 @ post) D n (length (pre @ c2)) (out @ slice s src1 src')"
      by blast
    have "zle_unloop (pre @ (c1 @ c2) @ post) D n (length pre) out =
        zle_unloop (pre @ (c1 @ c2) @ post) D n (length (pre @ c1 @ c2)) (out @ slice s src src')"
      if "length out + (src' - src) \<le> D" for pre post out D
    proof -
      have "zle_unloop (pre @ c1 @ (c2 @ post)) D n (length pre) out =
          zle_unloop (pre @ c1 @ (c2 @ post)) D n (length (pre @ c1)) (out @ slice s src src1)"
        using that C(2) E(2) by (intro C(5)) simp
      also have "\<dots> = zle_unloop ((pre @ c1) @ c2 @ post) D n (length ((pre @ c1) @ c2))
          ((out @ slice s src src1) @ slice s src1 src')"
        using E(5) [rule_format, of "out @ slice s src src1" D "pre @ c1" post] that C(2,3) E(2) by simp
      finally show ?thesis
        using slice_append [of src src1 src' s] C(2) E(2) by simp
    qed
    then show ?thesis
      using C E by (intro exI [of _ "c1 @ c2"]) auto
  next
    case False
    then have "src' = src" "dst' = dst"
      using 1(6) by (auto simp: zle_loop.simps [of s d_len n src] split: option.splits)
    then show ?thesis using 1(2,3) by auto
  qed
qed

subsection \<open>Round trip\<close>

lemma zle_compress_fits:
  assumes "zle_compress s d_len n = (r, out)" "0 < n" "n < 256" "r < length s"
  shows "r = length out" "r \<le> d_len"
proof -
  obtain src dst where l: "zle_loop s d_len n 0 [] = (src, dst)" by fastforce
  have "length dst \<le> d_len" using zle_loop_decodes [OF _ _ assms(2,3) l] by auto
  then show "r = length out" "r \<le> d_len"
    using assms(1,4) by (auto simp: zle_compress_def l split: if_splits)
qed

lemma zle_compress_decompress:
  assumes "zle_compress s d_len n = (r, out)" "0 < n" "n < 256" "r < length s"
  shows "zle_decompress (out @ pad) (length s) n = Inr (0, s)"
proof -
  obtain src dst where l: "zle_loop s d_len n 0 [] = (src, dst)" by fastforce
  have src: "src = length s" "dst = out"
    using assms(1,4) by (auto simp: zle_compress_def l split: if_splits)
  have c: "\<forall>pre post o' D. length o' + (length s - 0) \<le> D \<longrightarrow>
      zle_unloop (pre @ out @ post) D n (length pre) o' =
      zle_unloop (pre @ out @ post) D n (length (pre @ out)) (o' @ slice s 0 (length s))"
    using zle_loop_decodes [OF _ _ assms(2,3) l [unfolded src]] by simp
  have "zle_unloop (out @ pad) (length s) n 0 [] = zle_unloop (out @ pad) (length s) n (length out) s"
    using c [rule_format, of "[]" "length s" "[]" pad] by simp
  also have "\<dots> = Inr (length out, s)"
    by (subst zle_unloop.simps) simp
  finally show ?thesis by (simp add: zle_decompress_def)
qed

end
