(* ===== verification/Lzjb.thy ===== *)
theory Lzjb
  imports ZPrelude
begin

text \<open>
  The Lempel-Ziv compressor \<^verbatim>\<open>lib/libzpool/lzjb.c\<close>. Pointers into the buffers are indices. The hash
  table holds the low sixteen bits of addresses, so the address of the source buffer is an argument.
\<close>

definition MATCH_BITS :: nat where
  "MATCH_BITS = 6"

definition MATCH_MIN :: nat where
  "MATCH_MIN = 3"

definition MATCH_MAX :: nat where
  "MATCH_MAX = 2 ^ MATCH_BITS + (MATCH_MIN - 1)"

definition OFFSET_MASK :: u64 where
  "OFFSET_MASK = 2 ^ (16 - MATCH_BITS) - 1"

definition LEMPEL_SIZE :: nat where
  "LEMPEL_SIZE = 1024"

definition NBBY :: nat where
  "NBBY = 8"

lemmas lzjb_consts = MATCH_BITS_def MATCH_MIN_def MATCH_MAX_def LEMPEL_SIZE_def NBBY_def

subsection \<open>Compression\<close>

definition lzjb_hash :: "u8 list \<Rightarrow> nat \<Rightarrow> nat" where
  "lzjb_hash s src =
    (let hash = unat (s ! src) * 2 ^ 16 + unat (s ! (src + 1)) * 2 ^ 8 + unat (s ! (src + 2));
         hash = hash + hash div 2 ^ 9;
         hash = hash + hash div 2 ^ 5
     in hash mod LEMPEL_SIZE)"

text \<open>\<^verbatim>\<open>for (mlen = MATCH_MIN; mlen < MATCH_MAX; mlen++) if (src[mlen] != cpy[mlen]) break;\<close>\<close>

function lzjb_match :: "u8 list \<Rightarrow> nat \<Rightarrow> nat \<Rightarrow> nat \<Rightarrow> nat" where
  "lzjb_match s src cpy mlen =
     (if mlen < MATCH_MAX \<and> s ! (src + mlen) = s ! (cpy + mlen) then lzjb_match s src cpy (Suc mlen) else mlen)"
  by pat_completeness auto
termination
  by (relation "measure (\<lambda>(s, src, cpy, mlen). MATCH_MAX - mlen)") auto

declare lzjb_match.simps [simp del]

lemma lzjb_match_ge: "mlen \<le> lzjb_match s src cpy mlen"
  by (induction s src cpy mlen rule: lzjb_match.induct) (subst lzjb_match.simps, auto)

lemma lzjb_match_pos [simp]: "0 < lzjb_match s src cpy MATCH_MIN"
  using lzjb_match_ge [of MATCH_MIN s src cpy] by (simp add: MATCH_MIN_def)

text \<open>One item: a literal, or a match with its bit in the copy map.\<close>

definition lzjb_item ::
  "u64 \<Rightarrow> u8 list \<Rightarrow> nat \<Rightarrow> u8 list \<Rightarrow> nat \<Rightarrow> nat \<Rightarrow> (nat \<Rightarrow> u16) \<Rightarrow> nat \<times> u8 list \<times> (nat \<Rightarrow> u16)" where
  "lzjb_item base s src dst copymask copymap lempel =
    (if length s < src + MATCH_MAX then (src + 1, dst @ [s ! src], lempel)
     else
       let h = lzjb_hash s src;
           offset = unat ((base + of_nat src - ucast (lempel h)) AND OFFSET_MASK);
           lempel = lempel(h := ucast (base + of_nat src));
           cpy = src - offset
       in if offset \<le> src \<and> offset \<noteq> 0
             \<and> s ! src = s ! cpy \<and> s ! (src + 1) = s ! (cpy + 1) \<and> s ! (src + 2) = s ! (cpy + 2)
          then
            let dst = dst[copymap := dst ! copymap OR of_nat copymask];
                mlen = lzjb_match s src cpy MATCH_MIN
            in (src + mlen,
                dst @ [of_nat (push_bit (NBBY - MATCH_BITS) (mlen - MATCH_MIN) OR drop_bit NBBY offset), of_nat offset],
                lempel)
          else (src + 1, dst @ [s ! src], lempel))"

lemma lzjb_item_progress: "lzjb_item base s src dst m c lempel = (src', dst', lempel') \<Longrightarrow> src < src'"
  by (auto simp: lzjb_item_def Let_def split: if_splits)

text \<open>The main loop; \<open>False\<close> is the early return when the destination is full.\<close>

function lzjb_loop ::
  "u64 \<Rightarrow> u8 list \<Rightarrow> nat \<Rightarrow> nat \<Rightarrow> u8 list \<Rightarrow> nat \<Rightarrow> nat \<Rightarrow> (nat \<Rightarrow> u16) \<Rightarrow> bool \<times> u8 list" where
  "lzjb_loop base s d_len src dst copymask copymap lempel =
    (if src < length s
     then
       if 2 * copymask = 2 ^ NBBY
       then
         if int d_len - 1 - 2 * int NBBY \<le> int (length dst) then (False, dst)
         else case lzjb_item base s src (dst @ [0]) 1 (length dst) lempel of
             (src', dst', lempel') \<Rightarrow> lzjb_loop base s d_len src' dst' 1 (length dst) lempel'
       else case lzjb_item base s src dst (2 * copymask) copymap lempel of
           (src', dst', lempel') \<Rightarrow> lzjb_loop base s d_len src' dst' (2 * copymask) copymap lempel'
     else (True, dst))"
  by pat_completeness auto
termination
  by (relation "measure (\<lambda>(base, s, d_len, src, dst, m, c, l). length s - src)")
    (auto dest!: lzjb_item_progress [OF sym])

declare lzjb_loop.simps [simp del]

definition lzjb_compress :: "u64 \<Rightarrow> u8 list \<Rightarrow> nat \<Rightarrow> nat \<times> u8 list" where
  "lzjb_compress base s d_len =
     (let (done', dst) = lzjb_loop base s d_len 0 [] (2 ^ (NBBY - 1)) 0 (\<lambda>_. 0)
      in (if done' then length dst else length s, dst))"

subsection \<open>Decompression\<close>

text \<open>\<^verbatim>\<open>while (--mlen >= 0 && dst < d_end) *dst++ = *cpy++;\<close>\<close>

fun lzjb_copy :: "u8 list \<Rightarrow> nat \<Rightarrow> nat \<Rightarrow> nat \<Rightarrow> u8 list \<times> nat" where
  "lzjb_copy d dst cpy 0 = (d, dst)"
| "lzjb_copy d dst cpy (Suc mlen) =
     (if dst < length d then lzjb_copy (d[dst := d ! cpy]) (dst + 1) (cpy + 1) mlen else (d, dst))"

lemma lzjb_copy_progress:
  "lzjb_copy d dst cpy mlen = (d', dst') \<Longrightarrow> length d' = length d \<and> dst \<le> dst' \<and> (0 < mlen \<and> dst < length d \<longrightarrow> dst < dst')"
  by (induction d dst cpy mlen rule: lzjb_copy.induct) (auto split: if_splits)

text \<open>
  \<open>d\<close> is the destination buffer, whatever it held before. The source is read without regard to its
  length.
\<close>

definition byte_at :: "u8 list \<Rightarrow> nat \<Rightarrow> u8 outcome" where
  "byte_at s i = (if i < length s then Inr (s ! i) else Inl Bad_access)"

definition lzjb_unitem :: "u8 list \<Rightarrow> nat \<Rightarrow> u8 list \<Rightarrow> nat \<Rightarrow> bool \<Rightarrow> (nat \<times> u8 list \<times> nat) option outcome" where
  "lzjb_unitem s src d dst copied =
    (if copied
     then
       bind_outcome (byte_at s src) (\<lambda>b0.
       bind_outcome (byte_at s (src + 1)) (\<lambda>b1.
       let mlen = unat b0 div 2 ^ (NBBY - MATCH_BITS) + MATCH_MIN;
           offset = unat ((push_bit NBBY (ucast b0) OR ucast b1) AND OFFSET_MASK)
       in if dst < offset then Inr None
          else let (d', dst') = lzjb_copy d dst (dst - offset) mlen
               in Inr (Some (src + 2, d', dst'))))
     else bind_outcome (byte_at s src) (\<lambda>b. Inr (Some (src + 1, d[dst := b], dst + 1))))"

lemma lzjb_unitem_progress:
  "lzjb_unitem s src d dst c = Inr (Some (src', d', dst')) \<Longrightarrow> dst < length d \<Longrightarrow> dst < dst' \<and> length d' = length d"
  by (auto simp: lzjb_unitem_def bind_outcome_eq_Inr_iff Let_def MATCH_MIN_def split: if_splits prod.splits
      dest: lzjb_copy_progress)

function lzjb_unloop :: "u8 list \<Rightarrow> nat \<Rightarrow> u8 list \<Rightarrow> nat \<Rightarrow> nat \<Rightarrow> u8 \<Rightarrow> (int \<times> u8 list) outcome" where
  "lzjb_unloop s src d dst copymask copymap =
    (if dst < length d
     then
       case (if 2 * copymask = 2 ^ NBBY then map_sum id (\<lambda>b. (src + 1, 1, b)) (byte_at s src)
             else Inr (src, 2 * copymask, copymap)) of
         Inl p \<Rightarrow> Inl p
       | Inr (src, copymask, copymap) \<Rightarrow>
           (case lzjb_unitem s src d dst (copymap AND of_nat copymask \<noteq> 0) of
              Inl p \<Rightarrow> Inl p
            | Inr None \<Rightarrow> Inr (- 1, d)
            | Inr (Some (src', d', dst')) \<Rightarrow> lzjb_unloop s src' d' dst' copymask copymap)
     else Inr (0, d))"
  by pat_completeness auto
termination
  by (relation "measure (\<lambda>(s, src, d, dst, m, c). length d - dst)") (auto dest!: lzjb_unitem_progress)

declare lzjb_unloop.simps [simp del]

definition lzjb_decompress :: "u8 list \<Rightarrow> u8 list \<Rightarrow> (int \<times> u8 list) outcome" where
  "lzjb_decompress s d = lzjb_unloop s 0 d 0 (2 ^ (NBBY - 1)) 0"

subsection \<open>Items\<close>

lemma lzjb_match_same:
  assumes "\<forall>i<mlen. s ! (src + i) = s ! (cpy + i)" "mlen \<le> MATCH_MAX"
  shows "lzjb_match s src cpy mlen \<le> MATCH_MAX
    \<and> (\<forall>i<lzjb_match s src cpy mlen. s ! (src + i) = s ! (cpy + i))"
  using assms
proof (induction s src cpy mlen rule: lzjb_match.induct)
  case (1 s src cpy mlen)
  show ?case
  proof (cases "mlen < MATCH_MAX \<and> s ! (src + mlen) = s ! (cpy + mlen)")
    case True
    then show ?thesis
      using 1 by (simp add: lzjb_match.simps [of s src cpy mlen] less_Suc_eq)
  next
    case False
    then have "lzjb_match s src cpy mlen = mlen" by (subst lzjb_match.simps) auto
    then show ?thesis using 1(2,3) by simp
  qed
qed

text \<open>The two bytes of a match give back its length and offset.\<close>

lemma pair_decodes:
  assumes "k < 64" "off < 1024"
  defines "b0 \<equiv> of_nat (push_bit 2 k OR drop_bit 8 off) :: u8" and "b1 \<equiv> of_nat off :: u8"
  shows "unat b0 div 4 = k" and "unat ((push_bit 8 (ucast b0) OR ucast b1 :: u64) AND OFFSET_MASK) = off"
proof -
  have off: "bit off n \<longrightarrow> n < 10" and k: "bit k n \<longrightarrow> n < 6" for n
  proof -
    have "take_bit 10 off = off" "take_bit 6 k = k"
      using assms by (simp_all add: take_bit_nat_eq_self_iff)
    then show "bit off n \<longrightarrow> n < 10" "bit k n \<longrightarrow> n < 6"
      by (metis bit_take_bit_iff)+
  qed
  have om: "OFFSET_MASK = mask 10"
    by (simp add: OFFSET_MASK_def MATCH_BITS_def mask_eq_exp_minus_1)
  have b0: "unat b0 = take_bit 8 (push_bit 2 k OR drop_bit 8 off)" and b1: "unat b1 = take_bit 8 off"
    by (simp_all add: b0_def b1_def unsigned_of_nat)
  have "drop_bit 2 (take_bit 8 (push_bit 2 k OR drop_bit 8 off)) = k"
    by (rule bit_eqI) (use off k in \<open>auto simp: bit_simps\<close>)
  then show "unat b0 div 4 = k"
    by (simp add: b0 drop_bit_eq_div)
  have "unat ((push_bit 8 (ucast b0) OR ucast b1 :: u64) AND OFFSET_MASK) =
      take_bit 10 (push_bit 8 (unat b0) OR unat b1)"
    unfolding om by (rule bit_eqI) (auto simp: bit_simps)
  also have "\<dots> = off"
  proof (rule bit_eqI)
    fix n
    show "bit (take_bit 10 (push_bit 8 (unat b0) OR unat b1)) n = bit off n"
      using off [of n] unfolding b0 b1 by (cases "n < 8"; cases "n < 10") (auto simp: bit_simps)
  qed
  finally show "unat ((push_bit 8 (ucast b0) OR ucast b1 :: u64) AND OFFSET_MASK) = off" .
qed

text \<open>What an item is, in terms of the source.\<close>

lemma lzjb_item_cases:
  assumes item: "lzjb_item base s src dst m c lempel = (src', dst', lempel')" and src: "src < length s"
  obtains (literal) "src' = src + 1" "dst' = dst @ [s ! src]"
    | (match) off mlen b0 b1 where "0 < off" "off \<le> src" "MATCH_MIN \<le> mlen" "src' = src + mlen" "src' \<le> length s"
      "\<forall>i<mlen. s ! (src + i) = s ! (src - off + i)"
      "dst' = dst[c := dst ! c OR of_nat m] @ [b0, b1]"
      "unat b0 div 2 ^ (NBBY - MATCH_BITS) + MATCH_MIN = mlen"
      "unat ((push_bit NBBY (ucast b0) OR ucast b1 :: u64) AND OFFSET_MASK) = off"
proof -
  define h where "h = lzjb_hash s src"
  define off where "off = unat ((base + of_nat src - ucast (lempel h)) AND OFFSET_MASK)"
  define mlen where "mlen = lzjb_match s src (src - off) MATCH_MIN"
  define found where "found \<longleftrightarrow> off \<le> src \<and> off \<noteq> 0 \<and> s ! src = s ! (src - off)
    \<and> s ! (src + 1) = s ! (src - off + 1) \<and> s ! (src + 2) = s ! (src - off + 2)"
  have off: "off < 1024"
  proof -
    have om: "OFFSET_MASK = mask 10" by (simp add: OFFSET_MASK_def MATCH_BITS_def mask_eq_exp_minus_1)
    have "off = take_bit 10 (unat (base + of_nat src - ucast (lempel h)))"
      unfolding off_def om by (simp only: take_bit_eq_mask [symmetric] unsigned_take_bit_eq)
    then show ?thesis using take_bit_nat_less_exp [of 10] by simp
  qed
  show thesis
  proof (cases "length s < src + MATCH_MAX \<or> \<not> found")
    case True
    then have "src' = src + 1" "dst' = dst @ [s ! src]"
      using item by (auto simp: lzjb_item_def Let_def found_def off_def h_def split: if_splits)
    then show thesis by (rule literal)
  next
    case False
    let ?b0 = "of_nat (push_bit (NBBY - MATCH_BITS) (mlen - MATCH_MIN) OR drop_bit NBBY off) :: u8"
    have "lzjb_item base s src dst m c lempel =
        (src + mlen, dst[c := dst ! c OR of_nat m] @ [?b0, of_nat off], lempel(h := ucast (base + of_nat src)))"
      using False unfolding found_def off_def h_def mlen_def lzjb_item_def Let_def
      by (auto simp only: if_False if_True simp_thms not_less de_Morgan_disj split: if_split)
    then have e: "src' = src + mlen" "dst' = dst[c := dst ! c OR of_nat m] @ [?b0, of_nat off]"
      using item by simp_all
    have "\<forall>i<MATCH_MIN. s ! (src + i) = s ! (src - off + i)"
      using False by (auto simp: found_def MATCH_MIN_def less_Suc_eq numeral_eq_Suc Suc_diff_le)
    then have m: "mlen \<le> MATCH_MAX" "\<forall>i<mlen. s ! (src + i) = s ! (src - off + i)"
      using lzjb_match_same [of MATCH_MIN s src "src - off"] by (simp_all add: mlen_def lzjb_consts)
    have g: "MATCH_MIN \<le> mlen" unfolding mlen_def by (rule lzjb_match_ge)
    have "mlen - MATCH_MIN < 64" using m(1) by (simp add: lzjb_consts)
    note d = pair_decodes [OF this off]
    show thesis
      by (rule match [of off mlen ?b0 "of_nat off"]) (use False e m g d in \<open>auto simp: found_def lzjb_consts\<close>)
  qed
qed

lemma lzjb_copy_from:
  assumes "length d = length s" "take dst d = take dst s" "cpy < dst" "dst + mlen \<le> length s"
    and "\<forall>i<mlen. s ! (dst + i) = s ! (cpy + i)"
  shows "\<exists>d'. lzjb_copy d dst cpy mlen = (d', dst + mlen) \<and> length d' = length s
    \<and> take (dst + mlen) d' = take (dst + mlen) s"
  using assms
proof (induction mlen arbitrary: d dst cpy)
  case (Suc mlen)
  have c: "d ! cpy = s ! dst"
  proof -
    have "d ! cpy = s ! cpy" using Suc.prems(2,3) by (metis nth_take)
    then show ?thesis using Suc.prems(5) by (metis add.right_neutral zero_less_Suc)
  qed
  have "take (dst + 1) (d[dst := d ! cpy]) = take (dst + 1) s"
    using Suc.prems(1,2,4) c by (simp add: take_Suc_conv_app_nth)
  then have "\<exists>d'. lzjb_copy (d[dst := d ! cpy]) (dst + 1) (cpy + 1) mlen = (d', (dst + 1) + mlen)
      \<and> length d' = length s \<and> take ((dst + 1) + mlen) d' = take ((dst + 1) + mlen) s"
    using Suc.prems by (intro Suc.IH) auto
  then show ?case using Suc.prems(1,4) by simp
qed simp

subsection \<open>The copy map\<close>

text \<open>
  After an item the bytes written before it stay, but for the current copy map, whose lower bits
  stay; so it is with the rest of the run.
\<close>

lemma bit_pow2_u8: "k \<le> 7 \<Longrightarrow> bit (of_nat (2 ^ k) :: u8) j \<longleftrightarrow> j = k"
  by (auto simp: bit_exp_iff)

lemma lzjb_item_keeps:
  assumes "lzjb_item base s src dst (2 ^ k) c lempel = (src', dst', lempel')" "src < length s" "k \<le> 7" "c < length dst"
  shows "length dst < length dst' \<and> (\<forall>i<length dst. i \<noteq> c \<longrightarrow> dst' ! i = dst ! i)
    \<and> (\<forall>j. j \<noteq> k \<longrightarrow> bit (dst' ! c) j = bit (dst ! c) j)"
  using assms(1,2)
proof (cases rule: lzjb_item_cases)
  case literal
  then show ?thesis using assms(4) by (auto simp: nth_append)
next
  case (match off mlen b0 b1)
  have "bit (dst ! c OR of_nat (2 ^ k)) j = bit (dst ! c) j" if "j \<noteq> k" for j
    unfolding bit_or_iff bit_pow2_u8 [OF assms(3)] using that by simp
  then show ?thesis using assms(4) unfolding match(7) by (auto simp: nth_append)
qed

lemma lzjb_loop_keeps:
  assumes "lzjb_loop base s d_len src dst m c lempel = (True, out)" "m = 2 ^ k" "k \<le> 7" "k < 7 \<longrightarrow> c < length dst"
  shows "length dst \<le> length out \<and> (\<forall>i<length dst. i \<noteq> c \<longrightarrow> out ! i = dst ! i)
    \<and> (c < length dst \<longrightarrow> (\<forall>j\<le>k. bit (out ! c) j = bit (dst ! c) j))"
  using assms
proof (induction base s d_len src dst m c lempel arbitrary: k rule: lzjb_loop.induct)
  case (1 base s d_len src dst m c lempel)
  have full: "2 * m = 2 ^ NBBY \<longleftrightarrow> k = 7"
    using "1.prems"(2,3) power_inject_exp [of "2::nat" "Suc k" 8] by (simp add: NBBY_def)
  consider (stop) "\<not> src < length s" | (fresh) "src < length s" "k = 7" | (more) "src < length s" "k < 7"
    using "1.prems"(3) by linarith
  then show ?case
  proof cases
    case stop
    then show ?thesis using "1.prems"(1) by (subst (asm) lzjb_loop.simps) simp
  next
    case fresh
    obtain src' dst' lempel' where i: "lzjb_item base s src (dst @ [0]) 1 (length dst) lempel = (src', dst', lempel')"
      using prod_cases3 by blast
    have room: "\<not> int d_len - 1 - 2 * int NBBY \<le> int (length dst)"
      and run: "lzjb_loop base s d_len src' dst' 1 (length dst) lempel' = (True, out)"
      using "1.prems"(1) fresh i full by (subst (asm) lzjb_loop.simps, simp split: if_splits)+
    have K: "length (dst @ [0]) < length dst'" "\<forall>i<length (dst @ [0]). i \<noteq> length dst \<longrightarrow> dst' ! i = (dst @ [0]) ! i"
      using lzjb_item_keeps [of base s src "dst @ [0]" 0 "length dst"] i fresh(1) by auto
    have "length dst' \<le> length out \<and> (\<forall>i<length dst'. i \<noteq> length dst \<longrightarrow> out ! i = dst' ! i)"
      using "1.IH"(1) [OF fresh(1) _ room i [symmetric] _ run, of 0] fresh(2) full K(1) by simp
    then show ?thesis using K by (auto simp: nth_append)
  next
    case more
    obtain src' dst' lempel' where i: "lzjb_item base s src dst (2 * m) c lempel = (src', dst', lempel')"
      using prod_cases3 by blast
    have nf: "2 * m \<noteq> 2 ^ NBBY" using full more(2) by simp
    have run: "lzjb_loop base s d_len src' dst' (2 * m) c lempel' = (True, out)"
      using "1.prems"(1) more i nf by (subst (asm) lzjb_loop.simps) simp
    have K: "length dst < length dst'" "\<forall>i<length dst. i \<noteq> c \<longrightarrow> dst' ! i = dst ! i"
      "\<forall>j. j \<noteq> Suc k \<longrightarrow> bit (dst' ! c) j = bit (dst ! c) j"
      using lzjb_item_keeps [of base s src dst "Suc k" c] i more "1.prems"(2,4) by auto
    have "length dst' \<le> length out \<and> (\<forall>i<length dst'. i \<noteq> c \<longrightarrow> out ! i = dst' ! i)
      \<and> (c < length dst' \<longrightarrow> (\<forall>j\<le>Suc k. bit (out ! c) j = bit (dst' ! c) j))"
      using "1.prems"(2,4) more K(1) by (intro "1.IH"(2) [OF more(1) nf i [symmetric] refl run]) auto
    then show ?thesis using K by auto
  qed
qed

subsection \<open>Decoding\<close>

lemma and_pow2_u8: "k \<le> 7 \<Longrightarrow> (w :: u8) AND of_nat (2 ^ k) \<noteq> 0 \<longleftrightarrow> bit w k"
proof
  assume k: "k \<le> 7" and "w AND of_nat (2 ^ k) \<noteq> 0"
  then obtain j where "bit (w AND of_nat (2 ^ k)) j"
    using bit_word_eqI [of "w AND of_nat (2 ^ k)" 0] by auto
  then show "bit w k"
    unfolding bit_and_iff bit_pow2_u8 [OF k] by blast
next
  assume k: "k \<le> 7" and "bit w k"
  then have "bit (w AND of_nat (2 ^ k)) k"
    unfolding bit_and_iff bit_pow2_u8 [OF k] by simp
  then show "w AND of_nat (2 ^ k) \<noteq> 0" by (metis bit_0_eq bot_apply bot_bool_def)
qed

lemma byte_at_append: "i < length s \<Longrightarrow> byte_at (s @ pad) i = Inr (s ! i)"
  by (simp add: byte_at_def nth_append)

lemma lzjb_item_decodes:
  assumes item: "lzjb_item base s src dst (2 ^ k) c lempel = (src', dst', lempel')" and src: "src < length s"
    and k: "k \<le> 7" "c < length dst" "\<not> bit (dst ! c) k"
    and out: "length dst' \<le> length out" "\<forall>i<length dst'. i \<noteq> c \<longrightarrow> out ! i = dst' ! i" "bit (out ! c) k = bit (dst' ! c) k"
    and d: "length d = length s" "take src d = take src s"
  shows "\<exists>d'. lzjb_unitem (out @ pad) (length dst) d src (out ! c AND of_nat (2 ^ k) \<noteq> 0) = Inr (Some (length dst', d', src'))
    \<and> length d' = length s \<and> take src' d' = take src' s \<and> src' \<le> length s"
  using item src
proof (cases rule: lzjb_item_cases)
  case literal
  have "dst' ! c = dst ! c" "dst' ! length dst = s ! src"
    using k(2) by (simp_all add: literal nth_append)
  then have "\<not> bit (out ! c) k" "byte_at (out @ pad) (length dst) = Inr (s ! src)"
    using k(2,3) out literal(2) byte_at_append [of "length dst" out pad] by auto
  moreover have "take (src + 1) (d[src := s ! src]) = take (src + 1) s"
    using d src by (simp add: take_Suc_conv_app_nth)
  ultimately show ?thesis
    unfolding and_pow2_u8 [OF k(1)] using d src by (auto simp: lzjb_unitem_def literal)
next
  case (match off mlen b0 b1)
  have l: "length dst' = length dst + 2" by (simp add: match(7))
  have "bit (dst' ! c) k"
    unfolding match(7) using k(2) bit_pow2_u8 [OF k(1), of k] by (simp add: nth_append bit_or_iff)
  then have "bit (out ! c) k" using out(3) by simp
  moreover have "dst' ! length dst = b0" "dst' ! (length dst + 1) = b1"
    by (simp_all add: match(7) nth_append)
  then have b: "byte_at (out @ pad) (length dst) = Inr b0" "byte_at (out @ pad) (length dst + 1) = Inr b1"
    using out(1,2) l k(2) byte_at_append [of "length dst" out pad] byte_at_append [of "length dst + 1" out pad] by auto
  obtain d' where c: "lzjb_copy d src (src - off) mlen = (d', src + mlen)" "length d' = length s"
    "take (src + mlen) d' = take (src + mlen) s"
    using lzjb_copy_from [OF d, of "src - off" mlen] match by auto
  have "lzjb_unitem (out @ pad) (length dst) d src True = Inr (Some (length dst', d', src'))"
    using match c(1) l b by (simp add: lzjb_unitem_def Let_def)
  ultimately show ?thesis
    unfolding and_pow2_u8 [OF k(1)] using c(2,3) match(4,5) by simp
qed

lemma lzjb_loop_decodes:
  assumes "lzjb_loop base s d_len src dst m c lempel = (True, out)" "m = 2 ^ k" "k \<le> 7"
    and "k < 7 \<longrightarrow> c < length dst \<and> (\<forall>j>k. \<not> bit (dst ! c) j) \<and> cm = out ! c"
    and "src \<le> length s" "length d = length s" "take src d = take src s"
  shows "lzjb_unloop (out @ pad) (length dst) d src m cm = Inr (0, s)"
  using assms
proof (induction base s d_len src dst m c lempel arbitrary: k cm d rule: lzjb_loop.induct)
  case (1 base s d_len src dst m c lempel)
  have full: "2 * m = 2 ^ NBBY \<longleftrightarrow> k = 7"
    using "1.prems"(2,3) power_inject_exp [of "2::nat" "Suc k" 8] by (simp add: NBBY_def)
  note d = "1.prems"(6,7)
  consider (stop) "\<not> src < length s" | (fresh) "src < length s" "k = 7" | (more) "src < length s" "k < 7"
    using "1.prems"(3) by linarith
  then show ?case
  proof cases
    case stop
    then show ?thesis using "1.prems"(5-7) by (subst lzjb_unloop.simps) simp
  next
    case fresh
    obtain src' dst' lempel' where i: "lzjb_item base s src (dst @ [0]) (2 ^ 0) (length dst) lempel = (src', dst', lempel')"
      using prod_cases3 by blast
    have room: "\<not> int d_len - 1 - 2 * int NBBY \<le> int (length dst)"
      and run: "lzjb_loop base s d_len src' dst' 1 (length dst) lempel' = (True, out)"
      using "1.prems"(1) fresh i full by (subst (asm) lzjb_loop.simps, simp split: if_splits)+
    have K: "length (dst @ [0]) < length dst'" "\<forall>j. j \<noteq> 0 \<longrightarrow> bit (dst' ! length dst) j = bit ((dst @ [0]) ! length dst) j"
      using lzjb_item_keeps [OF i fresh(1)] by auto
    have O: "length dst' \<le> length out" "\<forall>i<length dst'. i \<noteq> length dst \<longrightarrow> out ! i = dst' ! i"
      "bit (out ! length dst) 0 = bit (dst' ! length dst) 0"
      using lzjb_loop_keeps [OF run, of 0] K(1) by auto
    obtain d' where U: "lzjb_unitem (out @ pad) (length (dst @ [0])) d src (out ! length dst AND of_nat (2 ^ 0) \<noteq> 0)
        = Inr (Some (length dst', d', src'))" "length d' = length s" "take src' d' = take src' s" "src' \<le> length s"
      using lzjb_item_decodes [OF i fresh(1) _ _ _ O d, of pad] by auto
    have "lzjb_unloop (out @ pad) (length dst') d' src' 1 (out ! length dst) = Inr (0, s)"
      using fresh(2) full K U
      by (intro "1.IH"(1) [OF fresh(1) _ room i [unfolded power_0, symmetric] refl run, of 0]) auto
    moreover have "byte_at (out @ pad) (length dst) = Inr (out ! length dst)"
      using K(1) O(1) by (intro byte_at_append) simp
    ultimately show ?thesis
      using U(1) fresh d full by (subst lzjb_unloop.simps) simp
  next
    case more
    obtain src' dst' lempel' where i: "lzjb_item base s src dst (2 ^ Suc k) c lempel = (src', dst', lempel')"
      using prod_cases3 by blast
    have m: "2 * m = 2 ^ Suc k" using "1.prems"(2) by simp
    have nf: "2 * m \<noteq> 2 ^ NBBY" using full more(2) by simp
    have run: "lzjb_loop base s d_len src' dst' (2 * m) c lempel' = (True, out)"
      using "1.prems"(1) more i nf m by (subst (asm) lzjb_loop.simps) simp
    have c: "c < length dst" "\<forall>j>k. \<not> bit (dst ! c) j" "cm = out ! c" "Suc k \<le> 7"
      using "1.prems"(4) more(2) by auto
    have K: "length dst < length dst'" "\<forall>j. j \<noteq> Suc k \<longrightarrow> bit (dst' ! c) j = bit (dst ! c) j"
      using lzjb_item_keeps [OF i more(1) c(4,1)] by auto
    have O: "length dst' \<le> length out" "\<forall>i<length dst'. i \<noteq> c \<longrightarrow> out ! i = dst' ! i" "bit (out ! c) (Suc k) = bit (dst' ! c) (Suc k)"
      using lzjb_loop_keeps [OF run m c(4)] c(1) K(1) by auto
    obtain d' where U: "lzjb_unitem (out @ pad) (length dst) d src (out ! c AND of_nat (2 ^ Suc k) \<noteq> 0)
        = Inr (Some (length dst', d', src'))" "length d' = length s" "take src' d' = take src' s" "src' \<le> length s"
      using lzjb_item_decodes [OF i more(1) c(4,1) _ O d, of pad] c(2) by auto
    have "lzjb_unloop (out @ pad) (length dst') d' src' (2 * m) cm = Inr (0, s)"
      using c K U by (intro "1.IH"(2) [OF more(1) nf i [folded m, symmetric] refl run m c(4)]) auto
    then show ?thesis
      using U(1) more(1) d nf m c(3) by (subst lzjb_unloop.simps) simp
  qed
qed

subsection \<open>Round trip\<close>

text \<open>Room for a whole group is checked before the group is begun.\<close>

lemma lzjb_loop_fits:
  assumes "lzjb_loop base s d_len src dst m c lempel = (True, out)" "m = 2 ^ k" "k \<le> 7" "k < 7 \<longrightarrow> c < length dst"
    and "dst \<noteq> [] \<longrightarrow> length dst + 2 * (7 - k) < d_len"
  shows "length out \<le> d_len"
  using assms
proof (induction base s d_len src dst m c lempel arbitrary: k rule: lzjb_loop.induct)
  case (1 base s d_len src dst m c lempel)
  have full: "2 * m = 2 ^ NBBY \<longleftrightarrow> k = 7"
    using "1.prems"(2,3) power_inject_exp [of "2::nat" "Suc k" 8] by (simp add: NBBY_def)
  have two: "length dst' \<le> length dst1 + 2" if "lzjb_item base s src dst1 m1 c1 lempel = (src', dst', lempel')" "src < length s"
    for dst1 m1 c1 src' dst' lempel'
    using that by (cases rule: lzjb_item_cases) auto
  consider (stop) "\<not> src < length s" | (fresh) "src < length s" "k = 7" | (more) "src < length s" "k < 7"
    using "1.prems"(3) by linarith
  then show ?case
  proof cases
    case stop
    then have "out = dst" using "1.prems"(1) by (subst (asm) lzjb_loop.simps) simp
    then show ?thesis using "1.prems"(5) by (cases "dst = []") auto
  next
    case fresh
    obtain src' dst' lempel' where i: "lzjb_item base s src (dst @ [0]) 1 (length dst) lempel = (src', dst', lempel')"
      using prod_cases3 by blast
    have room: "\<not> int d_len - 1 - 2 * int NBBY \<le> int (length dst)"
      and run: "lzjb_loop base s d_len src' dst' 1 (length dst) lempel' = (True, out)"
      using "1.prems"(1) fresh i full by (subst (asm) lzjb_loop.simps, simp split: if_splits)+
    have "length dst < length dst'"
      using lzjb_item_keeps [of base s src "dst @ [0]" 0 "length dst" lempel src' dst' lempel'] i fresh(1) by auto
    moreover have "length dst' + 14 < d_len"
      using two [OF i fresh(1)] room by (simp add: NBBY_def)
    ultimately show ?thesis
      using fresh(2) full by (intro "1.IH"(1) [OF fresh(1) _ room i [symmetric] refl run, of 0]) auto
  next
    case more
    obtain src' dst' lempel' where i: "lzjb_item base s src dst (2 * m) c lempel = (src', dst', lempel')"
      using prod_cases3 by blast
    have nf: "2 * m \<noteq> 2 ^ NBBY" using full more(2) by simp
    have run: "lzjb_loop base s d_len src' dst' (2 * m) c lempel' = (True, out)"
      using "1.prems"(1) more i nf by (subst (asm) lzjb_loop.simps) simp
    have "length dst < length dst'"
      using lzjb_item_keeps [of base s src dst "Suc k" c lempel src' dst' lempel'] i more "1.prems"(2,4) by auto
    moreover have "length dst' + 2 * (7 - Suc k) < d_len"
      using two [OF i more(1)] "1.prems"(4,5) more(2) by (cases "dst = []") auto
    ultimately show ?thesis
      using "1.prems"(2,4) more by (intro "1.IH"(2) [OF more(1) nf i [symmetric] refl run, of "Suc k"]) auto
  qed
qed

lemma lzjb_compress_fits:
  assumes "lzjb_compress base s d_len = (r, out)" "r < length s"
  shows "r = length out" "r \<le> d_len"
proof -
  obtain fin dst where l: "lzjb_loop base s d_len 0 [] (2 ^ (NBBY - 1)) 0 (\<lambda>_. 0) = (fin, dst)" by fastforce
  have e: "fin" "dst = out" "r = length out"
    using assms unfolding lzjb_compress_def l by (auto split: if_splits)
  then show "r = length out" by simp
  show "r \<le> d_len"
    using lzjb_loop_fits [of base s d_len 0 "[]" "2 ^ (NBBY - 1)" 0 "\<lambda>_. 0" out 7] l e by (simp add: NBBY_def)
qed

lemma lzjb_compress_decompress:
  assumes "lzjb_compress base s d_len = (r, out)" "r < length s" "length d = length s"
  shows "lzjb_decompress (out @ pad) d = Inr (0, s)"
proof -
  obtain fin dst where l: "lzjb_loop base s d_len 0 [] (2 ^ (NBBY - 1)) 0 (\<lambda>_. 0) = (fin, dst)" by fastforce
  have e: "fin" "dst = out"
    using assms unfolding lzjb_compress_def l by (auto split: if_splits)
  show ?thesis
    using lzjb_loop_decodes [of base s d_len 0 "[]" "2 ^ (NBBY - 1)" 0 "\<lambda>_. 0" out 7 0 d pad] l e assms(3)
    by (simp add: lzjb_decompress_def NBBY_def)
qed

subsection \<open>The result depends on the address of the source\<close>

text \<open>
  The table of earlier positions holds the low bits of addresses, and an entry that was never set stands
  for the last address that is a multiple of 1024. The same bytes at another address can so find another match.
\<close>

definition unaligned_example :: "u8 list" where
  "unaligned_example =
    [1, 1, 1, 1, 1, 1, 2, 1, 1, 2, 1, 1, 2, 1, 1, 2, 1, 1, 2, 1, 1, 2, 1, 1, 2, 1, 1, 2, 1, 1, 2, 1, 1,
     2, 1, 1, 2, 1, 1, 2, 1, 1, 2, 1, 1, 2, 1, 1, 2, 1, 1, 2, 1, 1, 2, 1, 1, 2, 1, 1, 2, 1, 1, 2, 1, 1,
     2, 1, 1, 2, 1, 1, 2, 1, 1]"

lemma lzjb_depends_on_address:
  "lzjb_compress 0 unaligned_example 100 = (9, [34, 1, 8, 1, 2, 1, 1, 252, 3])"
  "lzjb_compress 1020 unaligned_example 100 = (9, [10, 1, 8, 1, 2, 252, 3, 1, 1])"
  by (simp_all add: lzjb_compress_def lzjb_loop.simps lzjb_item_def lzjb_hash_def lzjb_match.simps lzjb_consts OFFSET_MASK_def
      unaligned_example_def Let_def)

end
