(* ===== verification/Zio_Compress.thy ===== *)
theory Zio_Compress
  imports Zle Lzjb Bitops
begin



subsection \<open>The table\<close>

text \<open>The enumeration \<^verbatim>\<open>enum zio_compress\<close>; a block pointer may hold any number there.\<close>

definition ZIO_COMPRESS_INHERIT :: nat where
  "ZIO_COMPRESS_INHERIT = 0"

definition ZIO_COMPRESS_ON :: nat where
  "ZIO_COMPRESS_ON = 1"

definition ZIO_COMPRESS_LZJB :: nat where
  "ZIO_COMPRESS_LZJB = 3"






definition zio_compress_select :: "nat \<Rightarrow> nat \<Rightarrow> nat" where
  "zio_compress_select child parent =
     (if child = ZIO_COMPRESS_INHERIT then parent
      else if child = ZIO_COMPRESS_ON then ZIO_COMPRESS_LZJB
      else child)"

subsection \<open>gzip\<close>






subsection \<open>Compressing a block\<close>






subsection \<open>What the switch promises\<close>













end
