(* ===== verification/Rlock.thy ===== *)
theory Rlock
  imports Avl_Spec
begin

text \<open>
  File range locks, \<^verbatim>\<open>zfswrap/zfs_rlock.c\<close>. The tree of a znode holds addresses of \<^verbatim>\<open>rl_t\<close>
  structures in a heap, ordered by the offset found there. Every routine runs under
  \<^verbatim>\<open>z_range_lock\<close> from its start to the end or to a \<^verbatim>\<open>cv_wait\<close>, which shows here as the structure on
  whose condition variable the caller goes to sleep.
\<close>

type_synonym rl_ptr = nat

datatype rl_type = RL_READER | RL_WRITER | RL_APPEND

record rl =
  r_off :: u64
  r_len :: u64
  r_cnt :: u32
  r_type :: rl_type
  r_proxy :: bool
  r_write_wanted :: bool
  r_read_wanted :: bool

record znode =
  z_range_avl :: "rl_ptr atree"
  rl_mem :: "rl_ptr \<Rightarrow> rl option"
  rl_brk :: rl_ptr
  z_vnode :: bool
  zp_size :: u64
  z_blksz :: u32
  z_max_blksz :: u64

subsection \<open>Memory and tree\<close>

definition rl_at :: "znode \<Rightarrow> rl_ptr \<Rightarrow> rl" where
  "rl_at zp p = the (rl_mem zp p)"

definition rl_upd :: "rl_ptr \<Rightarrow> (rl \<Rightarrow> rl) \<Rightarrow> znode \<Rightarrow> znode" where
  "rl_upd p f zp = zp\<lparr>rl_mem := (rl_mem zp)(p \<mapsto> f (rl_at zp p))\<rparr>"

definition rl_alloc :: "rl \<Rightarrow> znode \<Rightarrow> znode \<times> rl_ptr" where
  "rl_alloc r zp = (zp\<lparr>rl_mem := (rl_mem zp)(rl_brk zp \<mapsto> r), rl_brk := Suc (rl_brk zp)\<rparr>, rl_brk zp)"

definition rl_free :: "rl_ptr \<Rightarrow> znode \<Rightarrow> znode" where
  "rl_free p zp = zp\<lparr>rl_mem := (rl_mem zp)(p := None)\<rparr>"

definition zfs_range_compare :: "rl \<Rightarrow> rl \<Rightarrow> int" where
  "zfs_range_compare rl1 rl2 =
     (if r_off rl2 < r_off rl1 then 1 else if r_off rl1 < r_off rl2 then - 1 else 0)"

abbreviation avl_cmp :: "znode \<Rightarrow> rl_ptr \<Rightarrow> rl_ptr \<Rightarrow> int" where
  "avl_cmp zp \<equiv> \<lambda>p q. zfs_range_compare (rl_at zp p) (rl_at zp q)"

definition rl_avl_find :: "znode \<Rightarrow> rl_ptr \<Rightarrow> rl_ptr option \<times> path" where
  "rl_avl_find zp p = tree_find (avl_cmp zp p) (z_range_avl zp)"

definition rl_avl_add :: "rl_ptr \<Rightarrow> znode \<Rightarrow> znode" where
  "rl_avl_add p zp = zp\<lparr>z_range_avl := tree_add (avl_cmp zp) p (z_range_avl zp)\<rparr>"

definition rl_avl_insert :: "rl_ptr \<Rightarrow> path \<Rightarrow> znode \<Rightarrow> znode" where
  "rl_avl_insert p where' zp = zp\<lparr>z_range_avl := tree_insert p where' (z_range_avl zp)\<rparr>"

definition rl_avl_remove :: "rl_ptr \<Rightarrow> znode \<Rightarrow> znode" where
  "rl_avl_remove p zp = zp\<lparr>z_range_avl := tree_remove p (z_range_avl zp)\<rparr>"

abbreviation rl_end :: "rl \<Rightarrow> u64" where
  "rl_end r \<equiv> r_off r + r_len r"

subsection \<open>Writers\<close>

text \<open>
  One turn of the loop of \<^verbatim>\<open>zfs_range_lock_writer()\<close>; \<open>off\<close> and \<open>len\<close> are its local variables, to which
  the structure is reset after a wait. The second component is the lock waited for, if any.
\<close>

definition writer_range :: "znode \<Rightarrow> rl_ptr \<Rightarrow> u64 \<Rightarrow> u64 \<Rightarrow> u64 \<times> u64" where
  "writer_range zp new off len =
    (if z_vnode zp
     then
       let off = (if r_type (rl_at zp new) = RL_APPEND then zp_size zp else off);
           end_size = max (zp_size zp) (off + len)
       in if ucast (z_blksz zp) < end_size \<and> (\<not> ISP2 (z_blksz zp) \<or> ucast (z_blksz zp) < z_max_blksz zp)
          then (0, - 1) else (off, len)
     else (off, len))"

text \<open>The lock in the way of a writer: at the same offset, or the next one, or the previous one.\<close>

definition writer_conflict :: "znode \<Rightarrow> u64 \<Rightarrow> u64 \<Rightarrow> rl_ptr option \<Rightarrow> path \<Rightarrow> rl_ptr option" where
  "writer_conflict zp off len found where' =
    (let aft = tree_nearest where' True (z_range_avl zp);
         bef = tree_nearest where' False (z_range_avl zp)
     in case found of
          Some p \<Rightarrow> Some p
        | None \<Rightarrow>
            if (case aft of None \<Rightarrow> False | Some p \<Rightarrow> r_off (rl_at zp p) < off + len) then aft
            else if (case bef of None \<Rightarrow> False | Some p \<Rightarrow> off < rl_end (rl_at zp p)) then bef
            else None)"

definition zfs_range_lock_writer :: "znode \<Rightarrow> rl_ptr \<Rightarrow> u64 \<Rightarrow> u64 \<Rightarrow> znode \<times> rl_ptr option" where
  "zfs_range_lock_writer zp new off len =
    (let (off, len) = writer_range zp new off len;
         zp = rl_upd new (\<lambda>r. r\<lparr>r_off := off, r_len := len\<rparr>) zp
     in if z_range_avl zp = Null
        then (rl_avl_add new (rl_upd new (\<lambda>r. r\<lparr>r_type := RL_WRITER\<rparr>) zp), None)
        else
          let (found, where') = rl_avl_find zp new
          in case writer_conflict zp off len found where' of
               Some p \<Rightarrow> (rl_upd p (\<lambda>r. r\<lparr>r_write_wanted := True\<rparr>) zp, Some p)
             | None \<Rightarrow> (rl_avl_insert new where' (rl_upd new (\<lambda>r. r\<lparr>r_type := RL_WRITER\<rparr>) zp), None))"

subsection \<open>Readers\<close>

definition new_proxy :: "u64 \<Rightarrow> u64 \<Rightarrow> u32 \<Rightarrow> rl" where
  "new_proxy off len cnt =
     \<lparr>r_off = off, r_len = len, r_cnt = cnt, r_type = RL_READER, r_proxy = True,
      r_write_wanted = False, r_read_wanted = False\<rparr>"

definition zfs_range_proxify :: "rl_ptr \<Rightarrow> znode \<Rightarrow> znode \<times> rl_ptr" where
  "zfs_range_proxify rl zp =
    (if r_proxy (rl_at zp rl) then (zp, rl)
     else
       let zp = rl_upd rl (\<lambda>r. r\<lparr>r_cnt := 0\<rparr>) (rl_avl_remove rl zp);
           (zp, proxy) = rl_alloc (new_proxy (r_off (rl_at zp rl)) (r_len (rl_at zp rl)) 1) zp
       in (rl_avl_add proxy zp, proxy))"

definition zfs_range_split :: "rl_ptr \<Rightarrow> u64 \<Rightarrow> znode \<Rightarrow> znode \<times> rl_ptr" where
  "zfs_range_split rl off zp =
    (let r = rl_at zp rl;
         (zp, rear) = rl_alloc (new_proxy off (rl_end r - off) (r_cnt r)) zp;
         (zp, front) = zfs_range_proxify rl zp;
         zp = rl_upd front (\<lambda>r'. r'\<lparr>r_len := off - r_off (rl_at zp rl)\<rparr>) zp
     in (zp\<lparr>z_range_avl := tree_insert_here rear front True (z_range_avl zp)\<rparr>, front))"

definition zfs_range_new_proxy :: "u64 \<Rightarrow> u64 \<Rightarrow> znode \<Rightarrow> znode" where
  "zfs_range_new_proxy off len zp =
    (let (zp, rl) = rl_alloc (new_proxy off len 1) zp in rl_avl_add rl zp)"

definition rl_bump :: "rl_ptr \<Rightarrow> znode \<Rightarrow> znode" where
  "rl_bump p = rl_upd p (\<lambda>r. r\<lparr>r_cnt := r_cnt r + 1\<rparr>)"

text \<open>The loop over the ranges that overlap the new one, and the remaining end range behind it.\<close>

definition add_reader_end :: "u64 \<Rightarrow> u64 \<Rightarrow> rl_ptr option \<Rightarrow> znode \<Rightarrow> znode option" where
  "add_reader_end off len prev zp =
    (case prev of
       None \<Rightarrow> None
     | Some p \<Rightarrow> Some (zfs_range_new_proxy (rl_end (rl_at zp p)) (off + len - rl_end (rl_at zp p)) zp))"

definition fill_gap :: "rl_ptr option \<Rightarrow> rl_ptr \<Rightarrow> znode \<Rightarrow> znode" where
  "fill_gap prev next zp =
    (case prev of
       None \<Rightarrow> zp
     | Some p \<Rightarrow>
         let e = rl_end (rl_at zp p)
         in if e < r_off (rl_at zp next) then zfs_range_new_proxy e (r_off (rl_at zp next) - e) zp else zp)"

partial_function (option) add_reader_loop ::
  "u64 \<Rightarrow> u64 \<Rightarrow> rl_ptr option \<Rightarrow> rl_ptr option \<Rightarrow> znode \<Rightarrow> znode option" where
  "add_reader_loop off len prev next zp =
    (case next of
       None \<Rightarrow> add_reader_end off len prev zp
     | Some n \<Rightarrow>
         if off + len \<le> r_off (rl_at zp n) then add_reader_end off len prev zp
         else
           let zp = fill_gap prev n zp
           in if off + len = rl_end (rl_at zp n)
              then let (zp, n) = zfs_range_proxify n zp in Some (rl_bump n zp)
              else if off + len < rl_end (rl_at zp n)
              then let (zp, n) = zfs_range_split n (off + len) zp in Some (rl_bump n zp)
              else
                let (zp, n) = zfs_range_proxify n zp; zp = rl_bump n zp
                in add_reader_loop off len (Some n) (tree_next n (z_range_avl zp)) zp)"

declare add_reader_loop.simps [code]

text \<open>
  The previous range, cut at the offset of the new one if it reaches over it: the state after that and
  the range that starts at the offset, if there is one.
\<close>

definition reader_start :: "rl_ptr option \<Rightarrow> u64 \<Rightarrow> znode \<Rightarrow> znode \<times> rl_ptr option" where
  "reader_start prev off zp =
     (case prev of
        None \<Rightarrow> (zp, None)
      | Some p \<Rightarrow>
          if rl_end (rl_at zp p) \<le> off then (zp, None)
          else if r_off (rl_at zp p) \<noteq> off
          then let (zp, front) = zfs_range_split p off zp in (zp, tree_next front (z_range_avl zp))
          else (zp, Some p))"

definition zfs_range_add_reader :: "rl_ptr \<Rightarrow> rl_ptr option \<Rightarrow> path \<Rightarrow> znode \<Rightarrow> znode option" where
  "zfs_range_add_reader new prev where' zp =
    (let off = r_off (rl_at zp new); len = r_len (rl_at zp new);
         (zp, prev) = reader_start prev off zp;
         next = (case prev of Some p \<Rightarrow> Some p | None \<Rightarrow> tree_nearest where' True (z_range_avl zp))
     in case next of
          None \<Rightarrow> Some (rl_avl_insert new where' zp)
        | Some n \<Rightarrow>
            if off + len \<le> r_off (rl_at zp n) then Some (rl_avl_insert new where' zp)
            else
              let zp = (if off < r_off (rl_at zp n)
                        then zfs_range_new_proxy off (r_off (rl_at zp n) - off) zp else zp);
                  zp = rl_upd new (\<lambda>r. r\<lparr>r_cnt := 0\<rparr>) zp
              in add_reader_loop off len None (Some n) zp)"

text \<open>The search for a writer in the ranges behind the first.\<close>

fun reader_scan :: "u64 \<Rightarrow> u64 \<Rightarrow> znode \<Rightarrow> rl_ptr list \<Rightarrow> rl_ptr option" where
  "reader_scan off len zp [] = None"
| "reader_scan off len zp (p # ps) =
     (let r = rl_at zp p
      in if off + len \<le> r_off r then None
         else if r_type r = RL_WRITER \<or> r_write_wanted r then Some p
         else if off + len \<le> rl_end r then None
         else reader_scan off len zp ps)"

text \<open>The lock to wait for before a reader may have its range.\<close>

definition reader_conflict :: "znode \<Rightarrow> rl_ptr \<Rightarrow> rl_ptr option \<Rightarrow> path \<Rightarrow> rl_ptr option" where
  "reader_conflict zp new prev where' =
    (let off = r_off (rl_at zp new); len = r_len (rl_at zp new);
         scan = \<lambda>next. reader_scan off len zp (tree_visit next (z_range_avl zp))
     in case prev of
          None \<Rightarrow> scan (tree_nearest where' True (z_range_avl zp))
        | Some p \<Rightarrow>
            let r = rl_at zp p
            in if off < rl_end r \<and> (r_type r = RL_WRITER \<or> r_write_wanted r) then Some p
               else if off < rl_end r \<and> off + len < rl_end r then None
               else scan (tree_next p (z_range_avl zp)))"

definition zfs_range_lock_reader :: "znode \<Rightarrow> rl_ptr \<Rightarrow> (znode \<times> rl_ptr option) option" where
  "zfs_range_lock_reader zp new =
    (let (found, where') = rl_avl_find zp new;
         prev = (case found of Some p \<Rightarrow> Some p | None \<Rightarrow> tree_nearest where' False (z_range_avl zp))
     in case reader_conflict zp new prev where' of
          Some p \<Rightarrow> Some (rl_upd p (\<lambda>r. r\<lparr>r_read_wanted := True\<rparr>) zp, Some p)
        | None \<Rightarrow> map_option (\<lambda>zp. (zp, None)) (zfs_range_add_reader new prev where' zp))"

subsection \<open>Locking\<close>

text \<open>
  The new lock, and the lock whose condition variable it waits on if it was not granted at once: that of the
  waiting readers for a reader, that of the waiting writers otherwise.
\<close>

definition zfs_range_lock :: "znode \<Rightarrow> u64 \<Rightarrow> u64 \<Rightarrow> rl_type \<Rightarrow> (znode \<times> rl_ptr \<times> rl_ptr option) option" where
  "zfs_range_lock zp off len ty =
    (let len = (if len + off < off then - 1 - off else len);
         (zp, new) = rl_alloc \<lparr>r_off = off, r_len = len, r_cnt = 1, r_type = ty, r_proxy = False,
                       r_write_wanted = False, r_read_wanted = False\<rparr> zp
     in map_option (\<lambda>(zp, wt). (zp, new, wt))
          (if ty = RL_READER
           then if z_range_avl zp = Null then Some (rl_avl_add new zp, None) else zfs_range_lock_reader zp new
           else Some (zfs_range_lock_writer zp new off len)))"

subsection \<open>Unlocking\<close>

text \<open>
  The condition variables signalled, as a lock and a flag: \<open>True\<close> for its waiting writers, \<open>False\<close> for its
  waiting readers.
\<close>

type_synonym rl_cv = "rl_ptr \<times> bool"

definition rl_wakeups :: "znode \<Rightarrow> rl_ptr \<Rightarrow> rl_cv list" where
  "rl_wakeups zp p =
     (if r_write_wanted (rl_at zp p) then [(p, True)] else []) @ (if r_read_wanted (rl_at zp p) then [(p, False)] else [])"

partial_function (option) unlock_reader_loop ::
  "u64 \<Rightarrow> rl_ptr option \<Rightarrow> rl_cv list \<Rightarrow> znode \<Rightarrow> (znode \<times> rl_cv list) option" where
  "unlock_reader_loop len rl woken zp =
    (if len = 0 then Some (zp, woken)
     else case rl of
         None \<Rightarrow> None
       | Some p \<Rightarrow>
           let len = len - r_len (rl_at zp p);
               next = (if len \<noteq> 0 then tree_next p (z_range_avl zp) else None);
               zp = rl_upd p (\<lambda>r. r\<lparr>r_cnt := r_cnt r - 1\<rparr>) zp;
               (zp, woken) =
                 (if r_cnt (rl_at zp p) = 0
                  then (rl_free p (rl_avl_remove p zp), woken @ rl_wakeups zp p)
                  else (zp, woken))
           in unlock_reader_loop len next woken zp)"

declare unlock_reader_loop.simps [code]

definition zfs_range_unlock_reader :: "znode \<Rightarrow> rl_ptr \<Rightarrow> (znode \<times> rl_cv list) option" where
  "zfs_range_unlock_reader zp remove =
    (if r_cnt (rl_at zp remove) = 1
     then Some (rl_free remove (rl_avl_remove remove zp), rl_wakeups zp remove)
     else
       map_option (\<lambda>(zp, woken). (rl_free remove zp, woken))
         (unlock_reader_loop (r_len (rl_at zp remove)) (fst (rl_avl_find zp remove)) [] zp))"

definition zfs_range_unlock :: "znode \<Rightarrow> rl_ptr \<Rightarrow> (znode \<times> rl_cv list) option" where
  "zfs_range_unlock zp rl =
    (if r_type (rl_at zp rl) = RL_WRITER
     then Some (rl_free rl (rl_avl_remove rl zp), rl_wakeups zp rl)
     else zfs_range_unlock_reader zp rl)"

definition zfs_range_reduce :: "znode \<Rightarrow> rl_ptr \<Rightarrow> u64 \<Rightarrow> u64 \<Rightarrow> znode \<times> rl_cv list" where
  "zfs_range_reduce zp rl off len =
     (rl_upd rl (\<lambda>r. r\<lparr>r_off := off, r_len := len\<rparr>) zp, rl_wakeups zp rl)"

end
