(* ===== verification/Rlock_Inv.thy ===== *)
theory Rlock_Inv
  imports Rlock
begin

text \<open>
  The invariant of the range lock tree of \<^verbatim>\<open>zfswrap/zfs_rlock.c\<close> and its preservation by the steps from which
  locking and unlocking are made. Ranges are intervals of natural numbers here; \<open>H\<close> maps the granted
  locks to what was granted, \<open>Q\<close> the structures of the callers that wait, \<open>W\<close> is the set of condition variables somebody
  sleeps on, and \<open>c\<close> says how many locks cover each byte.
\<close>

definition lo :: "rl \<Rightarrow> nat" where
  "lo r = unat (r_off r)"

definition hi :: "rl \<Rightarrow> nat" where
  "hi r = unat (r_off r) + unat (r_len r)"

definition good :: "rl \<Rightarrow> bool" where
  "good r \<longleftrightarrow> lo r < hi r \<and> hi r < 2 ^ 64"

abbreviation within :: "nat \<Rightarrow> rl \<Rightarrow> bool" where
  "within b r \<equiv> lo r \<le> b \<and> b < hi r"

definition agrees :: "rl \<Rightarrow> rl \<Rightarrow> bool" where
  "agrees g r \<longleftrightarrow> r_off r = r_off g \<and> r_len r = r_len g \<and> r_type r = r_type g \<and> \<not> r_proxy r"

definition node_ok :: "rl option \<Rightarrow> rl \<Rightarrow> bool" where
  "node_ok g r \<longleftrightarrow> good r \<and> r_type r \<noteq> RL_APPEND \<and> r_cnt r \<noteq> 0
     \<and> (case g of None \<Rightarrow> r_proxy r \<and> r_type r = RL_READER | Some g \<Rightarrow> agrees g r \<and> r_cnt r = 1)"

text \<open>A granted lock that is no longer in the tree: its range is made up of whole rl_nodes.\<close>

definition off_tree :: "(nat \<Rightarrow> bool) \<Rightarrow> (nat \<Rightarrow> bool) \<Rightarrow> rl \<Rightarrow> rl \<Rightarrow> bool" where
  "off_tree starts ends g r \<longleftrightarrow>
     agrees g r \<and> good r \<and> r_type r = RL_READER \<and> r_cnt r = 0 \<and> starts (lo r) \<and> ends (hi r)"

definition cov :: "znode \<Rightarrow> rl_ptr list \<Rightarrow> nat \<Rightarrow> nat" where
  "cov zp ps b = (\<Sum>p\<leftarrow>ps. if within b (rl_at zp p) then unat (r_cnt (rl_at zp p)) else 0)"

definition holders :: "(rl_ptr \<Rightarrow> rl option) \<Rightarrow> nat \<Rightarrow> nat" where
  "holders H b = card {h. \<exists>g. H h = Some g \<and> within b g}"

abbreviation rl_nodes :: "znode \<Rightarrow> rl_ptr list" where
  "rl_nodes zp \<equiv> inorder (z_range_avl zp)"

definition starts :: "znode \<Rightarrow> nat \<Rightarrow> bool" where
  "starts zp b \<longleftrightarrow> (\<exists>p\<in>set (rl_nodes zp). lo (rl_at zp p) = b)"

definition ends :: "znode \<Rightarrow> nat \<Rightarrow> bool" where
  "ends zp b \<longleftrightarrow> (\<exists>p\<in>set (rl_nodes zp). hi (rl_at zp p) = b)"

text \<open>Readers wait only for writers and for locks a writer waits for.\<close>

definition wanted :: "bool \<Rightarrow> rl \<Rightarrow> bool" where
  "wanted w r = (if w then r_write_wanted r else r_read_wanted r \<and> (r_type r = RL_WRITER \<or> r_write_wanted r))"

definition ordered :: "znode \<Rightarrow> rl_ptr list \<Rightarrow> bool" where
  "ordered zp = sorted_wrt (\<lambda>p q. hi (rl_at zp p) \<le> lo (rl_at zp q))"

definition core ::
  "(rl_ptr \<Rightarrow> rl option) \<Rightarrow> (rl_ptr \<Rightarrow> rl option) \<Rightarrow> rl_cv set \<Rightarrow> (nat \<Rightarrow> nat) \<Rightarrow> znode \<Rightarrow> bool" where
  "core H Q W c zp \<longleftrightarrow>
     balanced (z_range_avl zp) \<and> ordered zp (rl_nodes zp)
     \<and> (\<forall>p\<in>set (rl_nodes zp). \<exists>r. rl_mem zp p = Some r \<and> node_ok (H p) r)
     \<and> (\<forall>h g. H h = Some g \<longrightarrow> h \<notin> set (rl_nodes zp) \<longrightarrow>
          (\<exists>r. rl_mem zp h = Some r \<and> off_tree (starts zp) (ends zp) g r))
     \<and> (\<forall>b. cov zp (rl_nodes zp) b = c b) \<and> (\<forall>b. holders H b \<le> c b)
     \<and> (\<forall>(p, w)\<in>W. p \<in> set (rl_nodes zp) \<and> wanted w (rl_at zp p))
     \<and> (\<forall>q r. Q q = Some r \<longrightarrow> rl_mem zp q = Some r \<and> q \<notin> set (rl_nodes zp) \<and> H q = None)
     \<and> dom (rl_mem zp) = set (rl_nodes zp) \<union> dom H \<union> dom Q \<and> (\<forall>p\<in>dom (rl_mem zp). p < rl_brk zp)"

lemma coreD:
  assumes "core H Q W c zp"
  shows core_balanced: "balanced (z_range_avl zp)"
    and core_ordered: "ordered zp (rl_nodes zp)"
    and core_nodes: "\<forall>p\<in>set (rl_nodes zp). \<exists>r. rl_mem zp p = Some r \<and> node_ok (H p) r"
    and core_offs: "\<forall>h g. H h = Some g \<longrightarrow> h \<notin> set (rl_nodes zp) \<longrightarrow>
      (\<exists>r. rl_mem zp h = Some r \<and> off_tree (starts zp) (ends zp) g r)"
    and core_cov: "cov zp (rl_nodes zp) b = c b"
    and core_holders: "holders H b \<le> c b"
    and core_waits: "(p, w) \<in> W \<Longrightarrow> p \<in> set (rl_nodes zp) \<and> wanted w (rl_at zp p)"
    and core_req: "Q q = Some r \<Longrightarrow> rl_mem zp q = Some r \<and> q \<notin> set (rl_nodes zp) \<and> H q = None"
    and core_dom: "dom (rl_mem zp) = set (rl_nodes zp) \<union> dom H \<union> dom Q"
    and core_brk: "p \<in> dom (rl_mem zp) \<Longrightarrow> p < rl_brk zp"
  using assms unfolding core_def by blast+

lemma core_node:
  assumes "core H Q W c zp" "p \<in> set (rl_nodes zp)"
  shows "rl_mem zp p = Some (rl_at zp p)" "node_ok (H p) (rl_at zp p)"
  using core_nodes [OF assms(1)] assms(2) by (auto simp: rl_at_def)

lemma core_off:
  assumes "core H Q W c zp" "H h = Some g" "h \<notin> set (rl_nodes zp)"
  shows "rl_mem zp h = Some (rl_at zp h)" "off_tree (starts zp) (ends zp) g (rl_at zp h)"
proof -
  obtain r where "rl_mem zp h = Some r" "off_tree (starts zp) (ends zp) g r"
    using core_offs [OF assms(1)] assms(2,3) by blast
  then show "rl_mem zp h = Some (rl_at zp h)" "off_tree (starts zp) (ends zp) g (rl_at zp h)"
    by (simp_all add: rl_at_def)
qed

lemma node_ok_good: "node_ok g r \<Longrightarrow> good r" "node_ok g r \<Longrightarrow> lo r < hi r" "node_ok g r \<Longrightarrow> hi r < 2 ^ 64"
  by (simp_all add: node_ok_def good_def)

lemma cov_simps [simp]:
  "cov zp [] b = 0"
  "cov zp (p # ps) b = (if within b (rl_at zp p) then unat (r_cnt (rl_at zp p)) else 0) + cov zp ps b"
  "cov zp (ps @ qs) b = cov zp ps b + cov zp qs b"
  by (simp_all add: cov_def)

lemma cov_cong: "(\<And>p. p \<in> set ps \<Longrightarrow> rl_at zp' p = rl_at zp p) \<Longrightarrow> cov zp' ps b = cov zp ps b"
  by (induction ps) auto

lemma ordered_append:
  "ordered zp (ps @ qs) \<longleftrightarrow> ordered zp ps \<and> ordered zp qs
     \<and> (\<forall>p\<in>set ps. \<forall>q\<in>set qs. hi (rl_at zp p) \<le> lo (rl_at zp q))"
  by (simp add: ordered_def sorted_wrt_append)

lemma ordered_simps [simp]:
  "ordered zp []"
  "ordered zp (p # ps) \<longleftrightarrow> (\<forall>q\<in>set ps. hi (rl_at zp p) \<le> lo (rl_at zp q)) \<and> ordered zp ps"
  by (simp_all add: ordered_def)

lemma ordered_cong: "(\<And>p. p \<in> set ps \<Longrightarrow> rl_at zp' p = rl_at zp p) \<Longrightarrow> ordered zp ps \<Longrightarrow> ordered zp' ps"
  by (induction ps) auto

lemma ordered_distinct:
  "ordered zp ps \<Longrightarrow> (\<And>p. p \<in> set ps \<Longrightarrow> good (rl_at zp p)) \<Longrightarrow> distinct ps"
  by (induction ps) (force simp: good_def)+

lemma core_distinct: "core H Q W c zp \<Longrightarrow> distinct (rl_nodes zp)"
  using ordered_distinct [OF core_ordered] node_ok_good(1) [OF core_node(2)] by blast

text \<open>
  The general step: the rl_nodes \<open>xs\<close> in the middle of the tree give way to \<open>ys\<close>, and nothing else changes.
\<close>

lemma core_splice:
  assumes old: "core H Q W c zp" "rl_nodes zp = as @ xs @ bs"
    and new: "rl_nodes zp' = as @ ys @ bs" "balanced (z_range_avl zp')"
    and frame: "\<And>p. p \<notin> set xs \<union> set ys \<Longrightarrow> rl_mem zp' p = rl_mem zp p \<and> H' p = H p \<and> Q' p = Q p"
    and brk: "rl_brk zp \<le> rl_brk zp'" "\<And>p. p \<in> set ys \<Longrightarrow> p < rl_brk zp'"
    and gone: "\<And>p. p \<in> set xs \<Longrightarrow> p \<notin> set ys \<Longrightarrow> Q' p = None \<and>
      (case H' p of None \<Rightarrow> rl_mem zp' p = None
       | Some g \<Rightarrow> \<exists>r. rl_mem zp' p = Some r \<and> off_tree (starts zp') (ends zp') g r)"
    and ys: "\<And>p. p \<in> set ys \<Longrightarrow> Q' p = None \<and> rl_mem zp' p = Some (rl_at zp' p) \<and> node_ok (H' p) (rl_at zp' p)"
    and fresh: "set ys \<inter> (set as \<union> set bs) = {}"
    and ord: "ordered zp' ys" "\<And>x y. x \<in> set as \<Longrightarrow> y \<in> set ys \<Longrightarrow> hi (rl_at zp x) \<le> lo (rl_at zp' y)"
      "\<And>x y. x \<in> set bs \<Longrightarrow> y \<in> set ys \<Longrightarrow> hi (rl_at zp' y) \<le> lo (rl_at zp x)"
    and cnt: "\<And>b. c b + cov zp' ys b = c' b + cov zp xs b" "\<And>b. holders H' b \<le> c' b"
    and bnd: "\<And>p. p \<in> set xs \<Longrightarrow>
      (\<exists>y\<in>set ys. lo (rl_at zp' y) = lo (rl_at zp p)) \<and> (\<exists>y\<in>set ys. hi (rl_at zp' y) = hi (rl_at zp p))
      \<or> (\<forall>b. within b (rl_at zp p) \<longrightarrow> c' b = 0)"
    and waits: "\<And>p w. (p, w) \<in> W' \<Longrightarrow> p \<in> set ys \<and> wanted w (rl_at zp' p) \<or> (p, w) \<in> W \<and> p \<notin> set xs"
  shows "core H' Q' W' c' zp'"
proof -
  have dist: "distinct (as @ xs @ bs)"
    using core_distinct [OF old(1)] old(2) by simp
  have keep: "rl_mem zp' p = rl_mem zp p" "H' p = H p" "Q' p = Q p" "rl_at zp' p = rl_at zp p"
    if "p \<in> set as \<union> set bs" for p
  proof -
    have "p \<notin> set xs \<union> set ys" using that fresh dist by auto
    then show "rl_mem zp' p = rl_mem zp p" "H' p = H p" "Q' p = Q p" "rl_at zp' p = rl_at zp p"
      using frame by (simp_all add: rl_at_def)
  qed
  have ordered: "ordered zp' (rl_nodes zp')"
    using core_ordered [OF old(1)] ord keep(4) ordered_cong [of as zp' zp] ordered_cong [of bs zp' zp]
    unfolding old(2) new(1) by (auto simp: ordered_append)
  have tree: "rl_mem zp' p = Some (rl_at zp' p) \<and> node_ok (H' p) (rl_at zp' p)" if "p \<in> set (rl_nodes zp')" for p
  proof (cases "p \<in> set ys")
    case False
    then have p: "p \<in> set as \<union> set bs" using that new(1) by auto
    then have "p \<in> set (rl_nodes zp)" using old(2) by auto
    then show ?thesis
      using core_node [OF old(1)] keep [OF p] by simp
  qed (use ys in blast)
  have cov: "cov zp' (rl_nodes zp') b = c' b" for b
    using core_cov [OF old(1), of b] cnt(1) [of b] cov_cong [of as zp' zp b] cov_cong [of bs zp' zp b] keep(4)
    unfolding old(2) new(1) by simp
  have off: "\<exists>r. rl_mem zp' h = Some r \<and> off_tree (starts zp') (ends zp') g r"
    if h: "H' h = Some g" "h \<notin> set (rl_nodes zp')" for h g
  proof (cases "h \<in> set xs")
    case True
    then show ?thesis using gone [of h] h new(1) by auto
  next
    case False
    then have n: "h \<notin> set xs \<union> set ys" "h \<notin> set (rl_nodes zp)" using h(2) old(2) new(1) by auto
    have H: "H h = Some g" and m: "rl_at zp' h = rl_at zp h" "rl_mem zp' h = rl_mem zp h"
      using frame [OF n(1)] h by (auto simp: rl_at_def)
    have o: "rl_mem zp h = Some (rl_at zp h)" "off_tree (starts zp) (ends zp) g (rl_at zp h)"
      using core_off [OF old(1) H n(2)] by auto
    have pos: "0 < c' b" if "within b (rl_at zp h)" for b
    proof -
      have "h \<in> {h. \<exists>g. H' h = Some g \<and> within b g}"
        using that h(1) o(2) by (simp add: off_tree_def agrees_def lo_def hi_def)
      moreover have "finite {h. \<exists>g. H' h = Some g \<and> within b g}"
      proof (rule finite_subset)
        show "{h. \<exists>g. H' h = Some g \<and> within b g} \<subseteq> dom (rl_mem zp) \<union> set xs \<union> set ys"
          using frame core_dom [OF old(1)] by (auto simp: dom_def)
        have "dom (rl_mem zp) \<subseteq> {..<rl_brk zp}" using core_brk [OF old(1)] by auto
        then show "finite (dom (rl_mem zp) \<union> set xs \<union> set ys)" by (simp add: finite_subset)
      qed
      ultimately have "0 < holders H' b" unfolding holders_def by (auto simp: card_gt_0_iff)
      then show ?thesis using cnt(2) [of b] by simp
    qed
    have g: "lo (rl_at zp h) < hi (rl_at zp h)" using o(2) by (simp add: off_tree_def good_def)
    have "starts zp' (lo (rl_at zp h))"
    proof -
      obtain p where p: "p \<in> set (rl_nodes zp)" "lo (rl_at zp p) = lo (rl_at zp h)"
        using o(2) by (auto simp: off_tree_def starts_def)
      show ?thesis
      proof (cases "p \<in> set xs")
        case True
        have "within (lo (rl_at zp h)) (rl_at zp p)" using p core_node(2) [OF old(1) p(1)] node_ok_good(2) by fastforce
        then show ?thesis using bnd [OF True] pos [of "lo (rl_at zp h)"] g p(2) new(1) by (auto simp: starts_def)
      next
        case False
        then have "p \<in> set as \<union> set bs" using p(1) old(2) by auto
        then show ?thesis unfolding starts_def using keep(4) p(2) new(1) by (intro bexI [of _ p]) auto
      qed
    qed
    moreover have "ends zp' (hi (rl_at zp h))"
    proof -
      obtain p where p: "p \<in> set (rl_nodes zp)" "hi (rl_at zp p) = hi (rl_at zp h)"
        using o(2) by (auto simp: off_tree_def ends_def)
      show ?thesis
      proof (cases "p \<in> set xs")
        case True
        have "within (hi (rl_at zp h) - 1) (rl_at zp p)" using p core_node(2) [OF old(1) p(1)] node_ok_good(2) by fastforce
        moreover have "within (hi (rl_at zp h) - 1) (rl_at zp h)" using g by auto
        ultimately show ?thesis using bnd [OF True] pos [of "hi (rl_at zp h) - 1"] p(2) new(1) by (auto simp: ends_def)
      next
        case False
        then have "p \<in> set as \<union> set bs" using p(1) old(2) by auto
        then show ?thesis unfolding ends_def using keep(4) p(2) new(1) by (intro bexI [of _ p]) auto
      qed
    qed
    ultimately show ?thesis using o m by (auto simp: off_tree_def)
  qed
  have W: "p \<in> set (rl_nodes zp') \<and> wanted w (rl_at zp' p)" if "(p, w) \<in> W'" for p w
    using waits [OF that] core_waits [OF old(1), of p w] keep(4) [of p] unfolding old(2) new(1) by auto
  have req: "rl_mem zp' q = Some r \<and> q \<notin> set (rl_nodes zp') \<and> H' q = None" if "Q' q = Some r" for q r
    using that frame [of q] gone [of q] ys [of q] core_req [OF old(1), of q r] unfolding old(2) new(1) by force
  have dom: "dom (rl_mem zp') = set (rl_nodes zp') \<union> dom H' \<union> dom Q'"
  proof (intro set_eqI)
    fix p show "p \<in> dom (rl_mem zp') \<longleftrightarrow> p \<in> set (rl_nodes zp') \<union> dom H' \<union> dom Q'"
    proof (cases "p \<in> set xs \<union> set ys")
      case True
      then show ?thesis
        using ys [of p] gone [of p] dist new(1) by (cases "p \<in> set ys") (auto split: option.splits)
    next
      case False
      then have "p \<in> set (rl_nodes zp') \<longleftrightarrow> p \<in> set (rl_nodes zp)" using old(2) new(1) by auto
      moreover have "p \<in> dom (rl_mem zp) \<longleftrightarrow> p \<in> set (rl_nodes zp) \<union> dom H \<union> dom Q"
        using core_dom [OF old(1)] by simp
      ultimately show ?thesis using frame [OF False] by (simp add: domIff)
    qed
  qed
  have brk': "p < rl_brk zp'" if "p \<in> dom (rl_mem zp')" for p
    using that brk frame [of p] gone [of p] core_brk [OF old(1), of p] core_node(1) [OF old(1), of p] old(2)
    by (cases "p \<in> set ys"; cases "p \<in> set xs") (auto intro: less_le_trans simp: domIff)
  show ?thesis
    unfolding core_def using new(2) ordered tree off cov cnt(2) W req dom brk' by blast
qed

subsection \<open>The tree by offsets\<close>

interpretation range_order: compare_fn "avl_cmp zp" for zp
  by unfold_locales (auto simp: zfs_range_compare_def split: if_splits)

lemma split_unique:
  assumes "as @ bs = cs @ ds" "\<forall>x\<in>set as. P x" "\<forall>x\<in>set cs. P x" "\<forall>x\<in>set bs. \<not> P x" "\<forall>x\<in>set ds. \<not> P x"
  shows "as = cs \<and> bs = ds"
proof -
  have "takeWhile P (xs @ ys) = xs" if "\<forall>x\<in>set xs. P x" "\<forall>x\<in>set ys. \<not> P x" for xs ys
    using that by (induction xs) (auto simp: takeWhile_eq_Nil_iff)
  then have "as = cs" using assms by metis
  then show ?thesis using assms(1) by simp
qed

lemma ordered_less:
  assumes "ordered zp ps" "\<And>p. p \<in> set ps \<Longrightarrow> good (rl_at zp p)"
  shows "sorted_wrt (\<lambda>a b. avl_cmp zp a b < 0) ps"
  using assms
proof (induction ps)
  case (Cons p ps)
  have "avl_cmp zp p q < 0" if "q \<in> set ps" for q
    using Cons.prems that by (force simp: good_def lo_def word_less_nat_alt zfs_range_compare_def)
  then show ?case using Cons by simp
qed simp

lemma rl_avl_find_slot:
  assumes "rl_nodes zp = as @ bs" "ordered zp (rl_nodes zp)" "\<And>x. x \<in> set (rl_nodes zp) \<Longrightarrow> good (rl_at zp x)"
    and "\<And>x. x \<in> set as \<Longrightarrow> lo (rl_at zp x) < lo (rl_at zp p)" "\<And>x. x \<in> set bs \<Longrightarrow> lo (rl_at zp p) < lo (rl_at zp x)"
  obtains w where "rl_avl_find zp p = (None, w)" "is_slot w (z_range_avl zp)"
    "before w (z_range_avl zp) = as" "after w (z_range_avl zp) = bs"
proof -
  have d: "descending (avl_cmp zp p) (rl_nodes zp)"
    using ordered_less [OF assms(2,3)] by (rule range_order.descending_sorted)
  have as: "0 < avl_cmp zp p x" if "x \<in> set as" for x
    using assms(4) [OF that] by (simp add: zfs_range_compare_def lo_def word_less_nat_alt)
  have bs: "avl_cmp zp p x < 0" if "x \<in> set bs" for x
    using assms(5) [OF that] by (simp add: zfs_range_compare_def lo_def word_less_nat_alt)
  have "fst (tree_find (avl_cmp zp p) (z_range_avl zp)) = None"
    using avl.find_decides [OF d] as bs assms(1) by fastforce
  then obtain w where w: "rl_avl_find zp p = (None, w)" "is_slot w (z_range_avl zp)"
    "rl_nodes zp = before w (z_range_avl zp) @ after w (z_range_avl zp)"
    "\<forall>x\<in>set (before w (z_range_avl zp)). 0 < avl_cmp zp p x"
    "\<forall>x\<in>set (after w (z_range_avl zp)). avl_cmp zp p x < 0"
    unfolding rl_avl_find_def by (rule avl.find_slot [OF d])
  have "as = before w (z_range_avl zp) \<and> bs = after w (z_range_avl zp)"
    using assms(1) w(3-5) as bs by (intro split_unique [where P = "\<lambda>x. 0 < avl_cmp zp p x"]) force+
  then show thesis using that w by blast
qed

lemma rl_avl_find_hit:
  assumes "ordered zp (rl_nodes zp)" "\<And>x. x \<in> set (rl_nodes zp) \<Longrightarrow> good (rl_at zp x)"
    and "x \<in> set (rl_nodes zp)" "lo (rl_at zp x) = lo (rl_at zp p)"
  shows "fst (rl_avl_find zp p) = Some x"
proof -
  have d: "descending (avl_cmp zp p) (rl_nodes zp)"
    using ordered_less [OF assms(1,2)] by (rule range_order.descending_sorted)
  have "fst (rl_avl_find zp p) \<noteq> None"
    unfolding rl_avl_find_def avl.find_decides [OF d] using assms(3,4)
    by (auto simp: zfs_range_compare_def lo_def word_unat_eq_iff word_less_nat_alt intro!: bexI [of _ x])
  then obtain y w where y: "rl_avl_find zp p = (Some y, w)" by (cases "rl_avl_find zp p") auto
  then have "y \<in> set (rl_nodes zp) \<and> avl_cmp zp p y = 0"
    unfolding rl_avl_find_def by (rule avl.find_Some)
  then have "y \<in> set (rl_nodes zp)" "lo (rl_at zp y) = lo (rl_at zp p)"
    by (auto simp: zfs_range_compare_def lo_def split: if_splits)
  moreover have "y = x"
  proof (rule ccontr)
    assume "y \<noteq> x"
    then have "hi (rl_at zp x) \<le> lo (rl_at zp y) \<or> hi (rl_at zp y) \<le> lo (rl_at zp x)"
      using assms(1,3) calculation(1) unfolding ordered_def
      by (metis in_set_conv_nth linorder_neqE_nat sorted_wrt_nth_less)
    then show False using assms(2,3,4) calculation by (fastforce simp: good_def)
  qed
  ultimately show ?thesis using y by simp
qed

text \<open>What the memory operations leave alone.\<close>

definition env :: "znode \<Rightarrow> bool \<times> u64 \<times> u32 \<times> u64" where
  "env zp = (z_vnode zp, zp_size zp, z_blksz zp, z_max_blksz zp)"

lemma rl_mem_simps [simp]:
  "rl_mem (rl_upd p f zp) = (rl_mem zp)(p \<mapsto> f (rl_at zp p))" "rl_nodes (rl_upd p f zp) = rl_nodes zp"
  "z_range_avl (rl_upd p f zp) = z_range_avl zp" "rl_brk (rl_upd p f zp) = rl_brk zp" "env (rl_upd p f zp) = env zp"
  "rl_mem (rl_avl_add p zp) = rl_mem zp" "rl_brk (rl_avl_add p zp) = rl_brk zp" "env (rl_avl_add p zp) = env zp"
  "rl_mem (rl_avl_insert p w zp) = rl_mem zp" "rl_brk (rl_avl_insert p w zp) = rl_brk zp" "env (rl_avl_insert p w zp) = env zp"
  "rl_mem (rl_avl_remove p zp) = rl_mem zp" "rl_brk (rl_avl_remove p zp) = rl_brk zp" "env (rl_avl_remove p zp) = env zp"
  "rl_mem (rl_free p zp) = (rl_mem zp)(p := None)" "z_range_avl (rl_free p zp) = z_range_avl zp"
  "rl_brk (rl_free p zp) = rl_brk zp" "env (rl_free p zp) = env zp"
  by (simp_all add: rl_upd_def rl_avl_add_def rl_avl_insert_def rl_avl_remove_def rl_free_def env_def)

lemma rl_at_simps [simp]:
  "rl_at (rl_upd p f zp) q = (if q = p then f (rl_at zp p) else rl_at zp q)"
  "rl_at (rl_avl_add p zp) = rl_at zp" "rl_at (rl_avl_insert p w zp) = rl_at zp" "rl_at (rl_avl_remove p zp) = rl_at zp"
  "q \<noteq> p \<Longrightarrow> rl_at (rl_free p zp) q = rl_at zp q"
  by (auto simp: rl_at_def fun_eq_iff)

lemma rl_avl_add_at:
  assumes "rl_nodes zp = as @ bs" "ordered zp (rl_nodes zp)" "\<And>x. x \<in> set (rl_nodes zp) \<Longrightarrow> good (rl_at zp x)"
    and "\<And>x. x \<in> set as \<Longrightarrow> lo (rl_at zp x) < lo (rl_at zp p)" "\<And>x. x \<in> set bs \<Longrightarrow> lo (rl_at zp p) < lo (rl_at zp x)"
  shows "rl_nodes (rl_avl_add p zp) = as @ p # bs" "balanced (z_range_avl zp) \<Longrightarrow> balanced (z_range_avl (rl_avl_add p zp))"
proof -
  obtain w where w: "rl_avl_find zp p = (None, w)" "is_slot w (z_range_avl zp)"
    "before w (z_range_avl zp) = as" "after w (z_range_avl zp) = bs"
    using rl_avl_find_slot [OF assms] .
  show "rl_nodes (rl_avl_add p zp) = as @ p # bs"
    using w avl.insert_seq [OF w(2), of p] by (simp add: rl_avl_add_def tree_add_def rl_avl_find_def)
  show "balanced (z_range_avl zp) \<Longrightarrow> balanced (z_range_avl (rl_avl_add p zp))"
    using w(1) avl.insert_ok [OF _ w(2)] by (simp add: rl_avl_add_def tree_add_def rl_avl_find_def)
qed

end
