(* ===== verification/Rlock_Steps.thy ===== *)
theory Rlock_Steps
  imports Rlock_Inv
begin

text \<open>
  The elementary changes of the range lock tree, each an instance of the general step: turning a lock into a
  proxy, splitting it, filling a gap, counting a reader in or out, granting, releasing, asking to be woken.
\<close>

definition ind :: "nat \<Rightarrow> nat \<Rightarrow> nat \<Rightarrow> nat" where
  "ind a e b = (if a \<le> b \<and> b < e then 1 else 0)"

lemma good_end: "good r \<Longrightarrow> unat (rl_end r) = hi r"
  by (simp add: good_def hi_def unat_word_ariths)

lemma node_ok_None: "node_ok None r \<longleftrightarrow> good r \<and> r_proxy r \<and> r_type r = RL_READER \<and> r_cnt r \<noteq> 0"
  by (auto simp: node_ok_def)

lemma node_ok_Some: "node_ok (Some g) r \<longleftrightarrow> good r \<and> r_type r \<noteq> RL_APPEND \<and> agrees g r \<and> r_cnt r = 1"
  by (auto simp: node_ok_def)

lemma node_ok_proxy: "node_ok g r \<Longrightarrow> r_proxy r \<longleftrightarrow> g = None"
  by (cases g) (auto simp: node_ok_None node_ok_Some agrees_def)

lemma new_proxy_simps [simp]:
  "r_off (new_proxy off len cnt) = off" "r_len (new_proxy off len cnt) = len" "r_cnt (new_proxy off len cnt) = cnt"
  "r_type (new_proxy off len cnt) = RL_READER" "r_proxy (new_proxy off len cnt)"
  "\<not> wanted w (new_proxy off len cnt)" "\<not> r_write_wanted (new_proxy off len cnt)" "lo (new_proxy off len cnt) = unat off" "hi (new_proxy off len cnt) = unat off + unat len"
  by (simp_all add: new_proxy_def wanted_def lo_def hi_def)

lemma upd_simps [simp]:
  "lo (r\<lparr>r_cnt := n\<rparr>) = lo r" "hi (r\<lparr>r_cnt := n\<rparr>) = hi r" "good (r\<lparr>r_cnt := n\<rparr>) = good r"
  "agrees g (r\<lparr>r_cnt := n\<rparr>) = agrees g r" "wanted w (r\<lparr>r_cnt := n\<rparr>) = wanted w r"
  "lo (r\<lparr>r_len := l\<rparr>) = lo r"
  "lo (r\<lparr>r_write_wanted := x\<rparr>) = lo r" "hi (r\<lparr>r_write_wanted := x\<rparr>) = hi r" "node_ok k (r\<lparr>r_write_wanted := x\<rparr>) = node_ok k r"
  "lo (r\<lparr>r_read_wanted := x\<rparr>) = lo r" "hi (r\<lparr>r_read_wanted := x\<rparr>) = hi r" "node_ok k (r\<lparr>r_read_wanted := x\<rparr>) = node_ok k r"
  by (auto simp: lo_def hi_def good_def agrees_def wanted_def node_ok_def split: option.splits)

lemma core_fresh:
  assumes "core H Q W c zp"
  shows "rl_mem zp (rl_brk zp) = None" "H (rl_brk zp) = None" "Q (rl_brk zp) = None" "rl_brk zp \<notin> set (rl_nodes zp)"
proof -
  have n: "rl_brk zp \<notin> dom (rl_mem zp)" using core_brk [OF assms] by blast
  then show "rl_mem zp (rl_brk zp) = None" by blast
  show "H (rl_brk zp) = None" "Q (rl_brk zp) = None" "rl_brk zp \<notin> set (rl_nodes zp)"
    using n core_dom [OF assms] by auto
qed

lemma core_between:
  assumes "core H Q W c zp" "rl_nodes zp = as @ p # bs"
  shows "\<And>x. x \<in> set as \<Longrightarrow> hi (rl_at zp x) \<le> lo (rl_at zp p)" "\<And>x. x \<in> set bs \<Longrightarrow> hi (rl_at zp p) \<le> lo (rl_at zp x)"
    and "p \<notin> set as" "p \<notin> set bs"
  using core_ordered [OF assms(1)] core_distinct [OF assms(1)] unfolding assms(2) by (auto simp: ordered_append)

lemma core_req_at: "core H Q W c zp \<Longrightarrow> Q q = Some r \<Longrightarrow> rl_at zp q = r"
  using core_req [of H Q W c zp q r] by (simp add: rl_at_def)

subsection \<open>Memory\<close>

text \<open>Changes beside the tree.\<close>

lemma core_side:
  assumes old: "core H Q W c zp" and tree: "z_range_avl zp' = z_range_avl zp" and brk: "rl_brk zp \<le> rl_brk zp'"
    and inside: "\<And>p. p \<in> set (rl_nodes zp) \<Longrightarrow> rl_mem zp' p = rl_mem zp p \<and> H' p = H p \<and> Q' p = None"
    and outside: "\<And>p. p \<notin> set (rl_nodes zp) \<Longrightarrow>
      (\<forall>g. H' p = Some g \<longrightarrow> Q' p = None \<and> (\<exists>r. rl_mem zp' p = Some r \<and> off_tree (starts zp) (ends zp) g r))
      \<and> (\<forall>r. Q' p = Some r \<longrightarrow> rl_mem zp' p = Some r)
      \<and> (rl_mem zp' p \<noteq> None \<longrightarrow> (H' p \<noteq> None \<or> Q' p \<noteq> None) \<and> p < rl_brk zp')"
    and H: "\<And>b. holders H' b \<le> c b"
  shows "core H' Q' W c zp'"
proof -
  have at: "rl_at zp' p = rl_at zp p" if "p \<in> set (rl_nodes zp)" for p
    using inside [OF that] by (simp add: rl_at_def)
  have se: "starts zp' = starts zp" "ends zp' = ends zp"
    using at by (auto simp: starts_def ends_def tree fun_eq_iff)
  have "\<forall>x\<in>set (rl_nodes zp'). \<exists>r. rl_mem zp' x = Some r \<and> node_ok (H' x) r"
    using core_nodes [OF old] inside by (simp add: tree)
  moreover have "H' h = Some g \<longrightarrow> h \<notin> set (rl_nodes zp') \<longrightarrow> (\<exists>r. rl_mem zp' h = Some r \<and> off_tree (starts zp') (ends zp') g r)" for h g
    using outside [of h] by (simp add: se tree)
  moreover have "ordered zp' (rl_nodes zp')" "\<forall>b. cov zp' (rl_nodes zp') b = c b"
    using core_ordered [OF old] core_cov [OF old] ordered_cong [OF at] cov_cong [OF at] by (simp_all add: tree)
  moreover have "\<forall>(x, w)\<in>W. x \<in> set (rl_nodes zp') \<and> wanted w (rl_at zp' x)"
    using core_waits [OF old] at by (auto simp: tree)
  moreover have "Q' q = Some r' \<longrightarrow> rl_mem zp' q = Some r' \<and> q \<notin> set (rl_nodes zp') \<and> H' q = None" for q r'
    using inside [of q] outside [of q] by (cases "q \<in> set (rl_nodes zp)") (auto simp: tree)
  moreover have "p \<in> dom (rl_mem zp') \<longleftrightarrow> p \<in> set (rl_nodes zp') \<union> dom H' \<union> dom Q'" for p
    using inside [of p] outside [of p] core_node(1) [OF old, of p] by (cases "p \<in> set (rl_nodes zp)") (auto simp: tree)
  moreover have "p < rl_brk zp'" if "p \<in> dom (rl_mem zp')" for p
    using that inside [of p] outside [of p] core_brk [OF old, of p] brk
    by (cases "p \<in> set (rl_nodes zp)") (auto simp: tree domIff)
  ultimately show ?thesis
    unfolding core_def using core_balanced [OF old] H by (simp add: tree set_eq_iff)
qed

text \<open>The conditions on the locks and requests outside the tree, as the invariant has them.\<close>

lemma core_outside:
  assumes "core H Q W c zp" "p \<notin> set (rl_nodes zp)"
  shows "(\<forall>g. H p = Some g \<longrightarrow> Q p = None \<and> (\<exists>r. rl_mem zp p = Some r \<and> off_tree (starts zp) (ends zp) g r))
    \<and> (\<forall>r. Q p = Some r \<longrightarrow> rl_mem zp p = Some r)
    \<and> (rl_mem zp p \<noteq> None \<longrightarrow> (H p \<noteq> None \<or> Q p \<noteq> None) \<and> p < rl_brk zp)"
proof -
  have "Q p = None" if "H p = Some g" for g
    using core_req [OF assms(1), of p] that by (cases "Q p") auto
  moreover have "rl_mem zp p \<noteq> None \<longleftrightarrow> H p \<noteq> None \<or> Q p \<noteq> None"
    using core_dom [OF assms(1)] assms(2) by (metis Un_iff domIff)
  ultimately show ?thesis
    using core_off [OF assms(1) _ assms(2)] core_req [OF assms(1), of p] core_brk [OF assms(1), of p] by (auto simp: domIff)
qed

lemma core_inside:
  assumes "core H Q W c zp" "p \<in> set (rl_nodes zp)"
  shows "Q p = None"
  using core_req [OF assms(1), of p] assms(2) by (cases "Q p") auto

lemma core_alloc:
  assumes "core H Q W c zp" "rl_alloc r zp = (zp', p)"
  shows "core H (Q(p \<mapsto> r)) W c zp'" "p = rl_brk zp" "rl_nodes zp' = rl_nodes zp" "env zp' = env zp"
    and "\<And>x. x \<noteq> p \<Longrightarrow> rl_at zp' x = rl_at zp x" "rl_at zp' p = r" "z_range_avl zp' = z_range_avl zp"
proof -
  have e: "p = rl_brk zp" "zp' = zp\<lparr>rl_mem := (rl_mem zp)(p \<mapsto> r), rl_brk := Suc p\<rparr>"
    using assms(2) by (auto simp: rl_alloc_def)
  note f = core_fresh [OF assms(1), folded e(1)]
  show "p = rl_brk zp" "rl_nodes zp' = rl_nodes zp" "env zp' = env zp" "z_range_avl zp' = z_range_avl zp"
    and "\<And>x. x \<noteq> p \<Longrightarrow> rl_at zp' x = rl_at zp x" "rl_at zp' p = r"
    using e by (simp_all add: e(2) env_def rl_at_def)
  show "core H (Q(p \<mapsto> r)) W c zp'"
  proof (rule core_side [OF assms(1)])
    fix x assume "x \<in> set (rl_nodes zp)"
    then show "rl_mem zp' x = rl_mem zp x \<and> H x = H x \<and> (Q(p \<mapsto> r)) x = None"
      using f(4) core_inside [OF assms(1)] by (auto simp: e(2))
  next
    fix x assume "x \<notin> set (rl_nodes zp)"
    then show "(\<forall>g. H x = Some g \<longrightarrow> (Q(p \<mapsto> r)) x = None \<and> (\<exists>r. rl_mem zp' x = Some r \<and> off_tree (starts zp) (ends zp) g r))
      \<and> (\<forall>r'. (Q(p \<mapsto> r)) x = Some r' \<longrightarrow> rl_mem zp' x = Some r')
      \<and> (rl_mem zp' x \<noteq> None \<longrightarrow> (H x \<noteq> None \<or> (Q(p \<mapsto> r)) x \<noteq> None) \<and> x < rl_brk zp')"
      using core_outside [OF assms(1), of x] f(2) e(1) by (cases "x = p") (auto simp: e(2))
  qed (use core_holders [OF assms(1)] e in auto)
qed

text \<open>A caller's own structure changes, or goes away.\<close>

lemma core_req_upd:
  assumes "core H Q W c zp" "Q p = Some r"
  shows "core H (Q(p \<mapsto> f r)) W c (rl_upd p f zp)"
proof (rule core_side [OF assms(1)])
  have p: "p \<notin> set (rl_nodes zp)" "H p = None" "rl_at zp p = r" "p < rl_brk zp"
    using core_req [OF assms] core_brk [OF assms(1), of p] by (auto simp: rl_at_def)
  fix x
  { assume "x \<in> set (rl_nodes zp)"
    then show "rl_mem (rl_upd p f zp) x = rl_mem zp x \<and> H x = H x \<and> (Q(p \<mapsto> f r)) x = None"
      using p(1) core_inside [OF assms(1)] by auto
  next
    assume "x \<notin> set (rl_nodes zp)"
    then show "(\<forall>g. H x = Some g \<longrightarrow> (Q(p \<mapsto> f r)) x = None
        \<and> (\<exists>r. rl_mem (rl_upd p f zp) x = Some r \<and> off_tree (starts zp) (ends zp) g r))
      \<and> (\<forall>r'. (Q(p \<mapsto> f r)) x = Some r' \<longrightarrow> rl_mem (rl_upd p f zp) x = Some r')
      \<and> (rl_mem (rl_upd p f zp) x \<noteq> None \<longrightarrow> (H x \<noteq> None \<or> (Q(p \<mapsto> f r)) x \<noteq> None) \<and> x < rl_brk (rl_upd p f zp))"
      using core_outside [OF assms(1), of x] p by (cases "x = p") auto }
qed (use core_holders [OF assms(1)] in auto)

lemma core_req_free:
  assumes "core H Q W c zp" "Q p = Some r"
  shows "core H (Q(p := None)) W c (rl_free p zp)"
proof (rule core_side [OF assms(1)])
  have p: "p \<notin> set (rl_nodes zp)" "H p = None"
    using core_req [OF assms] by auto
  fix x
  { assume "x \<in> set (rl_nodes zp)"
    then show "rl_mem (rl_free p zp) x = rl_mem zp x \<and> H x = H x \<and> (Q(p := None)) x = None"
      using p(1) core_inside [OF assms(1)] by auto
  next
    assume "x \<notin> set (rl_nodes zp)"
    then show "(\<forall>g. H x = Some g \<longrightarrow> (Q(p := None)) x = None
        \<and> (\<exists>r. rl_mem (rl_free p zp) x = Some r \<and> off_tree (starts zp) (ends zp) g r))
      \<and> (\<forall>r'. (Q(p := None)) x = Some r' \<longrightarrow> rl_mem (rl_free p zp) x = Some r')
      \<and> (rl_mem (rl_free p zp) x \<noteq> None \<longrightarrow> (H x \<noteq> None \<or> (Q(p := None)) x \<noteq> None) \<and> x < rl_brk (rl_free p zp))"
      using core_outside [OF assms(1), of x] p by (cases "x = p") auto }
qed (use core_holders [OF assms(1)] in auto)

text \<open>A lock that is made up of proxies is granted, or on its way out.\<close>

lemma core_grant:
  assumes "core H Q W c zp" "Q p = Some r" "off_tree (starts zp) (ends zp) g r" "\<And>b. holders (H(p \<mapsto> g)) b \<le> c b"
  shows "core (H(p \<mapsto> g)) (Q(p := None)) W c zp"
proof (rule core_side [OF assms(1)])
  have p: "p \<notin> set (rl_nodes zp)" "H p = None" "rl_mem zp p = Some r" "p < rl_brk zp"
    using core_req [OF assms(1,2)] core_brk [OF assms(1), of p] by auto
  fix x
  { assume "x \<in> set (rl_nodes zp)"
    then show "rl_mem zp x = rl_mem zp x \<and> (H(p \<mapsto> g)) x = H x \<and> (Q(p := None)) x = None"
      using p(1) core_inside [OF assms(1)] by auto
  next
    assume "x \<notin> set (rl_nodes zp)"
    then show "(\<forall>g'. (H(p \<mapsto> g)) x = Some g' \<longrightarrow> (Q(p := None)) x = None
        \<and> (\<exists>r. rl_mem zp x = Some r \<and> off_tree (starts zp) (ends zp) g' r))
      \<and> (\<forall>r'. (Q(p := None)) x = Some r' \<longrightarrow> rl_mem zp x = Some r')
      \<and> (rl_mem zp x \<noteq> None \<longrightarrow> ((H(p \<mapsto> g)) x \<noteq> None \<or> (Q(p := None)) x \<noteq> None) \<and> x < rl_brk zp)"
      using core_outside [OF assms(1), of x] p assms(3) by (cases "x = p") auto }
qed (use assms(4) in auto)

lemma holders_finite:
  assumes "core H Q W c zp"
  shows "finite (dom H)"
proof (rule finite_subset)
  show "dom H \<subseteq> {..<rl_brk zp}"
  proof
    fix h assume "h \<in> dom H"
    then have "h \<in> dom (rl_mem zp)" using core_dom [OF assms] by blast
    then show "h \<in> {..<rl_brk zp}" using core_brk [OF assms] by simp
  qed
qed simp

lemma holders_set_finite: "finite (dom H) \<Longrightarrow> finite {h. \<exists>g. H h = Some g \<and> within b g}"
  by (rule finite_subset [of _ "dom H"]) auto

lemma holders_del: "finite (dom H) \<Longrightarrow> holders (H(p := None)) b \<le> holders H b"
  unfolding holders_def by (rule card_mono [OF holders_set_finite]) auto

lemma core_release:
  assumes "core H Q W c zp" "H p = Some g" "p \<notin> set (rl_nodes zp)"
  shows "core (H(p := None)) (Q(p \<mapsto> rl_at zp p)) W c zp"
proof (rule core_side [OF assms(1)])
  have p: "rl_mem zp p = Some (rl_at zp p)" "p < rl_brk zp"
    using core_off [OF assms] core_brk [OF assms(1), of p] by auto
  fix x
  { assume "x \<in> set (rl_nodes zp)"
    then show "rl_mem zp x = rl_mem zp x \<and> (H(p := None)) x = H x \<and> (Q(p \<mapsto> rl_at zp p)) x = None"
      using assms(3) core_inside [OF assms(1)] by auto
  next
    assume "x \<notin> set (rl_nodes zp)"
    then show "(\<forall>g. (H(p := None)) x = Some g \<longrightarrow> (Q(p \<mapsto> rl_at zp p)) x = None
        \<and> (\<exists>r. rl_mem zp x = Some r \<and> off_tree (starts zp) (ends zp) g r))
      \<and> (\<forall>r'. (Q(p \<mapsto> rl_at zp p)) x = Some r' \<longrightarrow> rl_mem zp x = Some r')
      \<and> (rl_mem zp x \<noteq> None \<longrightarrow> ((H(p := None)) x \<noteq> None \<or> (Q(p \<mapsto> rl_at zp p)) x \<noteq> None) \<and> x < rl_brk zp)"
      using core_outside [OF assms(1), of x] p by (cases "x = p") auto }
next
  show "holders (H(p := None)) b \<le> c b" for b
    using core_holders [OF assms(1)] holders_del [OF holders_finite [OF assms(1)]] by (rule le_trans [rotated])
qed simp_all

subsection \<open>Proxies\<close>

lemma rl_avl_remove_at:
  assumes "core H Q W c zp" "rl_nodes zp = as @ p # bs"
  shows "rl_nodes (rl_avl_remove p zp) = as @ bs" "balanced (z_range_avl (rl_avl_remove p zp))"
  using avl.remove_seq [OF core_distinct [OF assms(1)] assms(2)]
    avl.remove_ok [OF core_balanced [OF assms(1)] core_distinct [OF assms(1)], of p] assms(2)
  by (simp_all add: rl_avl_remove_def)

lemma core_at: "core H Q W c zp \<Longrightarrow> p \<in> set (rl_nodes zp) \<Longrightarrow> rl_mem zp p = Some r \<Longrightarrow> rl_at zp p = r"
  by (simp add: rl_at_def)

lemma core_good: "core H Q W c zp \<Longrightarrow> p \<in> set (rl_nodes zp) \<Longrightarrow> good (rl_at zp p)"
  using core_node(2) node_ok_good(1) by blast

text \<open>What the list of ranges looks like after one was added in its place.\<close>

lemma add_in_place:
  assumes "rl_nodes zp = as @ bs" "ordered zp (as @ bs)" "\<And>x. x \<in> set (as @ bs) \<Longrightarrow> good (rl_at zp x)" "good (rl_at zp q)"
    and "\<And>x. x \<in> set as \<Longrightarrow> hi (rl_at zp x) \<le> lo (rl_at zp q)" "\<And>x. x \<in> set bs \<Longrightarrow> hi (rl_at zp q) \<le> lo (rl_at zp x)"
    and "balanced (z_range_avl zp)"
  shows "rl_nodes (rl_avl_add q zp) = as @ q # bs" "balanced (z_range_avl (rl_avl_add q zp))"
proof -
  have "lo (rl_at zp x) < lo (rl_at zp q)" if "x \<in> set as" for x
    using assms(3) [of x] assms(5) [OF that] that by (simp add: good_def)
  moreover have "lo (rl_at zp q) < lo (rl_at zp x)" if "x \<in> set bs" for x
    using assms(4) assms(6) [OF that] by (simp add: good_def)
  ultimately show "rl_nodes (rl_avl_add q zp) = as @ q # bs" "balanced (z_range_avl (rl_avl_add q zp))"
    using rl_avl_add_at [of zp as bs q] assms(1-3,7) by simp_all
qed

lemma core_proxify:
  assumes C: "core H Q W c zp" and N: "rl_nodes zp = as @ p # bs" and reader: "r_type (rl_at zp p) = RL_READER"
    and free: "\<And>w. (p, w) \<notin> W"
  obtains zp' q where "zfs_range_proxify p zp = (zp', q)" "core H Q W c zp'" "rl_nodes zp' = as @ q # bs" "env zp' = env zp"
    "\<And>w. (q, w) \<notin> W" "H q = None" "r_off (rl_at zp' p) = r_off (rl_at zp p)" "r_cnt (rl_at zp' q) = r_cnt (rl_at zp p)"
    "r_off (rl_at zp' q) = r_off (rl_at zp p)" "r_len (rl_at zp' q) = r_len (rl_at zp p)"
    "\<And>x. x \<in> set as \<union> set bs \<Longrightarrow> rl_at zp' x = rl_at zp x"
proof (cases "r_proxy (rl_at zp p)")
  case True
  then have "H p = None" using node_ok_proxy [OF core_node(2) [OF C, of p]] N by simp
  then show thesis using that [of zp p] True C N free by (simp add: zfs_range_proxify_def)
next
  case False
  define r where "r = rl_at zp p"
  define q where "q = rl_brk zp"
  define zp1 where "zp1 = rl_upd p (\<lambda>r. r\<lparr>r_cnt := 0\<rparr>) (rl_avl_remove p zp)"
  define zp2 where "zp2 = zp1\<lparr>rl_mem := (rl_mem zp1)(q \<mapsto> new_proxy (r_off r) (r_len r) 1), rl_brk := Suc q\<rparr>"
  define zp' where "zp' = rl_avl_add q zp2"
  note f = core_fresh [OF C, folded q_def] and rm = rl_avl_remove_at [OF C N]
  have qp: "q \<noteq> p" "q \<notin> set as" "q \<notin> set bs" using f(4) N by auto
  have node: "node_ok (H p) r" using core_node(2) [OF C, of p] N by (simp add: r_def)
  then obtain g where g: "H p = Some g" using False by (cases "H p") (auto simp: node_ok_None r_def)
  have r: "good r" "agrees g r" "r_cnt r = 1" using node g by (auto simp: node_ok_Some)
  have m2: "rl_mem zp2 = (rl_mem zp)(p \<mapsto> r\<lparr>r_cnt := 0\<rparr>, q \<mapsto> new_proxy (r_off r) (r_len r) 1)" "rl_brk zp2 = Suc q"
    by (simp_all add: zp2_def zp1_def r_def)
  have n2: "rl_nodes zp2 = as @ bs" "balanced (z_range_avl zp2)" using rm by (simp_all add: zp2_def zp1_def)
  have at2: "rl_at zp2 q = new_proxy (r_off r) (r_len r) 1" "rl_at zp2 p = r\<lparr>r_cnt := 0\<rparr>"
    "\<And>x. x \<noteq> p \<Longrightarrow> x \<noteq> q \<Longrightarrow> rl_at zp2 x = rl_at zp x"
    using qp(1) by (simp_all add: rl_at_def m2)
  note bt = core_between [OF C N]
  have side: "rl_at zp2 x = rl_at zp x" if "x \<in> set (as @ bs)" for x
    using at2(3) [of x] that bt(3,4) qp by (metis Un_iff set_append)
  have gq: "good (rl_at zp2 q)" using r(1) by (simp add: at2 good_def lo_def hi_def)
  have ord2: "ordered zp2 (as @ bs)"
  proof (rule ordered_cong [OF side])
    show "ordered zp (as @ bs)" using core_ordered [OF C] unfolding N by (simp add: ordered_append)
  qed
  have good2: "good (rl_at zp2 x)" if "x \<in> set (as @ bs)" for x
    using core_good [OF C, of x] side [OF that] that N by simp
  have as2: "hi (rl_at zp2 x) \<le> lo (rl_at zp2 q)" if "x \<in> set as" for x
    using bt(1) [OF that] side [of x] that by (simp add: at2 lo_def r_def)
  have bs2: "hi (rl_at zp2 q) \<le> lo (rl_at zp2 x)" if "x \<in> set bs" for x
    using bt(2) [OF that] side [of x] that by (simp add: at2 hi_def r_def)
  note n' = add_in_place [OF n2(1) ord2 good2 gq as2 bs2 n2(2), folded zp'_def]
  have at': "rl_at zp' = rl_at zp2" "rl_mem zp' = rl_mem zp2" by (simp_all add: zp'_def)
  have brk': "rl_brk zp \<le> rl_brk zp'" "q < rl_brk zp'" using m2(2) by (simp_all add: zp'_def q_def)
  have run: "zfs_range_proxify p zp = (zp', q)"
    using False by (simp add: zfs_range_proxify_def Let_def rl_alloc_def zp'_def zp2_def zp1_def q_def r_def)
  have lh: "lo (rl_at zp' q) = lo r" "hi (rl_at zp' q) = hi r" by (simp_all add: at' at2 lo_def hi_def)
  have "core H Q W c zp'"
  proof (rule core_splice [OF C, of as "[p]" bs zp' "[q]"])
    have "off_tree (starts zp') (ends zp') g (r\<lparr>r_cnt := 0\<rparr>)"
      using r reader lh n'(1) by (auto simp: off_tree_def starts_def ends_def r_def)
    then show "Q x = None \<and> (case H x of None \<Rightarrow> rl_mem zp' x = None
       | Some g \<Rightarrow> \<exists>r. rl_mem zp' x = Some r \<and> off_tree (starts zp') (ends zp') g r)" if "x \<in> set [p]" for x
      using that g core_inside [OF C, of p] N qp(1) by (auto simp: at' m2)
  qed (use N n' brk' f qp free g r lh core_holders [OF C] bt in
      \<open>auto simp: at' at2 m2 node_ok_None gq r_def [symmetric] good_def\<close>)
  moreover have "env zp' = env zp" by (simp add: zp'_def zp2_def zp1_def env_def rl_upd_def rl_avl_remove_def rl_avl_add_def)
  moreover have "(q, w) \<notin> W" for w using core_waits [OF C, of q w] f(4) by blast
  ultimately show thesis
    using that [OF run _ n'(1)] f(2) r(3) side by (auto simp: at' at2 r_def)
qed

lemma core_node_upd:
  assumes C: "core H Q W c zp" and N: "rl_nodes zp = as @ p # bs" and r: "r = rl_at zp p"
    and ok: "node_ok (H p) (f r)" "r_off (f r) = r_off r" "r_len (f r) = r_len r"
    and cnt: "\<And>b. c' b = (if within b r then c b + unat (r_cnt (f r)) - unat (r_cnt r) else c b)" "\<And>b. holders H b \<le> c' b"
    and W: "\<And>w. (p, w) \<in> W' \<Longrightarrow> wanted w (f r)" "\<And>x w. x \<noteq> p \<Longrightarrow> (x, w) \<in> W' \<Longrightarrow> (x, w) \<in> W"
  shows "core H Q W' c' (rl_upd p f zp)"
proof (rule core_splice [OF C, of as "[p]" bs _ "[p]"])
  note bt = core_between [OF C N]
  have lh: "lo (f r) = lo r" "hi (f r) = hi r" using ok by (simp_all add: lo_def hi_def)
  show "c b + cov (rl_upd p f zp) [p] b = c' b + cov zp [p] b" for b
  proof -
    have "c b = cov zp as b + cov zp [p] b + cov zp bs b" using core_cov [OF C, of b] unfolding N by simp
    then show ?thesis using cnt(1) [of b] r lh by auto
  qed
  show "x \<in> set [p] \<Longrightarrow> x < rl_brk (rl_upd p f zp)" for x
    using core_brk [OF C, of p] core_node(1) [OF C, of p] N by auto
  show "x \<in> set [p] \<Longrightarrow> Q x = None \<and> rl_mem (rl_upd p f zp) x = Some (rl_at (rl_upd p f zp) x)
      \<and> node_ok (H x) (rl_at (rl_upd p f zp) x)" for x
    using core_inside [OF C, of p] N ok(1) r by auto
  show "\<And>x y. x \<in> set as \<Longrightarrow> y \<in> set [p] \<Longrightarrow> hi (rl_at zp x) \<le> lo (rl_at (rl_upd p f zp) y)"
    "\<And>x y. x \<in> set bs \<Longrightarrow> y \<in> set [p] \<Longrightarrow> hi (rl_at (rl_upd p f zp) y) \<le> lo (rl_at zp x)"
    using bt lh r by auto
  show "x \<in> set [p] \<Longrightarrow>
      (\<exists>y\<in>set [p]. lo (rl_at (rl_upd p f zp) y) = lo (rl_at zp x)) \<and> (\<exists>y\<in>set [p]. hi (rl_at (rl_upd p f zp) y) = hi (rl_at zp x))
      \<or> (\<forall>b. within b (rl_at zp x) \<longrightarrow> c' b = 0)" for x
    using lh r by simp
  show "set [p] \<inter> (set as \<union> set bs) = {}" using bt by simp
  show "\<And>x w. (x, w) \<in> W' \<Longrightarrow> x \<in> set [p] \<and> wanted w (rl_at (rl_upd p f zp) x) \<or> (x, w) \<in> W \<and> x \<notin> set [p]"
    using W r by auto
qed (use N core_balanced [OF C] cnt(2) in auto)

text \<open>One more reader on a proxy; somebody asks to be woken.\<close>

lemma core_bump:
  assumes C: "core H Q W c zp" and N: "rl_nodes zp = as @ p # bs" and p: "H p = None" "unat (r_cnt (rl_at zp p)) < 2 ^ 32 - 1"
  shows "core H Q W (\<lambda>b. c b + ind (lo (rl_at zp p)) (hi (rl_at zp p)) b) (rl_bump p zp)"
  unfolding rl_bump_def
proof (rule core_node_upd [OF C N refl])
  have n: "unat (r_cnt (rl_at zp p) + 1) = Suc (unat (r_cnt (rl_at zp p)))"
    using p(2) by (simp add: unat_word_ariths)
  then have "r_cnt (rl_at zp p) + 1 \<noteq> 0" by (metis nat.distinct(1) unat_0)
  moreover have "node_ok None (rl_at zp p)" using core_node(2) [OF C, of p] N p(1) by simp
  ultimately show "node_ok (H p) (rl_at zp p\<lparr>r_cnt := r_cnt (rl_at zp p) + 1\<rparr>)" using p(1) by (simp add: node_ok_None)
  show "c b + ind (lo (rl_at zp p)) (hi (rl_at zp p)) b =
      (if within b (rl_at zp p) then c b + unat (r_cnt (rl_at zp p\<lparr>r_cnt := r_cnt (rl_at zp p) + 1\<rparr>)) - unat (r_cnt (rl_at zp p)) else c b)" for b
    using n by (simp add: ind_def)
  show "holders H b \<le> c b + ind (lo (rl_at zp p)) (hi (rl_at zp p)) b" for b
    using core_holders [OF C, of b] by simp
  show "wanted w (rl_at zp p\<lparr>r_cnt := r_cnt (rl_at zp p) + 1\<rparr>)" if "(p, w) \<in> W" for w
    using core_waits [OF C that] by simp
qed simp_all

lemma core_want:
  assumes C: "core H Q W c zp" and p: "p \<in> set (rl_nodes zp)"
  shows "core H Q (insert (p, True) W) c (rl_upd p (\<lambda>r. r\<lparr>r_write_wanted := True\<rparr>) zp)"
    and "r_type (rl_at zp p) = RL_WRITER \<or> r_write_wanted (rl_at zp p) \<Longrightarrow> core H Q (insert (p, False) W) c (rl_upd p (\<lambda>r. r\<lparr>r_read_wanted := True\<rparr>) zp)"
proof -
  obtain as bs where N: "rl_nodes zp = as @ p # bs" using p by (meson split_list)
  note ok = core_node(2) [OF C p] and w = core_waits [OF C, of p]
  show "core H Q (insert (p, True) W) c (rl_upd p (\<lambda>r. r\<lparr>r_write_wanted := True\<rparr>) zp)"
    using core_holders [OF C] ok w by (intro core_node_upd [OF C N refl]) (auto simp: wanted_def split: if_splits)
  show "core H Q (insert (p, False) W) c (rl_upd p (\<lambda>r. r\<lparr>r_read_wanted := True\<rparr>) zp)"
    if "r_type (rl_at zp p) = RL_WRITER \<or> r_write_wanted (rl_at zp p)"
    using that core_holders [OF C] ok w by (intro core_node_upd [OF C N refl]) (auto simp: wanted_def split: if_splits)
qed

text \<open>A structure of the caller becomes a node.\<close>

lemma holders_add:
  assumes "finite (dom H)" "H p = None"
  shows "holders (H(p \<mapsto> r)) b = holders H b + ind (lo r) (hi r) b"
proof -
  have "{h. \<exists>g. (H(p \<mapsto> r)) h = Some g \<and> within b g} =
      (if within b r then insert p {h. \<exists>g. H h = Some g \<and> within b g} else {h. \<exists>g. H h = Some g \<and> within b g})"
    using assms(2) by auto
  moreover have "p \<notin> {h. \<exists>g. H h = Some g \<and> within b g}" using assms(2) by simp
  ultimately show ?thesis
    using holders_set_finite [OF assms(1)] by (simp add: holders_def ind_def)
qed

lemma core_enter:
  assumes C: "core H Q W c zp" and N: "rl_nodes zp = as @ bs" and q: "Q p = Some r"
    and r: "node_ok G r" "r_cnt r = 1" "\<And>x. x \<in> set as \<Longrightarrow> hi (rl_at zp x) \<le> lo r" "\<And>x. x \<in> set bs \<Longrightarrow> hi r \<le> lo (rl_at zp x)"
    and z: "rl_nodes zp' = as @ p # bs" "balanced (z_range_avl zp')" "rl_mem zp' = rl_mem zp" "rl_brk zp' = rl_brk zp"
    and H: "\<And>b. holders (H(p := G)) b \<le> c b + ind (lo r) (hi r) b"
  shows "core (H(p := G)) (Q(p := None)) W (\<lambda>b. c b + ind (lo r) (hi r) b) zp'"
proof (rule core_splice [OF C, of as "[]" bs zp' "[p]"])
  have p: "p \<notin> set (rl_nodes zp)" "rl_mem zp p = Some r" "p < rl_brk zp"
    using core_req [OF C q] core_brk [OF C, of p] by auto
  have at: "rl_at zp' = rl_at zp" "rl_at zp p = r" using z(3) p(2) by (auto simp: rl_at_def fun_eq_iff)
  show "c b + cov zp' [p] b = c b + ind (lo r) (hi r) b + cov zp [] b" for b
    using at r(2) by (simp add: ind_def)
  show "x \<in> set [p] \<Longrightarrow> x < rl_brk zp'" for x using p z(4) by simp
  show "x \<in> set [p] \<Longrightarrow> (Q(p := None)) x = None \<and> rl_mem zp' x = Some (rl_at zp' x) \<and> node_ok ((H(p := G)) x) (rl_at zp' x)" for x
    using p r(1) at z(3) by simp
  show "set [p] \<inter> (set as \<union> set bs) = {}" using p(1) N by simp
  show "\<And>x y. x \<in> set as \<Longrightarrow> y \<in> set [p] \<Longrightarrow> hi (rl_at zp x) \<le> lo (rl_at zp' y)"
    "\<And>x y. x \<in> set bs \<Longrightarrow> y \<in> set [p] \<Longrightarrow> hi (rl_at zp' y) \<le> lo (rl_at zp x)"
    using r(3,4) at by simp_all
qed (use N z H in auto)

lemma core_new_proxy:
  assumes C: "core H Q W c zp" and N: "rl_nodes zp = as @ bs" and len: "len \<noteq> 0" "unat off + unat len < 2 ^ 64"
    and bt: "\<And>x. x \<in> set as \<Longrightarrow> hi (rl_at zp x) \<le> unat off" "\<And>x. x \<in> set bs \<Longrightarrow> unat off + unat len \<le> lo (rl_at zp x)"
  obtains zp' q where "zfs_range_new_proxy off len zp = zp'" "core H Q W (\<lambda>b. c b + ind (unat off) (unat off + unat len) b) zp'"
    "rl_nodes zp' = as @ q # bs" "env zp' = env zp" "H q = None" "\<And>w. (q, w) \<notin> W"
    "lo (rl_at zp' q) = unat off" "hi (rl_at zp' q) = unat off + unat len"
    "\<And>x. x \<in> set as \<union> set bs \<Longrightarrow> rl_at zp' x = rl_at zp x" "r_type (rl_at zp' q) = RL_READER"
proof -
  obtain zp1 q where a: "rl_alloc (new_proxy off len 1) zp = (zp1, q)" by fastforce
  note A = core_alloc [OF C a]
  define zp' where "zp' = rl_avl_add q zp1"
  have q: "q \<notin> set as" "q \<notin> set bs" "H q = None" "Q q = None" "q \<notin> set (rl_nodes zp)"
    using core_fresh [OF C] A(2) N by auto
  have side: "rl_at zp1 x = rl_at zp x" if "x \<in> set as \<union> set bs" for x
    using A(5) [of x] that q by auto
  have pos: "0 < unat len" using len(1) by (simp add: unat_gt_0)
  have gq: "good (rl_at zp1 q)" using len pos by (simp add: A(6) good_def)
  have N1: "rl_nodes zp1 = as @ bs" using A(3) N by simp
  have b1: "\<And>x. x \<in> set as \<Longrightarrow> hi (rl_at zp1 x) \<le> lo (rl_at zp1 q)" "\<And>x. x \<in> set bs \<Longrightarrow> hi (rl_at zp1 q) \<le> lo (rl_at zp1 x)"
    using bt side by (auto simp: A(6))
  have n': "rl_nodes zp' = as @ q # bs" "balanced (z_range_avl zp')"
    using add_in_place [OF N1 _ _ gq b1] core_ordered [OF A(1)] core_good [OF A(1)] core_balanced [OF A(1)]
    unfolding zp'_def N1 by auto
  have Q: "(Q(q \<mapsto> new_proxy off len 1)) q = Some (new_proxy off len 1)" by simp
  have "core (H(q := None)) (Q(q \<mapsto> new_proxy off len 1, q := None)) W
      (\<lambda>b. c b + ind (lo (new_proxy off len 1)) (hi (new_proxy off len 1)) b) zp'"
  proof (rule core_enter [OF A(1) N1 Q _ _ _ _ n'])
    show "node_ok None (new_proxy off len 1)" using gq by (simp add: A(6) node_ok_None)
    show "holders (H(q := None)) b \<le> c b + ind (lo (new_proxy off len 1)) (hi (new_proxy off len 1)) b" for b
      using core_holders [OF C, of b] q(3) by (simp add: fun_upd_idem)
  qed (use b1 in \<open>auto simp: A(6) zp'_def\<close>)
  then have "core H Q W (\<lambda>b. c b + ind (unat off) (unat off + unat len) b) zp'"
    using q(3,4) by (simp add: fun_upd_idem)
  then show thesis
    using that [of zp' q] n'(1) a q(3) side A(4,6) core_waits [OF C, of q] q(5)
    by (auto simp: zfs_range_new_proxy_def zp'_def)
qed

lemma core_split:
  assumes C: "core H Q W c zp" and N: "rl_nodes zp = as @ p # bs" and reader: "r_type (rl_at zp p) = RL_READER"
    and free: "\<And>w. (p, w) \<notin> W" and off: "lo (rl_at zp p) < unat off" "unat off < hi (rl_at zp p)"
  obtains zp' q s where "zfs_range_split p off zp = (zp', q)" "core H Q W c zp'" "rl_nodes zp' = as @ q # s # bs"
    "env zp' = env zp" "H q = None" "H s = None" "\<And>w. (q, w) \<notin> W" "\<And>w. (s, w) \<notin> W"
    "lo (rl_at zp' q) = lo (rl_at zp p)" "hi (rl_at zp' q) = unat off" "lo (rl_at zp' s) = unat off"
    "hi (rl_at zp' s) = hi (rl_at zp p)" "r_cnt (rl_at zp' q) = r_cnt (rl_at zp p)" "r_cnt (rl_at zp' s) = r_cnt (rl_at zp p)"
    "\<And>x. x \<in> set as \<union> set bs \<Longrightarrow> rl_at zp' x = rl_at zp x" "\<not> r_write_wanted (rl_at zp' s)"
proof -
  define r where "r = rl_at zp p"
  define rear where "rear = new_proxy off (rl_end r - off) (r_cnt r)"
  obtain zp1 s where a: "rl_alloc rear zp = (zp1, s)" by fastforce
  note A = core_alloc [OF C a]
  have s: "s \<notin> set (rl_nodes zp)" "H s = None" "Q s = None" using core_fresh [OF C] A(2) by auto
  then have sp: "s \<noteq> p" "s \<notin> set as" "s \<notin> set bs" using N by auto
  have N1: "rl_nodes zp1 = as @ p # bs" and at1: "rl_at zp1 p = r" using A(3,5) N sp by (simp_all add: r_def)
  obtain zp2 q where P: "zfs_range_proxify p zp1 = (zp2, q)" "core H (Q(s \<mapsto> rear)) W c zp2" "rl_nodes zp2 = as @ q # bs"
    "env zp2 = env zp1" "\<And>w. (q, w) \<notin> W" "H q = None" "r_off (rl_at zp2 p) = r_off r" "r_cnt (rl_at zp2 q) = r_cnt r"
    "r_off (rl_at zp2 q) = r_off r" "r_len (rl_at zp2 q) = r_len r"
    "\<And>x. x \<in> set as \<union> set bs \<Longrightarrow> rl_at zp2 x = rl_at zp1 x"
    using core_proxify [OF A(1) N1 _ free] reader at1 by (metis r_def)
  have gr: "good r" using core_good [OF C, of p] N by (simp add: r_def)
  have off': "lo r < unat off" "unat off < hi r" using off by (simp_all add: r_def)
  define zp3 where "zp3 = rl_upd q (\<lambda>r'. r'\<lparr>r_len := off - r_off (rl_at zp2 p)\<rparr>) zp2"
  define zp' where "zp' = zp3\<lparr>z_range_avl := tree_insert_here s q True (z_range_avl zp3)\<rparr>"
  have at2: "rl_at zp2 s = rear" "rl_mem zp2 s = Some rear" "s \<noteq> q" "s < rl_brk zp2"
    using core_req_at [OF P(2), of s rear] core_req [OF P(2), of s rear] P(3) core_brk [OF P(2), of s] by auto
  have front: "unat (off - r_off r) = unat off - lo r"
    using off'(1) by (simp add: unat_sub word_le_nat_alt lo_def)
  have back_len: "unat (rl_end r - off) = hi r - unat off"
    using off'(2) good_end [OF gr] by (simp add: unat_sub word_le_nat_alt)
  have at': "rl_at zp' q = (rl_at zp2 q)\<lparr>r_len := off - r_off r\<rparr>" "rl_at zp' s = rear"
    "\<And>x. x \<noteq> q \<Longrightarrow> rl_at zp' x = rl_at zp2 x"
    using at2 by (simp_all add: zp'_def zp3_def rl_at_def P(7) [unfolded rl_at_def] rl_upd_def)
  have lq: "lo (rl_at zp' q) = lo r" "hi (rl_at zp' q) = unat off"
    using P(9) front off'(1) by (simp_all add: at' lo_def hi_def)
  have ls: "lo (rl_at zp' s) = unat off" "hi (rl_at zp' s) = hi r"
    using back_len off'(2) by (simp_all add: at' rear_def)
  have l2: "lo (rl_at zp2 q) = lo r" "hi (rl_at zp2 q) = hi r" using P(9,10) by (simp_all add: lo_def hi_def)
  note D = core_distinct [OF P(2)] and bt = core_between [OF P(2,3)]
  have n': "rl_nodes zp' = as @ q # s # bs" "balanced (z_range_avl zp')"
    using tree_insert_here_at [OF D P(3), of s True] core_balanced [OF P(2)] by (simp_all add: zp'_def zp3_def)
  have m': "rl_mem zp' = (rl_mem zp2)(q \<mapsto> rl_at zp' q)" "rl_brk zp' = rl_brk zp2"
    by (simp_all add: zp'_def zp3_def rl_at_def rl_upd_def)
  have nq: "node_ok None (rl_at zp2 q)" using core_node(2) [OF P(2), of q] P(3,6) by simp
  have ok: "node_ok None (rl_at zp' q)" "node_ok None (rl_at zp' s)"
    using nq lq ls off' gr P(8) by (simp_all add: node_ok_None good_def at' rear_def)
  have "core H Q W c zp'"
  proof (rule core_splice [OF P(2), of as "[q]" bs zp' "[q, s]"])
    show "rl_mem zp' x = rl_mem zp2 x \<and> H x = H x \<and> Q x = (Q(s \<mapsto> rear)) x" if "x \<notin> set [q] \<union> set [q, s]" for x
      using that by (simp add: m')
    show "x < rl_brk zp'" if "x \<in> set [q, s]" for x
      using that at2(4) core_brk [OF P(2), of q] core_node(1) [OF P(2), of q] P(3) by (auto simp: m')
    show "Q x = None \<and> rl_mem zp' x = Some (rl_at zp' x) \<and> node_ok (H x) (rl_at zp' x)" if "x \<in> set [q, s]" for x
      using that ok at2(2,3) s(2,3) P(6) core_inside [OF P(2), of q] P(3) by (auto simp: m' at'(2) split: if_splits)
    show "set [q, s] \<inter> (set as \<union> set bs) = {}" using bt sp by simp
    show "c b + cov zp' [q, s] b = c b + cov zp2 [q] b" for b
      using lq ls l2 off' P(8) by (auto simp: at' rear_def)
    show "hi (rl_at zp2 x) \<le> lo (rl_at zp' y)" if "x \<in> set as" "y \<in> set [q, s]" for x y
      using bt(1) [OF that(1)] that(2) lq ls l2 off' by auto
    show "hi (rl_at zp' y) \<le> lo (rl_at zp2 x)" if "x \<in> set bs" "y \<in> set [q, s]" for x y
      using bt(2) [OF that(1)] that(2) lq ls l2 off' by auto
  qed (use n' P(3,5) m'(2) lq ls l2 off' core_holders [OF C] in auto)
  moreover have "zfs_range_split p off zp = (zp', q)"
    unfolding zfs_range_split_def Let_def r_def [symmetric] rear_def [symmetric] a prod.case P(1)
    by (simp add: zp'_def zp3_def)
  moreover have "env zp' = env zp" using P(4) A(4) by (simp add: zp'_def zp3_def env_def rl_upd_def)
  moreover have "(s, w) \<notin> W" for w using core_waits [OF C, of s w] s(1) by blast
  moreover have "rl_at zp' x = rl_at zp x" if "x \<in> set as \<union> set bs" for x
  proof -
    have "x \<noteq> s" "x \<noteq> q" using that bt(3,4) sp by auto
    then show ?thesis using P(11) [OF that] A(5) [of x] at'(3) [of x] by simp
  qed
  ultimately show thesis
    using that n'(1) P(5,6,8) s(2) lq ls by (simp add: at' rear_def r_def)
qed

text \<open>The number of locks on a byte is the count of the node that covers it.\<close>

lemma cov_apart: "(\<And>x. x \<in> set ps \<Longrightarrow> \<not> within b (rl_at zp x)) \<Longrightarrow> cov zp ps b = 0"
  by (induction ps) auto

lemma core_count:
  assumes C: "core H Q W c zp" and p: "p \<in> set (rl_nodes zp)" "within b (rl_at zp p)"
  shows "c b = unat (r_cnt (rl_at zp p))"
proof -
  obtain as bs where N: "rl_nodes zp = as @ p # bs" using p(1) by (meson split_list)
  note bt = core_between [OF C N]
  have "cov zp as b = 0" "cov zp bs b = 0" using bt p(2) by (fastforce intro!: cov_apart)+
  then show ?thesis using core_cov [OF C, of b] p(2) unfolding N by simp
qed

lemma core_covered:
  assumes C: "core H Q W c zp" and "c b \<noteq> 0"
  obtains p where "p \<in> set (rl_nodes zp)" "within b (rl_at zp p)"
  using cov_apart [of "rl_nodes zp" zp b] core_cov [OF C, of b] assms(2) by auto

subsection \<open>Unlocking\<close>

lemma core_drop:
  assumes C: "core H Q W c zp" and N: "rl_nodes zp = as @ p # bs" and r: "r = rl_at zp p" "r_cnt r = 1"
    and z: "rl_nodes zp' = as @ bs" "balanced (z_range_avl zp')" "rl_mem zp' = (rl_mem zp)(p := None)" "rl_brk zp' = rl_brk zp"
    and H: "\<And>b. holders (H(p := None)) b \<le> c b - ind (lo r) (hi r) b"
  shows "core (H(p := None)) Q {(x, w) \<in> W. x \<noteq> p} (\<lambda>b. c b - ind (lo r) (hi r) b) zp'"
proof (rule core_splice [OF C, of as "[p]" bs zp' "[]"])
  have one: "c b = 1" if "within b r" for b
    using core_count [OF C, of p b] that r N by simp
  show "c b + cov zp' [] b = c b - ind (lo r) (hi r) b + cov zp [p] b" for b
    using one [of b] r by (auto simp: ind_def)
  show "(\<exists>y\<in>set []. lo (rl_at zp' y) = lo (rl_at zp x)) \<and> (\<exists>y\<in>set []. hi (rl_at zp' y) = hi (rl_at zp x))
      \<or> (\<forall>b. within b (rl_at zp x) \<longrightarrow> c b - ind (lo r) (hi r) b = 0)" if "x \<in> set [p]" for x
    using one that r by (auto simp: ind_def)
qed (use N z H core_inside [OF C, of p] in auto)

lemma core_dec:
  assumes C: "core H Q W c zp" and N: "rl_nodes zp = as @ p # bs" and p: "H p = None" "r_cnt (rl_at zp p) \<noteq> 1"
    and H: "\<And>b. holders H b \<le> c b - ind (lo (rl_at zp p)) (hi (rl_at zp p)) b"
  shows "core H Q W (\<lambda>b. c b - ind (lo (rl_at zp p)) (hi (rl_at zp p)) b) (rl_upd p (\<lambda>r. r\<lparr>r_cnt := r_cnt r - 1\<rparr>) zp)"
proof (rule core_node_upd [OF C N refl])
  have ok: "node_ok None (rl_at zp p)" using core_node(2) [OF C, of p] N p(1) by simp
  then have "r_cnt (rl_at zp p) \<noteq> 0" by (simp add: node_ok_None)
  then have n: "unat (r_cnt (rl_at zp p) - 1) = unat (r_cnt (rl_at zp p)) - 1" "0 < unat (r_cnt (rl_at zp p))"
    by (simp_all add: unat_gt_0 unat_minus_one)
  moreover have "r_cnt (rl_at zp p) - 1 \<noteq> 0" using p(2) by simp
  ultimately show "node_ok (H p) (rl_at zp p\<lparr>r_cnt := r_cnt (rl_at zp p) - 1\<rparr>)" using ok p(1) by (simp add: node_ok_None)
  show "c b - ind (lo (rl_at zp p)) (hi (rl_at zp p)) b =
      (if within b (rl_at zp p) then c b + unat (r_cnt (rl_at zp p\<lparr>r_cnt := r_cnt (rl_at zp p) - 1\<rparr>)) - unat (r_cnt (rl_at zp p)) else c b)" for b
    using n by (auto simp: ind_def)
  show "wanted w (rl_at zp p\<lparr>r_cnt := r_cnt (rl_at zp p) - 1\<rparr>)" if "(p, w) \<in> W" for w
    using core_waits [OF C that] by simp
qed (use H in simp_all)

end
