(* ===== verification/Rlock_Ops.thy ===== *)
theory Rlock_Ops
  imports Rlock_Steps
begin

text \<open>
  The routines of \<^verbatim>\<open>zfswrap/zfs_rlock.c\<close> keep the invariant: each returns, and changes the number of
  locks on every byte as it should.
\<close>

lemma core_cong: "core H Q W c zp \<Longrightarrow> (\<And>b. c' b = c b) \<Longrightarrow> core H Q W c' zp"
  by (metis ext)

lemma core_fewer_waits: "core H Q W c zp \<Longrightarrow> W' \<subseteq> W \<Longrightarrow> core H Q W' c zp"
  unfolding core_def by blast

lemma ind_join: "a \<le> m \<Longrightarrow> m \<le> e \<Longrightarrow> ind a m b + ind m e b = ind a e b"
  by (auto simp: ind_def)

lemma ind_self [simp]: "ind a a b = 0"
  by (simp add: ind_def)

lemma unat_gap: "x \<le> y \<Longrightarrow> unat (y - x :: u64) = unat y - unat x"
  by (simp add: unat_sub)

definition clear :: "znode \<Rightarrow> rl_ptr \<Rightarrow> bool" where
  "clear zp p \<longleftrightarrow> r_type (rl_at zp p) = RL_READER \<and> \<not> r_write_wanted (rl_at zp p)"

lemma clear_free: "core H Q W c zp \<Longrightarrow> clear zp p \<Longrightarrow> (p, w) \<notin> W"
  using core_waits [of H Q W c zp p w] by (auto simp: clear_def wanted_def split: if_splits)

lemma core_next:
  assumes "core H Q W c zp" "rl_nodes zp = as @ p # bs"
  shows "tree_next p (z_range_avl zp) = first_of bs"
  by (rule avl.walk_next [OF core_distinct [OF assms(1)] assms(2)])

subsection \<open>Adding a reader\<close>

text \<open>The range behind the last overlap, or before the next one.\<close>

lemma core_fill:
  assumes C: "core H Q W c zp" and N: "rl_nodes zp = (as0 @ [p]) @ ns" and r: "r = rl_at zp p"
    and E: "hi r < unat e" "\<And>x. x \<in> set ns \<Longrightarrow> unat e \<le> lo (rl_at zp x)"
  obtains zp' q where "zfs_range_new_proxy (rl_end r) (e - rl_end r) zp = zp'"
    "core H Q W (\<lambda>b. c b + ind (hi r) (unat e) b) zp'" "rl_nodes zp' = (as0 @ [p]) @ q # ns" "env zp' = env zp"
    "hi (rl_at zp' q) = unat e" "\<And>x. x \<in> set (as0 @ [p]) \<union> set ns \<Longrightarrow> rl_at zp' x = rl_at zp x"
proof -
  have N': "rl_nodes zp = as0 @ p # ns" using N by simp
  have g: "unat (rl_end r) = hi r" using core_good [OF C, of p] N r by (intro good_end) simp
  have len: "unat (e - rl_end r) = unat e - hi r" using E(1) g by (simp add: unat_gap word_le_nat_alt)
  then have pos: "e - rl_end r \<noteq> 0" using E(1) by (metis unat_0 zero_less_diff less_irrefl)
  have sum: "unat (rl_end r) + unat (e - rl_end r) = unat e" using g len E(1) by simp
  have bound: "unat (rl_end r) + unat (e - rl_end r) < 2 ^ 64" unfolding sum using unsigned_less [of e, where ?'a = nat] by simp
  have lower: "hi (rl_at zp x) \<le> unat (rl_end r)" if "x \<in> set (as0 @ [p])" for x
    using that core_between(1) [OF C N', of x] core_good [OF C, of p] N g r by (fastforce simp: good_def)
  have upper: "unat (rl_end r) + unat (e - rl_end r) \<le> lo (rl_at zp x)" if "x \<in> set ns" for x
    using E(2) [OF that] by (simp add: sum)
  show thesis
  proof (rule core_new_proxy [OF C N pos bound lower upper])
    fix zp' q
    assume "zfs_range_new_proxy (rl_end r) (e - rl_end r) zp = zp'" "rl_nodes zp' = (as0 @ [p]) @ q # ns" "env zp' = env zp"
      and "core H Q W (\<lambda>b. c b + ind (unat (rl_end r)) (unat (rl_end r) + unat (e - rl_end r)) b) zp'"
      and "hi (rl_at zp' q) = unat (rl_end r) + unat (e - rl_end r)"
      and "\<And>x. x \<in> set (as0 @ [p]) \<union> set ns \<Longrightarrow> rl_at zp' x = rl_at zp x"
    then show thesis using that [of zp' q] unfolding sum unfolding g by blast
  qed
qed

lemma core_fill_gap:
  assumes C: "core H Q W c zp" and N: "rl_nodes zp = as @ n # bs"
    and prev: "case prev of None \<Rightarrow> fr = lo (rl_at zp n) | Some p \<Rightarrow> (\<exists>as0. as = as0 @ [p]) \<and> fr = hi (rl_at zp p)"
  obtains as1 zp1 where "fill_gap prev n zp = zp1" "core H Q W (\<lambda>b. c b + ind fr (lo (rl_at zp n)) b) zp1"
      "rl_nodes zp1 = (as @ as1) @ n # bs" "env zp1 = env zp" "\<And>x. x \<in> set as \<union> set (n # bs) \<Longrightarrow> rl_at zp1 x = rl_at zp x"
proof -
  have fl: "fr \<le> lo (rl_at zp n)"
    using prev core_between(1) [OF C N] by (auto split: option.splits)
  show thesis
  proof (cases "fr = lo (rl_at zp n)")
    case True
    have "fill_gap prev n zp = zp"
    proof (cases prev)
      case (Some p)
      then have "unat (rl_end (rl_at zp p)) = unat (r_off (rl_at zp n))"
        using prev True good_end [OF core_good [OF C, of p]] N by (auto simp: lo_def)
      then show ?thesis using Some by (simp add: fill_gap_def Let_def word_less_nat_alt)
    qed (simp add: fill_gap_def)
    then show thesis using that [of zp "[]"] C N True by simp
  next
    case False
    then obtain p as0 where p: "prev = Some p" "as = as0 @ [p]" "fr = hi (rl_at zp p)"
      using prev by (auto split: option.splits)
    have N': "rl_nodes zp = (as0 @ [p]) @ n # bs" using N p(2) by simp
    have g: "unat (rl_end (rl_at zp p)) = fr" using good_end [OF core_good [OF C, of p]] N' p(3) by simp
    have lt: "hi (rl_at zp p) < unat (r_off (rl_at zp n))" using fl False p(3) by (simp add: lo_def)
    then have gap: "fill_gap prev n zp = zfs_range_new_proxy (rl_end (rl_at zp p)) (r_off (rl_at zp n) - rl_end (rl_at zp p)) zp"
      using g p(1,3) by (simp add: fill_gap_def Let_def word_less_nat_alt)
    have le: "unat (r_off (rl_at zp n)) \<le> lo (rl_at zp x)" if "x \<in> set (n # bs)" for x
      using core_between(2) [OF C N, of x] core_good [OF C, of n] N that by (auto simp: lo_def good_def)
    obtain zp' q where "zfs_range_new_proxy (rl_end (rl_at zp p)) (r_off (rl_at zp n) - rl_end (rl_at zp p)) zp = zp'"
      "core H Q W (\<lambda>b. c b + ind (hi (rl_at zp p)) (unat (r_off (rl_at zp n))) b) zp'" "rl_nodes zp' = (as0 @ [p]) @ q # n # bs" "env zp' = env zp"
      "hi (rl_at zp' q) = unat (r_off (rl_at zp n))" "\<And>x. x \<in> set (as0 @ [p]) \<union> set (n # bs) \<Longrightarrow> rl_at zp' x = rl_at zp x"
      by (rule core_fill [OF C N' refl lt le]) (assumption | rule that)+
    then show thesis
      using that [of zp' "[q]"] gap p by (simp add: lo_def)
  qed
qed

text \<open>A whole range on which the new reader counts.\<close>

lemma core_proxify_bump:
  assumes C: "core H Q W c zp" and N: "rl_nodes zp = as @ n # bs" and n: "clear zp n" "unat (r_cnt (rl_at zp n)) < 2 ^ 32 - 1"
  obtains zp2 zp' q where "zfs_range_proxify n zp = (zp2, q)" "rl_bump q zp2 = zp'"
    "core H Q W (\<lambda>b. c b + ind (lo (rl_at zp n)) (hi (rl_at zp n)) b) zp'" "rl_nodes zp' = as @ q # bs" "env zp' = env zp"
    "lo (rl_at zp' q) = lo (rl_at zp n)" "hi (rl_at zp' q) = hi (rl_at zp n)"
    "\<And>x. x \<in> set as \<union> set bs \<Longrightarrow> rl_at zp' x = rl_at zp x"
proof -
  have "r_type (rl_at zp n) = RL_READER" using n(1) by (simp add: clear_def)
  then obtain zp2 q where P: "zfs_range_proxify n zp = (zp2, q)" "core H Q W c zp2" "rl_nodes zp2 = as @ q # bs" "env zp2 = env zp"
    "\<And>w. (q, w) \<notin> W" "H q = None" "r_off (rl_at zp2 n) = r_off (rl_at zp n)" "r_cnt (rl_at zp2 q) = r_cnt (rl_at zp n)"
    "r_off (rl_at zp2 q) = r_off (rl_at zp n)" "r_len (rl_at zp2 q) = r_len (rl_at zp n)"
    "\<And>x. x \<in> set as \<union> set bs \<Longrightarrow> rl_at zp2 x = rl_at zp x"
    by (rule core_proxify [OF C N _ clear_free [OF C n(1)]]) (assumption | rule that)+
  have lh: "lo (rl_at zp2 q) = lo (rl_at zp n)" "hi (rl_at zp2 q) = hi (rl_at zp n)" using P(9,10) by (simp_all add: lo_def hi_def)
  have "core H Q W (\<lambda>b. c b + ind (lo (rl_at zp2 q)) (hi (rl_at zp2 q)) b) (rl_bump q zp2)"
    using core_bump [OF P(2,3,6)] P(8) n(2) by simp
  moreover have "q \<notin> set as" "q \<notin> set bs" using core_between(3,4) [OF P(2,3)] by auto
  moreover have "rl_at (rl_bump q zp2) x = rl_at zp x" if "x \<in> set as \<union> set bs" for x
    using P(11) [OF that] that calculation(2,3) by (auto simp: rl_bump_def)
  ultimately show thesis
    using that [OF P(1) refl] P(3,4) lh by (auto simp: rl_bump_def)
qed

lemma add_reader_loop_core:
  assumes "core H Q W c zp" "rl_nodes zp = as @ ns"
    and "(case prev of None \<Rightarrow> ns \<noteq> [] \<and> lo (rl_at zp (hd ns)) < unat e \<and> fr = lo (rl_at zp (hd ns))
          | Some p \<Rightarrow> (\<exists>as0. as = as0 @ [p]) \<and> fr = hi (rl_at zp p) \<and> fr < unat e)"
    and "\<And>x. x \<in> set ns \<Longrightarrow> lo (rl_at zp x) < unat e \<Longrightarrow> clear zp x"
    and "\<And>x. x \<in> set ns \<Longrightarrow> unat (r_cnt (rl_at zp x)) < 2 ^ 32 - 1" and "e = off + len"
  shows "\<exists>zp' ys. add_reader_loop off len prev (first_of ns) zp = Some zp'
    \<and> core H Q W (\<lambda>b. c b + ind fr (unat e) b) zp' \<and> rl_nodes zp' = as @ ys \<and> env zp' = env zp
    \<and> (\<forall>x\<in>set as. rl_at zp' x = rl_at zp x) \<and> (prev = None \<longrightarrow> (\<exists>y\<in>set ys. lo (rl_at zp' y) = fr))
    \<and> (\<exists>y\<in>set ys. hi (rl_at zp' y) = unat e)"
  using assms(1-5)
proof (induction ns arbitrary: as zp c prev fr)
  case Nil
  then obtain p as0 where p: "prev = Some p" "as = as0 @ [p]" "fr = hi (rl_at zp p)" "fr < unat e"
    by (auto split: option.splits)
  have N: "rl_nodes zp = (as0 @ [p]) @ []" using Nil.prems(2) p(2) by simp
  obtain zp' q where "zfs_range_new_proxy (rl_end (rl_at zp p)) (e - rl_end (rl_at zp p)) zp = zp'"
    "core H Q W (\<lambda>b. c b + ind (hi (rl_at zp p)) (unat e) b) zp'" "rl_nodes zp' = (as0 @ [p]) @ q # []" "env zp' = env zp"
    "hi (rl_at zp' q) = unat e" "\<And>x. x \<in> set (as0 @ [p]) \<union> set [] \<Longrightarrow> rl_at zp' x = rl_at zp x"
    by (rule core_fill [OF Nil.prems(1) N refl]) (use p in auto)
  then show ?case
    using p assms(6) by (subst add_reader_loop.simps) (auto simp: add_reader_end_def)
next
  case (Cons n bs)
  note C = Cons.prems(1) and N = Cons.prems(2)
  show ?case
  proof (cases "unat e \<le> lo (rl_at zp n)")
    case True
    then obtain p as0 where p: "prev = Some p" "as = as0 @ [p]" "fr = hi (rl_at zp p)" "fr < unat e"
      using Cons.prems(3) by (auto split: option.splits)
    have N': "rl_nodes zp = (as0 @ [p]) @ n # bs" using N p(2) by simp
    have le: "unat e \<le> lo (rl_at zp x)" if "x \<in> set (n # bs)" for x
    proof (cases "x = n")
      case False
      then have "hi (rl_at zp n) \<le> lo (rl_at zp x)" using core_between(2) [OF C N, of x] that by simp
      then show ?thesis using True core_good [OF C, of n] N by (simp add: good_def)
    qed (use True in simp)
    obtain zp' q where "zfs_range_new_proxy (rl_end (rl_at zp p)) (e - rl_end (rl_at zp p)) zp = zp'"
      "core H Q W (\<lambda>b. c b + ind (hi (rl_at zp p)) (unat e) b) zp'" "rl_nodes zp' = (as0 @ [p]) @ q # n # bs" "env zp' = env zp"
      "hi (rl_at zp' q) = unat e" "\<And>x. x \<in> set (as0 @ [p]) \<union> set (n # bs) \<Longrightarrow> rl_at zp' x = rl_at zp x"
      by (rule core_fill [OF C N' refl]) (use p le in auto)
    moreover have "off + len \<le> r_off (rl_at zp n)" using True assms(6) by (simp add: lo_def word_le_nat_alt)
    ultimately show ?thesis
      using p assms(6) by (subst add_reader_loop.simps) (auto simp: add_reader_end_def)
  next
    case False
    then have ne: "\<not> off + len \<le> r_off (rl_at zp n)" using assms(6) by (simp add: lo_def word_le_nat_alt)
    have prev: "case prev of None \<Rightarrow> fr = lo (rl_at zp n) | Some p \<Rightarrow> (\<exists>as0. as = as0 @ [p]) \<and> fr = hi (rl_at zp p)"
      using Cons.prems(3) by (auto split: option.splits)
    have fl: "fr \<le> lo (rl_at zp n)"
      using prev core_between(1) [OF C N] by (auto split: option.splits)
    obtain as1 zp1 where G: "fill_gap prev n zp = zp1" "core H Q W (\<lambda>b. c b + ind fr (lo (rl_at zp n)) b) zp1"
      "rl_nodes zp1 = (as @ as1) @ n # bs" "env zp1 = env zp" "\<And>x. x \<in> set as \<union> set (n # bs) \<Longrightarrow> rl_at zp1 x = rl_at zp x"
      by (rule core_fill_gap [OF C N prev]) (assumption | rule that)+
    have n1: "rl_at zp1 n = rl_at zp n" and b1: "\<And>x. x \<in> set bs \<Longrightarrow> rl_at zp1 x = rl_at zp x" using G(5) by auto
    have cl: "clear zp1 n" "unat (r_cnt (rl_at zp1 n)) < 2 ^ 32 - 1"
      using Cons.prems(4,5) [of n] False n1 by (auto simp: clear_def)
    have en: "unat (rl_end (rl_at zp1 n)) = hi (rl_at zp n)" using good_end [OF core_good [OF G(2), of n]] G(3) n1 by simp
    have step: "add_reader_loop off len prev (first_of (n # bs)) zp =
       (if off + len = rl_end (rl_at zp1 n)
        then let (zp, n) = zfs_range_proxify n zp1 in Some (rl_bump n zp)
        else if off + len < rl_end (rl_at zp1 n)
        then let (zp, n) = zfs_range_split n (off + len) zp1 in Some (rl_bump n zp)
        else let (zp, n) = zfs_range_proxify n zp1; zp = rl_bump n zp
             in add_reader_loop off len (Some n) (tree_next n (z_range_avl zp)) zp)"
      using ne by (subst add_reader_loop.simps) (simp add: G(1) Let_def)
    show ?thesis
    proof (cases "hi (rl_at zp n)" "unat e" rule: linorder_cases)
      case equal
      obtain zp2 zp' q where P: "zfs_range_proxify n zp1 = (zp2, q)" "rl_bump q zp2 = zp'"
        "core H Q W (\<lambda>b. c b + ind fr (lo (rl_at zp n)) b + ind (lo (rl_at zp1 n)) (hi (rl_at zp1 n)) b) zp'"
        "rl_nodes zp' = (as @ as1) @ q # bs" "env zp' = env zp1"
        "lo (rl_at zp' q) = lo (rl_at zp1 n)" "hi (rl_at zp' q) = hi (rl_at zp1 n)"
        "\<And>x. x \<in> set (as @ as1) \<union> set bs \<Longrightarrow> rl_at zp' x = rl_at zp1 x"
        by (rule core_proxify_bump [OF G(2,3) cl]) (assumption | rule that)+
      have "core H Q W (\<lambda>b. c b + ind fr (unat e) b) zp'"
        by (rule core_cong [OF P(3)]) (use ind_join [OF fl, of "unat e"] equal False n1 in simp)
      moreover have "off + len = rl_end (rl_at zp1 n)" using equal en assms(6) by (simp add: word_unat_eq_iff)
      moreover have "fr = lo (rl_at zp n)" if "prev = None" using prev that by simp
      ultimately show ?thesis
        using P G(4,5) equal n1 unfolding step by auto
    next
      case greater
      have sp: "lo (rl_at zp1 n) < unat e" "unat e < hi (rl_at zp1 n)" using greater False n1 by auto
      have rd: "r_type (rl_at zp1 n) = RL_READER" using cl(1) by (simp add: clear_def)
      obtain zp2 q s where P: "zfs_range_split n e zp1 = (zp2, q)" "core H Q W (\<lambda>b. c b + ind fr (lo (rl_at zp n)) b) zp2"
        "rl_nodes zp2 = (as @ as1) @ q # s # bs"
        "env zp2 = env zp1" "H q = None" "H s = None" "\<And>w. (q, w) \<notin> W" "\<And>w. (s, w) \<notin> W"
        "lo (rl_at zp2 q) = lo (rl_at zp1 n)" "hi (rl_at zp2 q) = unat e" "lo (rl_at zp2 s) = unat e"
        "hi (rl_at zp2 s) = hi (rl_at zp1 n)" "r_cnt (rl_at zp2 q) = r_cnt (rl_at zp1 n)" "r_cnt (rl_at zp2 s) = r_cnt (rl_at zp1 n)"
        "\<And>x. x \<in> set (as @ as1) \<union> set bs \<Longrightarrow> rl_at zp2 x = rl_at zp1 x"
        by (rule core_split [OF G(2,3) rd clear_free [OF G(2) cl(1)] sp]) (assumption | rule that)+
      have "core H Q W (\<lambda>b. c b + ind fr (lo (rl_at zp n)) b + ind (lo (rl_at zp2 q)) (hi (rl_at zp2 q)) b) (rl_bump q zp2)"
        using core_bump [OF P(2,3,5)] P(13) cl(2) by simp
      then have "core H Q W (\<lambda>b. c b + ind fr (unat e) b) (rl_bump q zp2)"
        by (rule core_cong) (use ind_join [OF fl, of "unat e"] False n1 P(9,10) in simp)
      moreover have "off + len \<noteq> rl_end (rl_at zp1 n)" "off + len < rl_end (rl_at zp1 n)"
        using greater en assms(6) by (auto simp: word_less_nat_alt)
      moreover have "fr = lo (rl_at zp n)" if "prev = None" using prev that by simp
      moreover have "q \<notin> set as" using core_between(3) [OF P(2,3)] by simp
      ultimately show ?thesis
        using P(1,3,4,9,10,15) G(4,5) n1 assms(6) unfolding step by (auto simp: rl_bump_def)
    next
      case less
      obtain zp2 zp' q where P: "zfs_range_proxify n zp1 = (zp2, q)" "rl_bump q zp2 = zp'"
        "core H Q W (\<lambda>b. c b + ind fr (lo (rl_at zp n)) b + ind (lo (rl_at zp1 n)) (hi (rl_at zp1 n)) b) zp'"
        "rl_nodes zp' = (as @ as1) @ q # bs" "env zp' = env zp1"
        "lo (rl_at zp' q) = lo (rl_at zp1 n)" "hi (rl_at zp' q) = hi (rl_at zp1 n)"
        "\<And>x. x \<in> set (as @ as1) \<union> set bs \<Longrightarrow> rl_at zp' x = rl_at zp1 x"
        by (rule core_proxify_bump [OF G(2,3) cl]) (assumption | rule that)+
      have N': "rl_nodes zp' = (as @ as1 @ [q]) @ bs" using P(4) by simp
      have same: "rl_at zp' x = rl_at zp x" if "x \<in> set as \<union> set bs" for x using that P(8) G(5) by auto
      have lh: "lo (rl_at zp n) < hi (rl_at zp n)" using core_good [OF C, of n] N by (simp add: good_def)
      obtain zp3 ys where R: "add_reader_loop off len (Some q) (first_of bs) zp' = Some zp3"
        "core H Q W (\<lambda>b. c b + ind fr (lo (rl_at zp n)) b + ind (lo (rl_at zp1 n)) (hi (rl_at zp1 n)) b + ind (hi (rl_at zp' q)) (unat e) b) zp3"
        "rl_nodes zp3 = (as @ as1 @ [q]) @ ys" "env zp3 = env zp'" "\<forall>x\<in>set (as @ as1 @ [q]). rl_at zp3 x = rl_at zp' x"
        "\<exists>y\<in>set ys. hi (rl_at zp3 y) = unat e"
        using Cons.IH [OF P(3) N', where prev = "Some q" and fr = "hi (rl_at zp' q)"] less P(7) n1 same Cons.prems(4,5) by (fastforce simp: clear_def)
      have three: "ind fr (unat e) b = ind fr (lo (rl_at zp n)) b + ind (lo (rl_at zp n)) (hi (rl_at zp n)) b + ind (hi (rl_at zp n)) (unat e) b" for b
        using fl lh less by (auto simp: ind_def)
      have "core H Q W (\<lambda>b. c b + ind fr (unat e) b) zp3"
        by (rule core_cong [OF R(2)]) (simp add: three n1 P(7))
      moreover have "off + len \<noteq> rl_end (rl_at zp1 n)" "\<not> off + len < rl_end (rl_at zp1 n)"
        using less en assms(6) by (auto simp: word_less_nat_alt)
      moreover have "fr = lo (rl_at zp n)" if "prev = None" using prev that by simp
      moreover have "tree_next q (z_range_avl zp') = first_of bs" by (rule core_next [OF P(3,4)])
      ultimately show ?thesis
        using P(1,2,5,6,8) R G(4,5) n1 unfolding step by (intro exI [of _ zp3] exI [of _ "as1 @ [q] @ ys"]) (auto simp: Let_def)
    qed
  qed
qed

lemma ordered_divide:
  "ordered zp ps \<Longrightarrow> (\<And>x. x \<in> set ps \<Longrightarrow> good (rl_at zp x)) \<Longrightarrow>
    \<exists>as ms. ps = as @ ms \<and> (\<forall>x\<in>set as. lo (rl_at zp x) < a) \<and> (\<forall>x\<in>set ms. a \<le> lo (rl_at zp x))"
proof (induction ps)
  case (Cons p ps)
  show ?case
  proof (cases "lo (rl_at zp p) < a")
    case True
    obtain as ms where "ps = as @ ms" "\<forall>x\<in>set as. lo (rl_at zp x) < a" "\<forall>x\<in>set ms. a \<le> lo (rl_at zp x)"
      using Cons by auto
    then show ?thesis using True by (intro exI [of _ "p # as"] exI [of _ ms]) auto
  next
    case False
    have "a \<le> lo (rl_at zp x)" if "x \<in> set (p # ps)" for x
      using that Cons.prems False by (fastforce simp: good_def)
    then show ?thesis by (intro exI [of _ "[]"] exI [of _ "p # ps"]) auto
  qed
qed simp

lemma core_divide:
  assumes "core H Q W c zp"
  obtains as ms where "rl_nodes zp = as @ ms" "\<And>x. x \<in> set as \<Longrightarrow> lo (rl_at zp x) < a" "\<And>x. x \<in> set ms \<Longrightarrow> a \<le> lo (rl_at zp x)"
  using ordered_divide [OF core_ordered [OF assms] core_good [OF assms], of a] by blast

text \<open>
  Where a new reader begins: behind it the ranges \<open>ns\<close> in the order of the loop; if there is no overlap, the
  place is the one found by the search.
\<close>

lemma core_reader_start:
  assumes C: "core H Q W c zp" and new: "r_off (rl_at zp new) = off"
    and clear: "\<And>x. x \<in> set (rl_nodes zp) \<Longrightarrow> within (unat off) (rl_at zp x) \<Longrightarrow> clear zp x"
    and find: "rl_avl_find zp new = (found, w)"
      "prev = (case found of Some p \<Rightarrow> Some p | None \<Rightarrow> tree_nearest w False (z_range_avl zp))"
  obtains zp1 prev1 as ns where "reader_start prev off zp = (zp1, prev1)" "core H Q W c zp1" "env zp1 = env zp" "rl_nodes zp1 = as @ ns"
    "(case prev1 of Some p \<Rightarrow> Some p | None \<Rightarrow> tree_nearest w True (z_range_avl zp1)) = first_of ns"
    "\<And>x. x \<in> set as \<Longrightarrow> hi (rl_at zp1 x) \<le> unat off" "\<And>x. x \<in> set ns \<Longrightarrow> unat off \<le> lo (rl_at zp1 x)"
    "\<And>x. x \<in> set ns \<Longrightarrow> x \<in> set (rl_nodes zp) \<and> rl_at zp1 x = rl_at zp x
       \<or> clear zp1 x \<and> (\<exists>p\<in>set (rl_nodes zp). r_cnt (rl_at zp1 x) = r_cnt (rl_at zp p))"
    "ns = [] \<or> unat off < lo (rl_at zp1 (hd ns)) \<Longrightarrow> zp1 = zp \<and> is_slot w (z_range_avl zp)
       \<and> before w (z_range_avl zp) = as \<and> after w (z_range_avl zp) = ns"
proof -
  obtain as ms where D: "rl_nodes zp = as @ ms" "\<And>x. x \<in> set as \<Longrightarrow> lo (rl_at zp x) < unat off"
    "\<And>x. x \<in> set ms \<Longrightarrow> unat off \<le> lo (rl_at zp x)"
    by (rule core_divide [OF C, of "unat off"]) (assumption | rule that)+
  have lnew: "lo (rl_at zp new) = unat off" using new by (simp add: lo_def)
  note ord = core_ordered [OF C] and good = core_good [OF C]
  show thesis
  proof (cases "\<exists>n bs. ms = n # bs \<and> lo (rl_at zp n) = unat off")
    case True
    then obtain n bs where n: "ms = n # bs" "lo (rl_at zp n) = unat off" by blast
    have N: "rl_nodes zp = as @ n # bs" using D(1) n by simp
    have "found = Some n" using rl_avl_find_hit [OF ord good, of n new] N n(2) lnew find(1) by simp
    then have prev: "prev = Some n" using find(2) by simp
    have gn: "good (rl_at zp n)" using good [of n] N by simp
    then have e: "\<not> rl_end (rl_at zp n) \<le> off" "r_off (rl_at zp n) = off"
      using good_end [OF gn] n(2) by (auto simp: word_le_nat_alt good_def lo_def word_unat_eq_iff)
    have "hi (rl_at zp x) \<le> unat off" if "x \<in> set as" for x using core_between(1) [OF C N that] n(2) by simp
    moreover have "reader_start prev off zp = (zp, Some n)" using prev e by (simp add: reader_start_def)
    ultimately show thesis using that [of zp "Some n" as ms] C D n N by auto
  next
    case False
    have gt: "unat off < lo (rl_at zp x)" if "x \<in> set ms" for x
    proof (cases ms)
      case (Cons n bs)
      have N: "rl_nodes zp = as @ n # bs" using D(1) Cons by simp
      have "unat off < lo (rl_at zp n)" using False D(3) [of n] Cons by fastforce
      moreover have "lo (rl_at zp n) < hi (rl_at zp n)" using good [of n] N by (simp add: good_def)
      ultimately show ?thesis using core_between(2) [OF C N, of x] that Cons by fastforce
    qed (use that in simp)
    obtain w' where w': "rl_avl_find zp new = (None, w')" "is_slot w' (z_range_avl zp)"
      "before w' (z_range_avl zp) = as" "after w' (z_range_avl zp) = ms"
      using rl_avl_find_slot [OF D(1) ord good, of new] D(2) gt lnew by auto
    have w: "found = None" "is_slot w (z_range_avl zp)" "before w (z_range_avl zp) = as" "after w (z_range_avl zp) = ms"
      using w' find(1) by auto
    have prev: "prev = last_of as" using find(2) w by (simp add: tree_nearest_ends)
    have next': "tree_nearest w True (z_range_avl zp) = first_of ms" using w by (simp add: tree_nearest_ends)
    show thesis
    proof (cases "\<exists>as0 p. as = as0 @ [p] \<and> unat off < hi (rl_at zp p)")
      case True
      then obtain as0 p where p: "as = as0 @ [p]" "unat off < hi (rl_at zp p)" by blast
      have N: "rl_nodes zp = as0 @ p # ms" using D(1) p(1) by simp
      have lp: "lo (rl_at zp p) < unat off" using D(2) [of p] p(1) by simp
      then have cl: "clear zp p" using clear [of p] N p(2) by simp
      then have rd: "r_type (rl_at zp p) = RL_READER" by (simp add: clear_def)
      obtain zp1 q s where P: "zfs_range_split p off zp = (zp1, q)" "core H Q W c zp1" "rl_nodes zp1 = as0 @ q # s # ms"
        "env zp1 = env zp" "H q = None" "H s = None" "\<And>w. (q, w) \<notin> W" "\<And>w. (s, w) \<notin> W"
        "lo (rl_at zp1 q) = lo (rl_at zp p)" "hi (rl_at zp1 q) = unat off" "lo (rl_at zp1 s) = unat off"
        "hi (rl_at zp1 s) = hi (rl_at zp p)" "r_cnt (rl_at zp1 q) = r_cnt (rl_at zp p)" "r_cnt (rl_at zp1 s) = r_cnt (rl_at zp p)"
        "\<And>x. x \<in> set as0 \<union> set ms \<Longrightarrow> rl_at zp1 x = rl_at zp x" "\<not> r_write_wanted (rl_at zp1 s)"
        by (rule core_split [OF C N rd clear_free [OF C cl] lp p(2)]) (assumption | rule that)+
      have gp: "good (rl_at zp p)" using good [of p] N by simp
      have e: "\<not> rl_end (rl_at zp p) \<le> off" "r_off (rl_at zp p) \<noteq> off"
        using good_end [OF gp] p(2) lp by (auto simp: word_le_nat_alt lo_def)
      have "tree_next q (z_range_avl zp1) = Some s" using core_next [OF P(2,3)] by simp
      then have "reader_start prev off zp = (zp1, Some s)" using prev p(1) e P(1) by (simp add: reader_start_def)
      then show thesis
      proof (rule that)
        show "core H Q W c zp1" "env zp1 = env zp" "rl_nodes zp1 = (as0 @ [q]) @ s # ms" using P(2-4) by simp_all
        show "hi (rl_at zp1 x) \<le> unat off" if "x \<in> set (as0 @ [q])" for x
          using that core_between(1) [OF P(2,3), of x] lp P(9,10) by auto
        have "clear zp1 s" using core_node(2) [OF P(2), of s] P(3,6,16) by (simp add: clear_def node_ok_None)
        then show "x \<in> set (rl_nodes zp) \<and> rl_at zp1 x = rl_at zp x
            \<or> clear zp1 x \<and> (\<exists>p\<in>set (rl_nodes zp). r_cnt (rl_at zp1 x) = r_cnt (rl_at zp p))" if "x \<in> set (s # ms)" for x
          using that P(14) P(15) [of x] N by auto
        show "unat off \<le> lo (rl_at zp1 x)" if "x \<in> set (s # ms)" for x
          using that P(11) P(15) [of x] D(3) [of x] by auto
        show "(case Some s of Some p \<Rightarrow> Some p | None \<Rightarrow> tree_nearest w True (z_range_avl zp1)) = first_of (s # ms)" by simp
        show "zp1 = zp \<and> is_slot w (z_range_avl zp) \<and> before w (z_range_avl zp) = as0 @ [q] \<and> after w (z_range_avl zp) = s # ms"
          if "s # ms = [] \<or> unat off < lo (rl_at zp1 (hd (s # ms)))" using that P(11) by simp
      qed
    next
      case False
      have "hi (rl_at zp x) \<le> unat off" if x: "x \<in> set as" for x
      proof -
        obtain as0 p where p: "as = as0 @ [p]" using x by (cases as rule: rev_cases) auto
        then have N: "rl_nodes zp = as0 @ p # ms" using D(1) by simp
        have "hi (rl_at zp p) \<le> unat off" using False p by fastforce
        then show ?thesis using core_between(1) [OF C N, of x] D(2) [of p] x p by fastforce
      qed
      moreover have "reader_start prev off zp = (zp, None)"
      proof (cases prev)
        case (Some p)
        then have "p \<in> set as" using prev by (cases as rule: rev_cases) auto
        then have "rl_end (rl_at zp p) \<le> off" using calculation [of p] good_end [OF good, of p] D(1) by (simp add: word_le_nat_alt)
        then show ?thesis using Some by (simp add: reader_start_def)
      qed (simp add: reader_start_def)
      ultimately show thesis using that [of zp None as ms] C D w next' by auto
    qed
  qed
qed

text \<open>A lock that counts once on each byte of its range may be granted.\<close>

lemma holders_granted:
  assumes "core H Q W c zp" "H p = None"
  shows "holders (H(p \<mapsto> r)) b \<le> c b + ind (lo r) (hi r) b"
  using holders_add [OF holders_finite [OF assms(1)] assms(2), of r b] core_holders [OF assms(1), of b] by simp

lemma add_reader_core:
  assumes C: "core H Q W c zp" and q: "Q new = Some r" and r: "good r" "r_type r = RL_READER" "\<not> r_proxy r" "r_cnt r = 1"
    and clear: "\<And>x. x \<in> set (rl_nodes zp) \<Longrightarrow> lo (rl_at zp x) < hi r \<Longrightarrow> lo r < hi (rl_at zp x) \<Longrightarrow> clear zp x"
    and cnt: "\<And>x. x \<in> set (rl_nodes zp) \<Longrightarrow> unat (r_cnt (rl_at zp x)) < 2 ^ 32 - 1"
    and find: "rl_avl_find zp new = (found, w)"
      "prev = (case found of Some p \<Rightarrow> Some p | None \<Rightarrow> tree_nearest w False (z_range_avl zp))"
  shows "\<exists>zp'. zfs_range_add_reader new prev w zp = Some zp'
    \<and> core (H(new \<mapsto> r)) (Q(new := None)) W (\<lambda>b. c b + ind (lo r) (hi r) b) zp' \<and> env zp' = env zp"
proof -
  define off where "off = r_off r"
  define e where "e = off + r_len r"
  have new: "rl_at zp new = r" using core_req_at [OF C q] .
  have off: "unat off = lo r" and e: "unat e = hi r" "lo r < hi r" "lo r < unat e"
    using good_end [OF r(1)] r(1) by (simp_all add: off_def e_def lo_def good_def)
  have clear0: "clear zp x" if "x \<in> set (rl_nodes zp)" "within (unat off) (rl_at zp x)" for x
    using clear [OF that(1)] that(2) e off by simp
  have "r_off (rl_at zp new) = off" using new by (simp add: off_def)
  from C this clear0 find
  obtain zp1 prev1 as ns where P: "reader_start prev off zp = (zp1, prev1)" "core H Q W c zp1" "env zp1 = env zp" "rl_nodes zp1 = as @ ns"
    "(case prev1 of Some p \<Rightarrow> Some p | None \<Rightarrow> tree_nearest w True (z_range_avl zp1)) = first_of ns"
    "\<And>x. x \<in> set as \<Longrightarrow> hi (rl_at zp1 x) \<le> unat off" "\<And>x. x \<in> set ns \<Longrightarrow> unat off \<le> lo (rl_at zp1 x)"
    "\<And>x. x \<in> set ns \<Longrightarrow> x \<in> set (rl_nodes zp) \<and> rl_at zp1 x = rl_at zp x
       \<or> clear zp1 x \<and> (\<exists>p\<in>set (rl_nodes zp). r_cnt (rl_at zp1 x) = r_cnt (rl_at zp p))"
    "ns = [] \<or> unat off < lo (rl_at zp1 (hd ns)) \<Longrightarrow> zp1 = zp \<and> is_slot w (z_range_avl zp)
       \<and> before w (z_range_avl zp) = as \<and> after w (z_range_avl zp) = ns"
    by (rule core_reader_start) (assumption | rule that)+
  have good1: "good (rl_at zp1 x)" if "x \<in> set ns" for x using core_good [OF P(2), of x] P(4) that by simp
  have clear1: "clear zp1 x" if "x \<in> set ns" "lo (rl_at zp1 x) < unat e" for x
    using P(8) [OF that(1)] clear [of x] that(2) P(7) [OF that(1)] good1 [OF that(1)] e off by (auto simp: clear_def good_def)
  have cnt1: "unat (r_cnt (rl_at zp1 x)) < 2 ^ 32 - 1" if "x \<in> set ns" for x
    using P(8) [OF that] cnt by fastforce
  have unfold: "zfs_range_add_reader new prev w zp =
     (case first_of ns of
        None \<Rightarrow> Some (rl_avl_insert new w zp1)
      | Some n \<Rightarrow>
          if e \<le> r_off (rl_at zp1 n) then Some (rl_avl_insert new w zp1)
          else let zp = (if off < r_off (rl_at zp1 n) then zfs_range_new_proxy off (r_off (rl_at zp1 n) - off) zp1 else zp1);
                   zp = rl_upd new (\<lambda>r. r\<lparr>r_cnt := 0\<rparr>) zp
               in add_reader_loop off (r_len r) None (Some n) zp)"
    by (cases "first_of ns") (simp_all add: zfs_range_add_reader_def new off_def [symmetric] P(1,5) e_def Let_def)
  have Hnew: "H new = None" using core_req [OF C q] by simp
  show ?thesis
  proof (cases "ns = [] \<or> unat e \<le> lo (rl_at zp1 (hd ns))")
    case True
    then have s: "zp1 = zp" "is_slot w (z_range_avl zp)" "before w (z_range_avl zp) = as" "after w (z_range_avl zp) = ns"
      using P(9) e(3) off by auto
    have N: "rl_nodes zp = as @ ns" using P(4) s(1) by simp
    have up: "hi r \<le> lo (rl_at zp x)" if x: "x \<in> set ns" for x
    proof (cases ns)
      case (Cons n bs)
      have N': "rl_nodes zp = as @ n # bs" using N Cons by simp
      have "hi r \<le> lo (rl_at zp n)" "lo (rl_at zp n) < hi (rl_at zp n)"
        using True Cons e s(1) good1 [of n] by (auto simp: good_def)
      then show ?thesis using core_between(2) [OF C N', of x] x Cons by (cases "x = n") auto
    qed (use x in simp)
    have "core (H(new := Some r)) (Q(new := None)) W (\<lambda>b. c b + ind (lo r) (hi r) b) (rl_avl_insert new w zp)"
    proof (rule core_enter [OF C N q])
      show "node_ok (Some r) r" using r by (simp add: node_ok_Some agrees_def)
      show "rl_nodes (rl_avl_insert new w zp) = as @ new # ns" "balanced (z_range_avl (rl_avl_insert new w zp))"
        using avl.insert_seq [OF s(2), of new] avl.insert_ok [OF core_balanced [OF C] s(2), of new] s by (simp_all add: rl_avl_insert_def)
    qed (use P(6) s(1) off up r(4) holders_granted [OF C Hnew] in auto)
    moreover have "zfs_range_add_reader new prev w zp = Some (rl_avl_insert new w zp)"
      using True s(1) unfolding unfold by (cases ns) (simp_all add: lo_def word_le_nat_alt)
    ultimately show ?thesis by simp
  next
    case False
    then obtain n bs where n: "ns = n # bs" "lo (rl_at zp1 n) < unat e" by (cases ns) auto
    have N1: "rl_nodes zp1 = as @ n # bs" using P(4) n(1) by simp
    have ln: "unat off \<le> lo (rl_at zp1 n)" using P(7) [of n] n(1) by simp
    obtain zp2 as2 where Z: "(if off < r_off (rl_at zp1 n) then zfs_range_new_proxy off (r_off (rl_at zp1 n) - off) zp1 else zp1) = zp2"
      "core H Q W (\<lambda>b. c b + ind (unat off) (lo (rl_at zp1 n)) b) zp2" "rl_nodes zp2 = (as @ as2) @ n # bs" "env zp2 = env zp1"
      "\<And>x. x \<in> set ns \<Longrightarrow> rl_at zp2 x = rl_at zp1 x"
      "unat off < lo (rl_at zp1 n) \<Longrightarrow> \<exists>y\<in>set as2. lo (rl_at zp2 y) = unat off"
    proof (cases "unat off < lo (rl_at zp1 n)")
      case True
      have lt: "off < r_off (rl_at zp1 n)" using True by (simp add: lo_def word_less_nat_alt)
      have sum: "unat off + unat (r_off (rl_at zp1 n) - off) = lo (rl_at zp1 n)" "r_off (rl_at zp1 n) - off \<noteq> 0"
        using lt True by (auto simp: unat_gap lo_def order_less_imp_le)
      have bound: "unat off + unat (r_off (rl_at zp1 n) - off) < 2 ^ 64"
        unfolding sum(1) using unsigned_less [of "r_off (rl_at zp1 n)", where ?'a = nat] by (simp add: lo_def)
      have upper: "unat off + unat (r_off (rl_at zp1 n) - off) \<le> lo (rl_at zp1 x)" if "x \<in> set ns" for x
        using that core_between(2) [OF P(2) N1, of x] good1 [of n] n(1) unfolding sum(1) by (fastforce simp: good_def)
      obtain zp2 g where "zfs_range_new_proxy off (r_off (rl_at zp1 n) - off) zp1 = zp2"
        "core H Q W (\<lambda>b. c b + ind (unat off) (unat off + unat (r_off (rl_at zp1 n) - off)) b) zp2"
        "rl_nodes zp2 = as @ g # ns" "env zp2 = env zp1" "H g = None" "\<And>w. (g, w) \<notin> W"
        "lo (rl_at zp2 g) = unat off" "hi (rl_at zp2 g) = unat off + unat (r_off (rl_at zp1 n) - off)"
        "\<And>x. x \<in> set as \<union> set ns \<Longrightarrow> rl_at zp2 x = rl_at zp1 x" "r_type (rl_at zp2 g) = RL_READER"
        by (rule core_new_proxy [OF P(2,4) sum(2) bound P(6) upper]) (assumption | rule that)+
      then show thesis
        using that [of zp2 "[g]"] lt n(1) unfolding sum(1) by auto
    next
      case False
      then have eq: "unat off = lo (rl_at zp1 n)" using ln by simp
      then have "\<not> off < r_off (rl_at zp1 n)" by (simp add: lo_def word_less_nat_alt)
      then show thesis using that [of zp1 "[]"] P(2) N1 eq by simp
    qed
    define zp3 where "zp3 = rl_upd new (\<lambda>r. r\<lparr>r_cnt := 0\<rparr>) zp2"
    have C3: "core H (Q(new \<mapsto> r\<lparr>r_cnt := 0\<rparr>)) W (\<lambda>b. c b + ind (unat off) (lo (rl_at zp1 n)) b) zp3"
      unfolding zp3_def by (rule core_req_upd [OF Z(2) q])
    have off3: "new \<notin> set (rl_nodes zp2)" using core_req [OF Z(2) q] by simp
    have N3: "rl_nodes zp3 = (as @ as2) @ ns" using Z(3) n(1) by (simp add: zp3_def)
    have at3: "rl_at zp3 x = rl_at zp2 x" if "x \<in> set (rl_nodes zp2)" for x
      using off3 that by (auto simp: zp3_def)
    have at31: "rl_at zp3 x = rl_at zp1 x" if "x \<in> set ns" for x
      using at3 [of x] Z(5) [OF that] Z(3) n(1) that by auto
    have start: "case None of None \<Rightarrow> ns \<noteq> [] \<and> lo (rl_at zp3 (hd ns)) < unat e \<and> lo (rl_at zp1 n) = lo (rl_at zp3 (hd ns))
          | Some p \<Rightarrow> (\<exists>as0. as @ as2 = as0 @ [p]) \<and> lo (rl_at zp1 n) = hi (rl_at zp3 p) \<and> lo (rl_at zp1 n) < unat e"
      using n at31 [of n] by simp
    have cl3: "\<And>x. x \<in> set ns \<Longrightarrow> lo (rl_at zp3 x) < unat e \<Longrightarrow> clear zp3 x"
      using clear1 at31 by (simp add: clear_def)
    have cnt3: "\<And>x. x \<in> set ns \<Longrightarrow> unat (r_cnt (rl_at zp3 x)) < 2 ^ 32 - 1" using cnt1 at31 by simp
    obtain zp' ys where R: "add_reader_loop off (r_len r) None (first_of ns) zp3 = Some zp'"
      "core H (Q(new \<mapsto> r\<lparr>r_cnt := 0\<rparr>)) W (\<lambda>b. c b + ind (unat off) (lo (rl_at zp1 n)) b + ind (lo (rl_at zp1 n)) (unat e) b) zp'"
      "rl_nodes zp' = (as @ as2) @ ys" "env zp' = env zp3" "\<forall>x\<in>set (as @ as2). rl_at zp' x = rl_at zp3 x"
      "\<exists>y\<in>set ys. lo (rl_at zp' y) = lo (rl_at zp1 n)" "\<exists>y\<in>set ys. hi (rl_at zp' y) = unat e"
      using add_reader_loop_core [OF C3 N3 start cl3 cnt3 e_def] by auto
    have st: "starts zp' (lo r)"
    proof (cases "unat off < lo (rl_at zp1 n)")
      case True
      then obtain y where "y \<in> set as2" "lo (rl_at zp2 y) = unat off" using Z(6) by blast
      moreover have "rl_at zp' y = rl_at zp2 y" using R(5) at3 [of y] Z(3) calculation(1) by simp
      ultimately show ?thesis unfolding starts_def using R(3) off by (intro bexI [of _ y]) auto
    next
      case False
      then show ?thesis using R(3,6) ln off by (auto simp: starts_def)
    qed
    have en: "ends zp' (hi r)" using R(3,7) e(1) by (auto simp: ends_def)
    have C4: "core H (Q(new \<mapsto> r\<lparr>r_cnt := 0\<rparr>)) W (\<lambda>b. c b + ind (lo r) (hi r) b) zp'"
      by (rule core_cong [OF R(2)]) (use ind_join [OF ln, of "unat e"] n(2) off e(1) in simp)
    have "core (H(new \<mapsto> r)) (Q(new \<mapsto> r\<lparr>r_cnt := 0\<rparr>, new := None)) W (\<lambda>b. c b + ind (lo r) (hi r) b) zp'"
    proof (rule core_grant [OF C4])
      show "(Q(new \<mapsto> r\<lparr>r_cnt := 0\<rparr>)) new = Some (r\<lparr>r_cnt := 0\<rparr>)" by simp
      show "off_tree (starts zp') (ends zp') r (r\<lparr>r_cnt := 0\<rparr>)" using r st en by (simp add: off_tree_def agrees_def)
    qed (use holders_granted [OF C Hnew] in auto)
    then have "core (H(new \<mapsto> r)) (Q(new := None)) W (\<lambda>b. c b + ind (lo r) (hi r) b) zp'" by simp
    moreover have "zfs_range_add_reader new prev w zp = Some zp'"
      using n R(1) Z(1) unfolding unfold by (simp add: lo_def word_le_nat_alt Let_def zp3_def)
    ultimately show ?thesis using R(4) Z(4) P(3) by (simp add: zp3_def)
  qed
qed

end
