(* ===== verification/Rlock_Calls.thy ===== *)
theory Rlock_Calls
  imports Rlock_Ops
begin

text \<open>
  The public calls of \<^verbatim>\<open>zfswrap/zfs_rlock.c\<close>, one turn at a time: a turn grants the lock or leaves the caller
  asleep on a lock that is in its way.
\<close>

definition overlap :: "rl \<Rightarrow> rl \<Rightarrow> bool" where
  "overlap r s \<longleftrightarrow> lo r < hi s \<and> lo s < hi r"

definition bars_readers :: "rl \<Rightarrow> bool" where
  "bars_readers r \<longleftrightarrow> r_type r = RL_WRITER \<or> r_write_wanted r"

lemma clear_iff: "core H Q W c zp \<Longrightarrow> x \<in> set (rl_nodes zp) \<Longrightarrow> clear zp x \<longleftrightarrow> \<not> bars_readers (rl_at zp x)"
  using core_node(2) [of H Q W c zp x] by (cases "r_type (rl_at zp x)") (auto simp: clear_def bars_readers_def node_ok_def)

subsection \<open>Waiting readers\<close>

lemma reader_scan_None:
  assumes "reader_scan off len zp ps = None" "ordered zp ps" "\<And>x. x \<in> set ps \<Longrightarrow> good (rl_at zp x)"
    and "x \<in> set ps" "lo (rl_at zp x) < unat (off + len)"
  shows "\<not> bars_readers (rl_at zp x)"
  using assms
proof (induction ps)
  case (Cons p ps)
  have g: "good (rl_at zp p)" using Cons.prems(3) by simp
  show ?case
  proof (cases "x = p")
    case True
    then show ?thesis using Cons.prems(1,5) by (auto simp: Let_def bars_readers_def lo_def word_le_nat_alt split: if_splits)
  next
    case False
    then have x: "x \<in> set ps" "hi (rl_at zp p) \<le> lo (rl_at zp x)" using Cons.prems(2,4) by auto
    then have "\<not> off + len \<le> rl_end (rl_at zp p)" "\<not> off + len \<le> r_off (rl_at zp p)"
      using Cons.prems(5) good_end [OF g] g by (auto simp: word_le_nat_alt good_def lo_def)
    then have "reader_scan off len zp ps = None" using Cons.prems(1) by (auto simp: Let_def split: if_splits)
    then show ?thesis using Cons x by auto
  qed
qed simp

lemma reader_scan_Some:
  "reader_scan off len zp ps = Some p \<Longrightarrow> p \<in> set ps \<and> bars_readers (rl_at zp p) \<and> lo (rl_at zp p) < unat (off + len)"
  by (induction ps) (auto simp: Let_def bars_readers_def lo_def word_le_nat_alt split: if_splits)

text \<open>The search finds the last range that begins no later than the new one.\<close>

lemma core_reader_prev:
  assumes C: "core H Q W c zp" and find: "rl_avl_find zp new = (found, w)"
      "prev = (case found of Some p \<Rightarrow> Some p | None \<Rightarrow> tree_nearest w False (z_range_avl zp))"
  obtains pre post where "rl_nodes zp = pre @ post" "prev = last_of pre" "\<And>x. x \<in> set pre \<Longrightarrow> lo (rl_at zp x) \<le> lo (rl_at zp new)"
    "\<And>x. x \<in> set post \<Longrightarrow> lo (rl_at zp new) < lo (rl_at zp x)" "pre = [] \<Longrightarrow> tree_nearest w True (z_range_avl zp) = first_of post"
proof -
  obtain as ms where D: "rl_nodes zp = as @ ms" "\<And>x. x \<in> set as \<Longrightarrow> lo (rl_at zp x) < lo (rl_at zp new)"
    "\<And>x. x \<in> set ms \<Longrightarrow> lo (rl_at zp new) \<le> lo (rl_at zp x)"
    by (rule core_divide [OF C]) (assumption | rule that)+
  note ord = core_ordered [OF C] and good = core_good [OF C]
  show thesis
  proof (cases "\<exists>n bs. ms = n # bs \<and> lo (rl_at zp n) = lo (rl_at zp new)")
    case True
    then obtain n bs where n: "ms = n # bs" "lo (rl_at zp n) = lo (rl_at zp new)" by blast
    have N: "rl_nodes zp = as @ n # bs" using D(1) n by simp
    have "found = Some n" using rl_avl_find_hit [OF ord good, of n new] N n(2) find(1) by simp
    then have prev: "prev = Some n" using find(2) by simp
    have "lo (rl_at zp new) < lo (rl_at zp x)" if "x \<in> set bs" for x
      using core_between(2) [OF C N that] good [of n] N n(2) by (simp add: good_def)
    moreover have "lo (rl_at zp x) \<le> lo (rl_at zp new)" if "x \<in> set (as @ [n])" for x
      using that D(2) [of x] n(2) by auto
    ultimately show thesis using that [of "as @ [n]" bs] N prev by simp
  next
    case False
    have gt: "lo (rl_at zp new) < lo (rl_at zp x)" if x: "x \<in> set ms" for x
    proof (cases ms)
      case (Cons n bs)
      have N: "rl_nodes zp = as @ n # bs" using D(1) Cons by simp
      have "lo (rl_at zp new) < lo (rl_at zp n)" using False D(3) [of n] Cons by fastforce
      moreover have "lo (rl_at zp n) < hi (rl_at zp n)" using good [of n] N by (simp add: good_def)
      ultimately show ?thesis using core_between(2) [OF C N, of x] x Cons by fastforce
    qed (use x in simp)
    obtain w' where w': "rl_avl_find zp new = (None, w')" "is_slot w' (z_range_avl zp)"
      "before w' (z_range_avl zp) = as" "after w' (z_range_avl zp) = ms"
      using rl_avl_find_slot [OF D(1) ord good, of new] D(2) gt by auto
    then have "prev = last_of as" "tree_nearest w True (z_range_avl zp) = first_of ms"
      using find by (auto simp: tree_nearest_ends)
    then show thesis using that [of as ms] D(1,2) gt by (simp add: less_imp_le)
  qed
qed

lemma core_reader_conflict:
  assumes C: "core H Q W c zp" and new: "rl_at zp new = r" "good r" and find: "rl_avl_find zp new = (found, w)"
      "prev = (case found of Some p \<Rightarrow> Some p | None \<Rightarrow> tree_nearest w False (z_range_avl zp))"
  shows "case reader_conflict zp new prev w of
      None \<Rightarrow> (\<forall>x\<in>set (rl_nodes zp). overlap (rl_at zp x) r \<longrightarrow> clear zp x)
    | Some p \<Rightarrow> p \<in> set (rl_nodes zp) \<and> overlap (rl_at zp p) r \<and> bars_readers (rl_at zp p)"
proof -
  obtain pre post where P: "rl_nodes zp = pre @ post" "prev = last_of pre" "\<And>x. x \<in> set pre \<Longrightarrow> lo (rl_at zp x) \<le> lo (rl_at zp new)"
    "\<And>x. x \<in> set post \<Longrightarrow> lo (rl_at zp new) < lo (rl_at zp x)" "pre = [] \<Longrightarrow> tree_nearest w True (z_range_avl zp) = first_of post"
    by (rule core_reader_prev [OF C find]) (assumption | rule that)+
  note distinct = core_distinct [OF C]
  have visit: "tree_visit (first_of post) (z_range_avl zp) = post" by (rule tree_visit_from [OF distinct P(1)])
  have e: "unat (r_off r + r_len r) = hi r" "lo r < hi r" using good_end [OF new(2)] new(2) by (auto simp: good_def)
  have ord: "ordered zp post" and good: "\<And>x. x \<in> set post \<Longrightarrow> good (rl_at zp x)"
    using core_ordered [OF C] core_good [OF C] unfolding P(1) by (auto simp: ordered_append)
  let ?scan = "reader_scan (r_off r) (r_len r) zp post"
  have scan: "case ?scan of None \<Rightarrow> (\<forall>x\<in>set post. overlap (rl_at zp x) r \<longrightarrow> \<not> bars_readers (rl_at zp x))
    | Some p \<Rightarrow> p \<in> set post \<and> overlap (rl_at zp p) r \<and> bars_readers (rl_at zp p)"
  proof (cases ?scan)
    case None
    then show ?thesis using reader_scan_None [OF None ord good] e by (auto simp: overlap_def)
  next
    case (Some p)
    have p: "p \<in> set post" "bars_readers (rl_at zp p)" "lo (rl_at zp p) < hi r" using reader_scan_Some [OF Some] e by auto
    then have "overlap (rl_at zp p) r" using P(4) [of p] good [of p] new(1) by (auto simp: overlap_def good_def)
    then show ?thesis using Some p by simp
  qed
  show ?thesis
  proof (cases pre rule: rev_cases)
    case Nil
    have "reader_conflict zp new prev w = ?scan"
      using P(2,5) Nil visit new(1) by (simp add: reader_conflict_def Let_def)
    then show ?thesis using scan clear_iff [OF C] Nil P(1) by (auto split: option.splits)
  next
    case (snoc as p)
    have N: "rl_nodes zp = as @ p # post" using P(1) snoc by simp
    have gp: "good (rl_at zp p)" using core_good [OF C, of p] N by simp
    have ep: "unat (rl_end (rl_at zp p)) = hi (rl_at zp p)" by (rule good_end [OF gp])
    have lp: "lo (rl_at zp p) \<le> lo r" using P(3) [of p] snoc new(1) by simp
    have nx: "tree_next p (z_range_avl zp) = first_of post" by (rule core_next [OF C N])
    have early: "\<not> overlap (rl_at zp x) r" if "x \<in> set as" for x
      using core_between(1) [OF C N that] lp by (simp add: overlap_def)
    have over: "r_off r < rl_end (rl_at zp p) \<longleftrightarrow> overlap (rl_at zp p) r"
      using ep lp e by (simp add: word_less_nat_alt overlap_def lo_def)
    have inner: "r_off r + r_len r < rl_end (rl_at zp p) \<longleftrightarrow> hi r < hi (rl_at zp p)"
      using ep e by (simp add: word_less_nat_alt)
    have late: "\<not> overlap (rl_at zp x) r" if "x \<in> set post" "hi r < hi (rl_at zp p)" for x
      using core_between(2) [OF C N that(1)] that(2) by (simp add: overlap_def)
    have "reader_conflict zp new prev w =
      (if overlap (rl_at zp p) r \<and> bars_readers (rl_at zp p) then Some p
       else if overlap (rl_at zp p) r \<and> hi r < hi (rl_at zp p) then None else ?scan)"
      using P(2) snoc new(1) nx visit by (auto simp: reader_conflict_def Let_def over inner bars_readers_def)
    then show ?thesis
      using scan clear_iff [OF C] early late N by (auto split: option.splits)
  qed
qed

lemma lock_reader_core:
  assumes C: "core H Q W c zp" and q: "Q new = Some r" and r: "good r" "r_type r = RL_READER" "\<not> r_proxy r" "r_cnt r = 1"
    and cnt: "\<And>x. x \<in> set (rl_nodes zp) \<Longrightarrow> unat (r_cnt (rl_at zp x)) < 2 ^ 32 - 1"
  obtains zp' wt where "zfs_range_lock_reader zp new = Some (zp', wt)" "env zp' = env zp"
    "wt = None \<Longrightarrow> core (H(new \<mapsto> r)) (Q(new := None)) W (\<lambda>b. c b + ind (lo r) (hi r) b) zp'"
    "\<And>p. wt = Some p \<Longrightarrow> core H Q (insert (p, False) W) c zp' \<and> p \<in> set (rl_nodes zp) \<and> overlap (rl_at zp p) r"
proof -
  obtain found w where f: "rl_avl_find zp new = (found, w)" by fastforce
  define prev where "prev = (case found of Some p \<Rightarrow> Some p | None \<Rightarrow> tree_nearest w False (z_range_avl zp))"
  note cf = core_reader_conflict [OF C core_req_at [OF C q] r(1) f prev_def]
  have run: "zfs_range_lock_reader zp new =
     (case reader_conflict zp new prev w of
        Some p \<Rightarrow> Some (rl_upd p (\<lambda>r. r\<lparr>r_read_wanted := True\<rparr>) zp, Some p)
      | None \<Rightarrow> map_option (\<lambda>zp. (zp, None)) (zfs_range_add_reader new prev w zp))"
    by (cases "reader_conflict zp new prev w") (simp_all add: zfs_range_lock_reader_def f prev_def [symmetric] Let_def)
  show thesis
  proof (cases "reader_conflict zp new prev w")
    case None
    have "\<And>x. x \<in> set (rl_nodes zp) \<Longrightarrow> lo (rl_at zp x) < hi r \<Longrightarrow> lo r < hi (rl_at zp x) \<Longrightarrow> clear zp x"
      using cf None by (simp add: overlap_def)
    then obtain zp' where "zfs_range_add_reader new prev w zp = Some zp'"
      "core (H(new \<mapsto> r)) (Q(new := None)) W (\<lambda>b. c b + ind (lo r) (hi r) b) zp'" "env zp' = env zp"
      using add_reader_core [OF C q r _ cnt f prev_def] by blast
    then show thesis using that [of zp' None] run None by simp
  next
    case (Some p)
    have p: "p \<in> set (rl_nodes zp)" "overlap (rl_at zp p) r" "bars_readers (rl_at zp p)" using cf Some by auto
    show thesis
      using that [of "rl_upd p (\<lambda>r. r\<lparr>r_read_wanted := True\<rparr>) zp" "Some p"] run Some p core_want(2) [OF C p(1)]
      by (simp add: bars_readers_def)
  qed
qed

subsection \<open>Writers\<close>

lemma nodes_empty: "z_range_avl zp = Null \<longleftrightarrow> rl_nodes zp = []"
  by (cases "z_range_avl zp") auto

lemma core_writer_conflict:
  assumes C: "core H Q W c zp" and new: "rl_at zp new = r" "good r" and find: "rl_avl_find zp new = (found, w)"
  shows "case writer_conflict zp (r_off r) (r_len r) found w of
      None \<Rightarrow> (\<exists>as ms. rl_nodes zp = as @ ms \<and> is_slot w (z_range_avl zp) \<and> before w (z_range_avl zp) = as \<and> after w (z_range_avl zp) = ms
         \<and> (\<forall>x\<in>set as. hi (rl_at zp x) \<le> lo r) \<and> (\<forall>x\<in>set ms. hi r \<le> lo (rl_at zp x)))
    | Some p \<Rightarrow> p \<in> set (rl_nodes zp) \<and> overlap (rl_at zp p) r"
proof (cases found)
  case (Some p)
  then have "p \<in> set (rl_nodes zp) \<and> avl_cmp zp new p = 0"
    using find unfolding rl_avl_find_def by (intro avl.find_Some) simp
  then have "p \<in> set (rl_nodes zp)" "lo (rl_at zp p) = lo r" using new(1) by (auto simp: zfs_range_compare_def lo_def split: if_splits)
  then show ?thesis using Some core_good [OF C, of p] new(2) by (simp add: writer_conflict_def overlap_def good_def)
next
  case None
  obtain as ms where D: "rl_nodes zp = as @ ms" "\<And>x. x \<in> set as \<Longrightarrow> lo (rl_at zp x) < lo r" "\<And>x. x \<in> set ms \<Longrightarrow> lo r \<le> lo (rl_at zp x)"
    by (rule core_divide [OF C, of "lo r"]) (assumption | rule that)+
  note ord = core_ordered [OF C] and good = core_good [OF C]
  have gt: "lo r < lo (rl_at zp x)" if "x \<in> set ms" for x
    using rl_avl_find_hit [OF ord good, of x new] D(3) [OF that] D(1) that find None new(1) by (cases "lo r = lo (rl_at zp x)") auto
  obtain w' where "rl_avl_find zp new = (None, w')" "is_slot w' (z_range_avl zp)"
    "before w' (z_range_avl zp) = as" "after w' (z_range_avl zp) = ms"
    using rl_avl_find_slot [OF D(1) ord good, of new] D(2) gt new(1) by auto
  then have w: "is_slot w (z_range_avl zp)" "before w (z_range_avl zp) = as" "after w (z_range_avl zp) = ms" using find by auto
  have e: "unat (r_off r + r_len r) = hi r" "lo r < hi r" using good_end [OF new(2)] new(2) by (auto simp: good_def)
  have near: "tree_nearest w True (z_range_avl zp) = first_of ms" "tree_nearest w False (z_range_avl zp) = last_of as"
    using w by (simp_all add: tree_nearest_ends)
  define A where "A = (case first_of ms of None \<Rightarrow> False | Some p \<Rightarrow> lo (rl_at zp p) < hi r)"
  define B where "B = (case last_of as of None \<Rightarrow> False | Some p \<Rightarrow> lo r < hi (rl_at zp p))"
  have "(case last_of as of None \<Rightarrow> False | Some p \<Rightarrow> r_off r < rl_end (rl_at zp p)) = B"
  proof (cases as rule: rev_cases)
    case (snoc bs p)
    then have "unat (rl_end (rl_at zp p)) = hi (rl_at zp p)" using good [of p] D(1) by (intro good_end) simp
    then show ?thesis using snoc by (simp add: B_def word_less_nat_alt lo_def)
  qed (simp add: B_def)
  moreover have "(case first_of ms of None \<Rightarrow> False | Some p \<Rightarrow> r_off (rl_at zp p) < r_off r + r_len r) = A"
    using e by (cases "first_of ms") (simp_all add: A_def word_less_nat_alt lo_def)
  ultimately have cf: "writer_conflict zp (r_off r) (r_len r) found w = (if A then first_of ms else if B then last_of as else None)"
    using None near by (simp add: writer_conflict_def Let_def)
  consider (aft) n bs where "ms = n # bs" "A" "lo (rl_at zp n) < hi r" | (bef) bs p where "\<not> A" "B" "as = bs @ [p]" "lo r < hi (rl_at zp p)"
    | (free) "\<not> A" "\<not> B"
    by (cases ms; cases as rule: rev_cases) (auto simp: A_def B_def)
  then show ?thesis
  proof cases
    case aft
    then show ?thesis using cf D(1) gt [of n] good [of n] by (auto simp: overlap_def good_def)
  next
    case bef
    then show ?thesis using cf D(1) D(2) [of p] e by (auto simp: overlap_def)
  next
    case free
    have "hi (rl_at zp x) \<le> lo r" if x: "x \<in> set as" for x
    proof (cases as rule: rev_cases)
      case (snoc bs p)
      have N: "rl_nodes zp = bs @ p # ms" using D(1) snoc by simp
      have "hi (rl_at zp p) \<le> lo r" "lo (rl_at zp p) < hi (rl_at zp p)" using free(2) snoc good [of p] N by (auto simp: B_def good_def)
      then show ?thesis using core_between(1) [OF C N, of x] x snoc by (cases "x = p") auto
    qed (use x in simp)
    moreover have "hi r \<le> lo (rl_at zp x)" if x: "x \<in> set ms" for x
    proof (cases ms)
      case (Cons n bs)
      have N: "rl_nodes zp = as @ n # bs" using D(1) Cons by simp
      have "hi r \<le> lo (rl_at zp n)" "lo (rl_at zp n) < hi (rl_at zp n)" using free(1) Cons good [of n] N by (auto simp: A_def good_def)
      then show ?thesis using core_between(2) [OF C N, of x] x Cons by (cases "x = n") auto
    qed (use x in simp)
    ultimately show ?thesis using cf free D(1) w by auto
  qed
qed

lemma lock_writer_core:
  assumes C: "core H Q W c zp" and q: "Q new = Some r" and r: "\<not> r_proxy r" "r_cnt r = 1"
    and range: "writer_range zp new off len = (off', len')" "len' \<noteq> 0" "unat off' + unat len' < 2 ^ 64"
    and g: "g = r\<lparr>r_off := off', r_len := len', r_type := RL_WRITER\<rparr>"
    and run: "zfs_range_lock_writer zp new off len = (zp', wt)"
  shows "env zp' = env zp"
    "wt = None \<Longrightarrow> core (H(new \<mapsto> g)) (Q(new := None)) W (\<lambda>b. c b + ind (lo g) (hi g) b) zp'"
    "wt = Some p \<Longrightarrow> core H (Q(new \<mapsto> r\<lparr>r_off := off', r_len := len'\<rparr>)) (insert (p, True) W) c zp'
       \<and> p \<in> set (rl_nodes zp) \<and> overlap (rl_at zp p) g"
proof -
  define s where "s = r\<lparr>r_off := off', r_len := len'\<rparr>"
  define zp1 where "zp1 = rl_upd new (\<lambda>r. r\<lparr>r_off := off', r_len := len'\<rparr>) zp"
  define zp2 where "zp2 = rl_upd new (\<lambda>r. r\<lparr>r_type := RL_WRITER\<rparr>) zp1"
  have C1: "core H (Q(new \<mapsto> s)) W c zp1" unfolding zp1_def s_def by (rule core_req_upd [OF C q])
  then have C2: "core H (Q(new \<mapsto> s, new \<mapsto> g)) W c zp2"
    unfolding zp2_def g using core_req_upd [OF C1, of new s "\<lambda>r. r\<lparr>r_type := RL_WRITER\<rparr>"] by (simp add: s_def)
  have Q2: "(Q(new \<mapsto> s, new \<mapsto> g)) new = Some g" by simp
  have notin: "new \<notin> set (rl_nodes zp)" "H new = None" using core_req [OF C q] by auto
  have at1: "rl_at zp1 new = s" "\<And>x. x \<in> set (rl_nodes zp) \<Longrightarrow> rl_at zp1 x = rl_at zp x"
    and at2: "\<And>x. x \<in> set (rl_nodes zp) \<Longrightarrow> rl_at zp2 x = rl_at zp x"
    using core_req_at [OF C q] notin by (auto simp: zp1_def zp2_def s_def)
  have pos: "0 < unat len'" using range(2) by (simp add: unat_gt_0)
  have gg: "good g" "lo g = unat off'" "hi g = unat off' + unat len'" using range(3) pos by (auto simp: g good_def lo_def hi_def)
  have end': "unat (off' + len') = hi g" using range(3) gg by (simp add: unat_word_ariths)
  have ls: "lo s = lo g" by (simp add: s_def g lo_def)
  have N: "rl_nodes zp1 = rl_nodes zp" "rl_nodes zp2 = rl_nodes zp" "z_range_avl zp1 = z_range_avl zp" "z_range_avl zp2 = z_range_avl zp"
    by (simp_all add: zp1_def zp2_def)
  have enter: "core (H(new \<mapsto> g)) (Q(new := None)) W (\<lambda>b. c b + ind (lo g) (hi g) b) z"
    if "rl_nodes zp = as @ bs" "rl_nodes z = as @ new # bs" "balanced (z_range_avl z)" "rl_mem z = rl_mem zp2" "rl_brk z = rl_brk zp2"
      "\<And>x. x \<in> set as \<Longrightarrow> hi (rl_at zp x) \<le> lo g" "\<And>x. x \<in> set bs \<Longrightarrow> hi g \<le> lo (rl_at zp x)" for as bs z
  proof -
    have "core (H(new := Some g)) (Q(new \<mapsto> s, new \<mapsto> g, new := None)) W (\<lambda>b. c b + ind (lo g) (hi g) b) z"
    proof (rule core_enter [OF C2 _ Q2])
      show "node_ok (Some g) g" using gg(1) r by (simp add: node_ok_Some agrees_def g)
      show "r_cnt g = 1" using r(2) by (simp add: g)
      show "rl_nodes zp2 = as @ bs" using that(1) N by simp
      show "holders (H(new := Some g)) b \<le> c b + ind (lo g) (hi g) b" for b by (rule holders_granted [OF C notin(2)])
    qed (use that at2 in auto)
    then show ?thesis by simp
  qed
  have "env zp' = env zp
    \<and> (wt = None \<longrightarrow> core (H(new \<mapsto> g)) (Q(new := None)) W (\<lambda>b. c b + ind (lo g) (hi g) b) zp')
    \<and> (\<forall>p. wt = Some p \<longrightarrow> core H (Q(new \<mapsto> s)) (insert (p, True) W) c zp' \<and> p \<in> set (rl_nodes zp) \<and> overlap (rl_at zp p) g)"
  proof (cases "z_range_avl zp = Null")
    case True
    then have e: "zp' = rl_avl_add new zp2" "wt = None"
      using run N unfolding zfs_range_lock_writer_def range(1) zp1_def [symmetric] zp2_def [symmetric]
      by (simp_all add: Let_def zp1_def [symmetric] zp2_def [symmetric])
    have n: "rl_nodes zp2 = [] @ []" using True N(2) nodes_empty by simp
    have "rl_nodes zp' = [] @ [new]" "balanced (z_range_avl zp')"
      using add_in_place [OF n, of new] gg(1) core_req_at [OF C2 Q2] core_balanced [OF C2] e(1) by simp_all
    then show ?thesis
      using enter [of "[]" "[]" zp'] n N(2) e by (simp add: zp2_def zp1_def)
  next
    case False
    obtain rl w where f: "rl_avl_find zp1 new = (rl, w)" by fastforce
    have run': "zfs_range_lock_writer zp new off len = (case writer_conflict zp1 off' len' rl w of
        Some p \<Rightarrow> (rl_upd p (\<lambda>r. r\<lparr>r_write_wanted := True\<rparr>) zp1, Some p)
      | None \<Rightarrow> (rl_avl_insert new w zp2, None))"
      using False N unfolding zfs_range_lock_writer_def range(1) Let_def prod.case zp1_def [symmetric] zp2_def [symmetric] f by simp
    have gs: "good s" "hi s = hi g" using gg by (auto simp: s_def g good_def lo_def hi_def)
    have cf: "case writer_conflict zp1 off' len' rl w of
        None \<Rightarrow> (\<exists>as ms. rl_nodes zp = as @ ms \<and> is_slot w (z_range_avl zp) \<and> before w (z_range_avl zp) = as \<and> after w (z_range_avl zp) = ms
           \<and> (\<forall>x\<in>set as. hi (rl_at zp1 x) \<le> lo g) \<and> (\<forall>x\<in>set ms. hi g \<le> lo (rl_at zp1 x)))
      | Some p \<Rightarrow> p \<in> set (rl_nodes zp) \<and> overlap (rl_at zp1 p) g"
      using core_writer_conflict [OF C1 at1(1) gs(1) f] N gs(2) ls by (auto simp: s_def overlap_def split: option.splits)
    show ?thesis
    proof (cases "writer_conflict zp1 off' len' rl w")
      case (Some p)
      then have "p \<in> set (rl_nodes zp1)" "overlap (rl_at zp p) g" using cf at1(2) [of p] N by auto
      then show ?thesis
        using run run' Some core_want(1) [OF C1, of p] N by (auto simp: zp1_def)
    next
      case None
      then obtain as ms where s: "rl_nodes zp = as @ ms" "is_slot w (z_range_avl zp)" "before w (z_range_avl zp) = as"
        "after w (z_range_avl zp) = ms" "\<forall>x\<in>set as. hi (rl_at zp1 x) \<le> lo g" "\<forall>x\<in>set ms. hi g \<le> lo (rl_at zp1 x)"
        using cf by auto
      have z: "zp' = rl_avl_insert new w zp2" "wt = None" using run run' None by auto
      have "rl_nodes zp' = as @ new # ms" "balanced (z_range_avl zp')"
        using avl.insert_seq [OF s(2), of new] avl.insert_ok [OF core_balanced [OF C] s(2), of new] s(3,4) N
        by (simp_all add: z rl_avl_insert_def)
      then have "core (H(new \<mapsto> g)) (Q(new := None)) W (\<lambda>b. c b + ind (lo g) (hi g) b) zp'"
        using s(1,5,6) at1(2) by (intro enter [OF s(1)]) (auto simp: z)
      then show ?thesis using z by (simp add: zp2_def zp1_def)
    qed
  qed
  then show "env zp' = env zp" "wt = None \<Longrightarrow> core (H(new \<mapsto> g)) (Q(new := None)) W (\<lambda>b. c b + ind (lo g) (hi g) b) zp'"
    "wt = Some p \<Longrightarrow> core H (Q(new \<mapsto> r\<lparr>r_off := off', r_len := len'\<rparr>)) (insert (p, True) W) c zp'
       \<and> p \<in> set (rl_nodes zp) \<and> overlap (rl_at zp p) g"
    by (auto simp: s_def)
qed

subsection \<open>Unlocking\<close>

lemma holders_pos:
  assumes "core H Q W c zp" "H p = Some g" "within b g"
  shows "0 < holders H b"
  using holders_set_finite [OF holders_finite [OF assms(1)], of b] assms(2,3) unfolding holders_def by (auto simp: card_gt_0_iff)

lemma agrees_range: "agrees g r \<Longrightarrow> lo r = lo g \<and> hi r = hi g"
  by (simp add: agrees_def lo_def hi_def)

text \<open>Whoever sleeps on a lock is woken when it goes.\<close>

lemma wakeups_all: "core H Q W c zp \<Longrightarrow> (p, w) \<in> W \<Longrightarrow> (p, w) \<in> set (rl_wakeups zp p)"
  using core_waits [of H Q W c zp p w] by (auto simp: rl_wakeups_def wanted_def split: if_splits)

lemma core_drop_woken:
  assumes C: "core H Q W c zp" and N: "rl_nodes zp = as @ p # bs" and r: "r = rl_at zp p" "r_cnt r = 1"
    and z: "rl_nodes zp' = as @ bs" "balanced (z_range_avl zp')" "rl_mem zp' = (rl_mem zp)(p := None)" "rl_brk zp' = rl_brk zp"
    and H: "\<And>b. holders (H(p := None)) b \<le> c b - ind (lo r) (hi r) b"
  shows "core (H(p := None)) Q {x \<in> W. x \<notin> set (rl_wakeups zp p)} (\<lambda>b. c b - ind (lo r) (hi r) b) zp'"
  using core_drop [OF C N r z H] by (rule core_fewer_waits) (auto simp: wakeups_all [OF C])

lemma core_proxy_alone:
  assumes C: "core H Q W c zp" and p: "p \<in> set (rl_nodes zp)" "within b (rl_at zp p)" "holders H b < c b"
  shows "H p = None"
proof (cases "H p")
  case (Some g)
  then have n: "agrees g (rl_at zp p)" "r_cnt (rl_at zp p) = 1" using core_node(2) [OF C p(1)] by (auto simp: node_ok_Some)
  then have "c b = 1" using core_count [OF C p(1,2)] by simp
  moreover have "0 < holders H b" using holders_pos [OF C Some] p(2) agrees_range [OF n(1)] by simp
  ultimately show ?thesis using p(3) by simp
qed

lemma core_next_touches:
  assumes C: "core H Q W c zp" and N: "rl_nodes zp = as @ p # bs" and c: "0 < c (hi (rl_at zp p))"
  obtains m bs' where "bs = m # bs'" "lo (rl_at zp m) = hi (rl_at zp p)"
proof -
  obtain x where x: "x \<in> set (rl_nodes zp)" "within (hi (rl_at zp p)) (rl_at zp x)" using core_covered [OF C] c by (metis less_irrefl)
  note bt = core_between [OF C N]
  have gp: "lo (rl_at zp p) < hi (rl_at zp p)" using core_good [OF C, of p] N by (simp add: good_def)
  have xb: "x \<in> set bs" using x bt(1) [of x] gp N by fastforce
  then obtain m bs' where m: "bs = m # bs'" by (cases bs) auto
  have N': "rl_nodes zp = (as @ [p]) @ m # bs'" using N m by simp
  have "lo (rl_at zp m) < hi (rl_at zp m)" using core_good [OF C, of m] N' by (simp add: good_def)
  then have "x = m" using xb x(2) m bt(2) [of m] core_between(2) [OF C N', of x] by fastforce
  then show thesis using that [OF m] x(2) bt(2) [of m] m by simp
qed

lemma core_end_inside:
  assumes C: "core H Q W c zp" and N: "rl_nodes zp = as @ p # bs" and x: "x \<in> set (p # bs)" "hi (rl_at zp x) = e"
  shows "hi (rl_at zp p) \<le> e" "hi (rl_at zp p) < e \<Longrightarrow> x \<in> set bs"
  using core_between(2) [OF C N, of x] core_good [OF C, of x] N x by (auto simp: good_def)

lemma unlock_step_core:
  assumes C: "core H Q W c zp" and N: "rl_nodes zp = as @ p # bs" and a: "a = lo (rl_at zp p)" "a < e"
    and x: "\<exists>x\<in>set (p # bs). hi (rl_at zp x) = e" and holders: "\<And>b. holders H b + ind a e b \<le> c b" and len: "unat len = e - a"
  obtains zp2 wk ps where
    "unlock_reader_loop len (Some p) woken zp =
       unlock_reader_loop (len - r_len (rl_at zp p)) (if len - r_len (rl_at zp p) \<noteq> 0 then first_of bs else None) (woken @ wk) zp2"
    "core H Q {x \<in> W. x \<notin> set wk} (\<lambda>b. c b - ind a (hi (rl_at zp p)) b) zp2" "rl_nodes zp2 = ps @ bs" "env zp2 = env zp"
    "\<And>x. x \<in> set bs \<Longrightarrow> rl_at zp2 x = rl_at zp x" "unat (len - r_len (rl_at zp p)) = e - hi (rl_at zp p)" "hi (rl_at zp p) \<le> e"
proof -
  define r where "r = rl_at zp p"
  have le: "hi r \<le> e" using x core_end_inside(1) [OF C N] by (auto simp: r_def)
  have gr: "good r" using core_good [OF C, of p] N by (simp add: r_def)
  have hr: "hi r = a + unat (r_len r)" "lo r = a" using a(1) by (simp_all add: r_def hi_def lo_def)
  have "r_len r \<le> len" using len le hr by (simp add: word_le_nat_alt)
  then have rest: "unat (len - r_len r) = e - hi r" using len hr by (simp add: unat_gap)
  have "len \<noteq> 0" using len a(2) by auto
  have H: "H p = None"
  proof (rule core_proxy_alone [OF C])
    show "within a (rl_at zp p)" using gr hr by (simp add: r_def [symmetric] good_def)
    show "holders H a < c a" using holders [of a] a(2) by (simp add: ind_def)
  qed (simp add: N)
  have sub: "holders H b \<le> c b - ind (lo r) (hi r) b" for b
    using holders [of b] le hr by (auto simp: ind_def split: if_splits)
  have nx: "tree_next p (z_range_avl zp) = first_of bs" by (rule core_next [OF C N])
  define zp1 where "zp1 = rl_upd p (\<lambda>r. r\<lparr>r_cnt := r_cnt r - 1\<rparr>) zp"
  have wk: "rl_wakeups zp1 p = rl_wakeups zp p" by (simp add: zp1_def rl_wakeups_def)
  have run: "unlock_reader_loop len (Some p) woken zp =
      unlock_reader_loop (len - r_len r) (if len - r_len r \<noteq> 0 then first_of bs else None)
        (if r_cnt r = 1 then woken @ rl_wakeups zp p else woken)
        (if r_cnt r = 1 then rl_free p (rl_avl_remove p zp1) else zp1)"
    using \<open>len \<noteq> 0\<close> nx wk
    by (subst unlock_reader_loop.simps) (simp add: Let_def r_def [symmetric] zp1_def [symmetric], simp add: zp1_def r_def)
  note bt = core_between [OF C N]
  show thesis
  proof (cases "r_cnt r = 1")
    case True
    define zp2 where "zp2 = rl_free p (rl_avl_remove p zp1)"
    have z: "rl_nodes zp2 = as @ bs" "balanced (z_range_avl zp2)" "rl_mem zp2 = (rl_mem zp)(p := None)" "rl_brk zp2 = rl_brk zp" "env zp2 = env zp"
      using rl_avl_remove_at [OF C N] by (simp_all add: zp2_def zp1_def rl_avl_remove_def rl_upd_def rl_free_def env_def)
    have at: "rl_at zp2 x = rl_at zp x" if "x \<in> set bs" for x
    proof -
      have "x \<noteq> p" using that bt(4) by auto
      then show ?thesis using z(3) by (simp add: rl_at_def)
    qed
    have "core (H(p := None)) Q {x \<in> W. x \<notin> set (rl_wakeups zp p)} (\<lambda>b. c b - ind (lo r) (hi r) b) zp2"
      by (rule core_drop_woken [OF C N r_def True z(1-4)]) (use sub H in \<open>simp add: fun_upd_idem\<close>)
    then have "core H Q {x \<in> W. x \<notin> set (rl_wakeups zp p)} (\<lambda>b. c b - ind a (hi r) b) zp2" using H hr by (simp add: fun_upd_idem)
    then show thesis
      using that [of "rl_wakeups zp p" zp2 as] run True z(1,5) at rest le unfolding r_def [symmetric] by (simp add: zp2_def)
  next
    case False
    have "core H Q W (\<lambda>b. c b - ind a (hi r) b) zp1"
      using core_dec [OF C N H] False sub hr unfolding r_def [symmetric] zp1_def by simp
    moreover have "rl_at zp1 x = rl_at zp x" if "x \<in> set bs" for x using that bt(4) by (auto simp: zp1_def)
    ultimately show thesis
      using that [of "[]" zp1 "as @ [p]"] run False N rest le unfolding r_def [symmetric] by (simp add: zp1_def)
  qed
qed

lemma unlock_loop_core:
  assumes "core H Q W c zp" "rl_nodes zp = as @ p # bs" "a = lo (rl_at zp p)" "a < e" "\<exists>x\<in>set (p # bs). hi (rl_at zp x) = e"
    and "\<And>b. holders H b + ind a e b \<le> c b" "unat len = e - a"
  shows "\<exists>zp' wk. unlock_reader_loop len (Some p) woken zp = Some (zp', woken @ wk)
    \<and> core H Q {x \<in> W. x \<notin> set wk} (\<lambda>b. c b - ind a e b) zp' \<and> env zp' = env zp"
  using assms
proof (induction bs arbitrary: as p a zp c W woken len)
  case Nil
  note hyps = Nil.prems
  obtain zp2 wk ps where S: "unlock_reader_loop len (Some p) woken zp =
       unlock_reader_loop (len - r_len (rl_at zp p)) (if len - r_len (rl_at zp p) \<noteq> 0 then first_of [] else None) (woken @ wk) zp2"
    "core H Q {x \<in> W. x \<notin> set wk} (\<lambda>b. c b - ind a (hi (rl_at zp p)) b) zp2" "rl_nodes zp2 = ps @ []" "env zp2 = env zp"
    "\<And>x. x \<in> set [] \<Longrightarrow> rl_at zp2 x = rl_at zp x" "unat (len - r_len (rl_at zp p)) = e - hi (rl_at zp p)" "hi (rl_at zp p) \<le> e"
    by (rule unlock_step_core [OF hyps]) (assumption | rule that)+
  have "hi (rl_at zp p) = e" using hyps(5) by simp
  moreover from this have "len - r_len (rl_at zp p) = 0" using S(6) by (simp add: unat_eq_0)
  ultimately show ?case
    using S(1,2,4) by (intro exI [of _ zp2] exI [of _ wk]) (simp add: unlock_reader_loop.simps)
next
  case (Cons m bs)
  note hyps = Cons.prems
  obtain zp2 wk ps where S: "unlock_reader_loop len (Some p) woken zp =
       unlock_reader_loop (len - r_len (rl_at zp p)) (if len - r_len (rl_at zp p) \<noteq> 0 then first_of (m # bs) else None) (woken @ wk) zp2"
    "core H Q {x \<in> W. x \<notin> set wk} (\<lambda>b. c b - ind a (hi (rl_at zp p)) b) zp2" "rl_nodes zp2 = ps @ m # bs" "env zp2 = env zp"
    "\<And>x. x \<in> set (m # bs) \<Longrightarrow> rl_at zp2 x = rl_at zp x" "unat (len - r_len (rl_at zp p)) = e - hi (rl_at zp p)" "hi (rl_at zp p) \<le> e"
    by (rule unlock_step_core [OF hyps]) (assumption | rule that)+
  show ?case
  proof (cases "hi (rl_at zp p) = e")
    case True
    then have "len - r_len (rl_at zp p) = 0" using S(6) by (simp add: unat_eq_0)
    then show ?thesis
      using S(1,2,4) True by (intro exI [of _ zp2] exI [of _ wk]) (simp add: unlock_reader_loop.simps)
  next
    case False
    then have lt: "hi (rl_at zp p) < e" using S(7) by simp
    have nz: "len - r_len (rl_at zp p) \<noteq> 0" using S(6) lt by auto
    have ap: "a < hi (rl_at zp p)" using core_good [OF hyps(1), of p] hyps(2,3) by (simp add: good_def)
    have c1: "0 < c (hi (rl_at zp p))" using hyps(6) [of "hi (rl_at zp p)"] lt ap by (simp add: ind_def)
    have lm: "lo (rl_at zp m) = hi (rl_at zp p)" using core_next_touches [OF hyps(1,2) c1] by auto
    have split: "ind a e b = ind a (hi (rl_at zp p)) b + ind (hi (rl_at zp p)) e b" for b
      using ind_join [of a "hi (rl_at zp p)" e b] ap lt by simp
    have bound: "holders H b + ind (hi (rl_at zp p)) e b \<le> c b - ind a (hi (rl_at zp p)) b" for b
      using hyps(6) [of b] unfolding split by simp
    have x: "\<exists>x\<in>set (m # bs). hi (rl_at zp2 x) = e"
      using hyps(5) core_end_inside(2) [OF hyps(1,2) _ refl] False lt S(5) by force
    have start: "hi (rl_at zp p) = lo (rl_at zp2 m)" using lm S(5) by simp
    obtain zp' wk' where R: "unlock_reader_loop (len - r_len (rl_at zp p)) (Some m) (woken @ wk) zp2 = Some (zp', (woken @ wk) @ wk')"
      "core H Q {x \<in> {x \<in> W. x \<notin> set wk}. x \<notin> set wk'} (\<lambda>b. c b - ind a (hi (rl_at zp p)) b - ind (hi (rl_at zp p)) e b) zp'"
      "env zp' = env zp2"
      using Cons.IH [OF S(2,3) start lt x bound S(6), of "woken @ wk"] by blast
    have "{x \<in> {x \<in> W. x \<notin> set wk}. x \<notin> set wk'} = {x \<in> W. x \<notin> set (wk @ wk')}" by auto
    moreover have "(\<lambda>b. c b - ind a (hi (rl_at zp p)) b - ind (hi (rl_at zp p)) e b) = (\<lambda>b. c b - ind a e b)"
      unfolding split by simp
    ultimately show ?thesis
      using R S(1,4) nz by (intro exI [of _ zp'] exI [of _ "wk @ wk'"]) simp
  qed
qed

lemma unlock_core:
  assumes C: "core H Q W c zp" and h: "H h = Some g"
    and holders: "\<And>b. holders (H(h := None)) b \<le> c b - ind (lo g) (hi g) b"
  shows "\<exists>zp' wk. zfs_range_unlock zp h = Some (zp', wk) \<and> env zp' = env zp
    \<and> core (H(h := None)) Q {x \<in> W. x \<notin> set wk} (\<lambda>b. c b - ind (lo g) (hi g) b) zp'"
proof (cases "h \<in> set (rl_nodes zp)")
  case True
  then obtain as bs where N: "rl_nodes zp = as @ h # bs" by (meson split_list)
  have n: "agrees g (rl_at zp h)" "r_cnt (rl_at zp h) = 1" using core_node(2) [OF C True] h by (auto simp: node_ok_Some)
  define zp' where "zp' = rl_free h (rl_avl_remove h zp)"
  have "zfs_range_unlock zp h = Some (zp', rl_wakeups zp h)"
    using n(2) by (simp add: zfs_range_unlock_def zfs_range_unlock_reader_def zp'_def)
  moreover have "core (H(h := None)) Q {x \<in> W. x \<notin> set (rl_wakeups zp h)} (\<lambda>b. c b - ind (lo (rl_at zp h)) (hi (rl_at zp h)) b) zp'"
    using holders agrees_range [OF n(1)] rl_avl_remove_at [OF C N]
    by (intro core_drop_woken [OF C N refl n(2)]) (simp_all add: zp'_def)
  ultimately show ?thesis using agrees_range [OF n(1)] by (simp add: zp'_def)
next
  case False
  define r where "r = rl_at zp h"
  have o: "off_tree (starts zp) (ends zp) g r" using core_off(2) [OF C h False] by (simp add: r_def)
  then have lh: "lo r = lo g" "hi r = hi g" and gr: "good r" and rd: "r_type r = RL_READER" "r_cnt r = 0"
    using agrees_range by (auto simp: off_tree_def)
  have C1: "core (H(h := None)) (Q(h \<mapsto> r)) W c zp" using core_release [OF C h False] by (simp add: r_def)
  obtain p where p: "p \<in> set (rl_nodes zp)" "lo (rl_at zp p) = lo r" using o by (auto simp: off_tree_def starts_def)
  obtain as bs where N: "rl_nodes zp = as @ p # bs" using p(1) by (meson split_list)
  have found: "fst (rl_avl_find zp h) = Some p"
    using rl_avl_find_hit [OF core_ordered [OF C] core_good [OF C] p(1), of h] p(2) by (simp add: r_def)
  obtain x where x: "x \<in> set (rl_nodes zp)" "hi (rl_at zp x) = hi r" using o by (auto simp: off_tree_def ends_def)
  have lt: "lo r < hi r" using gr by (simp add: good_def)
  have "x \<notin> set as"
    using core_between(1) [OF C N, of x] x(2) p(2) lt by fastforce
  then have xe: "\<exists>x\<in>set (p # bs). hi (rl_at zp x) = hi r" using x N by auto
  have pos: "ind (lo r) (hi r) b \<le> c b" for b
    using holders_pos [OF C h, of b] core_holders [OF C, of b] lh by (auto simp: ind_def)
  have H1: "holders (H(h := None)) b + ind (lo r) (hi r) b \<le> c b" for b
    using holders [of b] pos [of b] lh by simp
  have len: "unat (r_len r) = hi r - lo r" by (simp add: lo_def hi_def)
  obtain zp1 wk where R: "unlock_reader_loop (r_len r) (Some p) [] zp = Some (zp1, [] @ wk)"
    "core (H(h := None)) (Q(h \<mapsto> r)) {x \<in> W. x \<notin> set wk} (\<lambda>b. c b - ind (lo r) (hi r) b) zp1" "env zp1 = env zp"
    using unlock_loop_core [OF C1 N p(2) [symmetric] lt xe H1 len, of "[]"] by blast
  have "core (H(h := None)) (Q(h \<mapsto> r, h := None)) {x \<in> W. x \<notin> set wk} (\<lambda>b. c b - ind (lo r) (hi r) b) (rl_free h zp1)"
    by (rule core_req_free [OF R(2)]) simp
  moreover have "Q h = None" using core_req [OF C, of h] h by (cases "Q h") auto
  moreover have "zfs_range_unlock zp h = Some (rl_free h zp1, wk)"
    using R(1) rd found by (simp add: zfs_range_unlock_def zfs_range_unlock_reader_def r_def [symmetric])
  ultimately show ?thesis using R(3) lh by (simp add: fun_upd_idem)
qed

text \<open>
  A writer that holds the whole file gives back all but the range it needs; as everybody else who
  holds a lock would overlap with it, there is nobody.
\<close>

lemma reduce_core:
  assumes C: "core H Q W c zp" and h: "H h = Some g" and N: "rl_nodes zp = [h]" and alone: "dom H = {h}"
    and g': "g' = g\<lparr>r_off := off, r_len := len\<rparr>" "good g'" and run: "zfs_range_reduce zp h off len = (zp', wk)"
  shows "env zp' = env zp" "core (H(h \<mapsto> g')) Q {x \<in> W. x \<notin> set wk} (ind (lo g') (hi g')) zp'"
proof -
  have n: "agrees g (rl_at zp h)" "r_cnt (rl_at zp h) = 1" "r_type (rl_at zp h) \<noteq> RL_APPEND"
    using core_node(2) [OF C, of h] N h by (auto simp: node_ok_Some)
  have z: "zp' = rl_upd h (\<lambda>r. r\<lparr>r_off := off, r_len := len\<rparr>) zp" "wk = rl_wakeups zp h"
    using run by (auto simp: zfs_range_reduce_def)
  then show "env zp' = env zp" by simp
  define s where "s = rl_at zp h\<lparr>r_off := off, r_len := len\<rparr>"
  define zp1 where "zp1 = rl_free h (rl_avl_remove h zp)"
  define zp2 where "zp2 = zp1\<lparr>rl_mem := (rl_mem zp1)(h \<mapsto> s)\<rparr>"
  have W: "{x \<in> W. x \<notin> set wk} = {}"
  proof -
    have "(p, w) \<in> set wk" if "(p, w) \<in> W" for p w
      using core_waits [OF C that] wakeups_all [OF C that] N z(2) by simp
    then show ?thesis by auto
  qed
  have H0: "H(h := None) = (\<lambda>_. None)" using alone by (auto simp: fun_eq_iff)
  have h0: "holders (\<lambda>_. None) b = 0" for b by (simp add: holders_def)
  have N': "rl_nodes zp = [] @ h # []" using N by simp
  have "core (H(h := None)) Q {x \<in> W. x \<notin> set (rl_wakeups zp h)} (\<lambda>b. c b - ind (lo (rl_at zp h)) (hi (rl_at zp h)) b) zp1"
    using rl_avl_remove_at [OF C N'] h0 by (intro core_drop_woken [OF C N' refl n(2)]) (simp_all add: zp1_def H0)
  then have C1: "core (\<lambda>_. None) Q {} (\<lambda>b. c b - ind (lo (rl_at zp h)) (hi (rl_at zp h)) b) zp1" unfolding H0 W [unfolded z(2)] .
  have N1: "rl_nodes zp1 = []" using rl_avl_remove_at(1) [OF C N'] by (simp add: zp1_def)
  have c0: "c b - ind (lo (rl_at zp h)) (hi (rl_at zp h)) b = 0" for b using core_cov [OF C1, of b] N1 by simp
  have C1': "core (\<lambda>_. None) Q {} (\<lambda>_. 0) zp1" by (rule core_cong [OF C1]) (simp add: c0)
  have Qh: "Q h = None" using core_inside [OF C, of h] N by simp
  have hb: "h < rl_brk zp" using core_brk [OF C, of h] core_node(1) [OF C, of h] N by auto
  have C2: "core (\<lambda>_. None) (Q(h \<mapsto> s)) {} (\<lambda>_. 0) zp2"
  proof (rule core_side [OF C1'])
    fix x assume "x \<notin> set (rl_nodes zp1)"
    then show "(\<forall>g. None = Some g \<longrightarrow> (Q(h \<mapsto> s)) x = None \<and> (\<exists>r. rl_mem zp2 x = Some r \<and> off_tree (starts zp1) (ends zp1) g r))
      \<and> (\<forall>r. (Q(h \<mapsto> s)) x = Some r \<longrightarrow> rl_mem zp2 x = Some r)
      \<and> (rl_mem zp2 x \<noteq> None \<longrightarrow> ((None :: rl option) \<noteq> None \<or> (Q(h \<mapsto> s)) x \<noteq> None) \<and> x < rl_brk zp2)"
      using core_outside [OF C1', of x] hb by (auto simp: zp2_def zp1_def)
  qed (use N1 h0 in \<open>auto simp: zp2_def\<close>)
  have sg: "lo s = lo g'" "hi s = hi g'" "node_ok (Some g') s"
    using g' n by (auto simp: s_def lo_def hi_def node_ok_Some agrees_def good_def)
  have N2: "rl_nodes zp2 = [] @ []" using N1 by (simp add: zp2_def)
  have Q2: "(Q(h \<mapsto> s)) h = Some s" by simp
  have "core ((\<lambda>_. None)(h := Some g')) (Q(h \<mapsto> s, h := None)) {} (\<lambda>b. 0 + ind (lo s) (hi s) b) zp'"
  proof (rule core_enter [OF C2 N2 Q2 sg(3)])
    show "rl_nodes zp' = [] @ h # []" "balanced (z_range_avl zp')" using N core_balanced [OF C] by (simp_all add: z)
    show "rl_mem zp' = rl_mem zp2" "rl_brk zp' = rl_brk zp2" by (simp_all add: z zp2_def zp1_def s_def)
    show "holders ((\<lambda>_. None)(h \<mapsto> g')) b \<le> 0 + ind (lo s) (hi s) b" for b
      using holders_add [of "\<lambda>_. None" h g' b] h0 sg by simp
  qed (use n in \<open>auto simp: s_def\<close>)
  moreover have "H(h \<mapsto> g') = (\<lambda>_. None)(h \<mapsto> g')" using H0 by (metis fun_upd_upd)
  ultimately show "core (H(h \<mapsto> g')) Q {x \<in> W. x \<notin> set wk} (ind (lo g') (hi g')) zp'"
    unfolding W using sg Qh by (simp add: fun_upd_idem)
qed

end
