(* ===== verification/Rlock_System.thy ===== *)
theory Rlock_System
  imports Rlock_Calls
begin

text \<open>
  All threads that lock ranges of one file, as a step relation: a step is what one thread does while it holds
  \<^verbatim>\<open>z_range_lock\<close>. The theorems about \<^verbatim>\<open>zfswrap/zfs_rlock.c\<close> are about the states that can be reached so.
\<close>

subsection \<open>Threads\<close>

text \<open>
  A caller inside \<^verbatim>\<open>zfs_range_lock()\<close>: its structure, its local variables, and the condition variable it sleeps on,
  if it sleeps.
\<close>

record rl_req =
  q_lock :: rl_ptr
  q_off :: u64
  q_len :: u64
  q_wait :: "rl_cv option"

record rl_sys =
  sys_zp :: znode
  sys_reqs :: "rl_req list"
  sys_held :: "rl_ptr list"

definition rl_turn :: "znode \<Rightarrow> rl_req \<Rightarrow> (znode \<times> rl_ptr option) option" where
  "rl_turn zp q =
     (if r_type (rl_at zp (q_lock q)) = RL_READER then zfs_range_lock_reader zp (q_lock q)
      else Some (zfs_range_lock_writer zp (q_lock q) (q_off q) (q_len q)))"

definition rl_wake :: "rl_cv list \<Rightarrow> rl_req \<Rightarrow> rl_req" where
  "rl_wake woken q =
     (case q_wait q of Some cv \<Rightarrow> if cv \<in> set woken then q\<lparr>q_wait := None\<rparr> else q | None \<Rightarrow> q)"

definition clamp :: "u64 \<Rightarrow> u64 \<Rightarrow> u64" where
  "clamp off len = (if len + off < off then - 1 - off else len)"

text \<open>
  What callers may ask for: some bytes, not beginning at the very last offset; an append is shorter than the
  largest file. Counts are 32-bit, so there are fewer holders than that.
\<close>

definition may_lock :: "rl_sys \<Rightarrow> u64 \<Rightarrow> u64 \<Rightarrow> rl_type \<Rightarrow> bool" where
  "may_lock s off len ty \<longleftrightarrow> len \<noteq> 0 \<and> off \<noteq> - 1 \<and> (ty = RL_APPEND \<longrightarrow> unat len < 2 ^ 63) \<and> length (sys_held s) < 2 ^ 32 - 1"

definition granted :: "znode \<Rightarrow> rl_ptr \<Rightarrow> rl_sys \<Rightarrow> rl_sys" where
  "granted zp new s = s\<lparr>sys_zp := zp, sys_held := new # sys_held s\<rparr>"

definition woken :: "znode \<Rightarrow> rl_cv list \<Rightarrow> rl_sys \<Rightarrow> rl_sys" where
  "woken zp wk s = s\<lparr>sys_zp := zp, sys_reqs := map (rl_wake wk) (sys_reqs s)\<rparr>"

inductive rl_step :: "rl_sys \<Rightarrow> rl_sys \<Rightarrow> bool" where
  lock: "zfs_range_lock (sys_zp s) off len ty = Some (zp, new, None) \<Longrightarrow> may_lock s off len ty \<Longrightarrow>
    rl_step s (granted zp new s)"
| lock_wait: "zfs_range_lock (sys_zp s) off len ty = Some (zp, new, Some p) \<Longrightarrow> may_lock s off len ty \<Longrightarrow>
    rl_step s (s\<lparr>sys_zp := zp,
      sys_reqs := \<lparr>q_lock = new, q_off = off, q_len = clamp off len, q_wait = Some (p, ty \<noteq> RL_READER)\<rparr> # sys_reqs s\<rparr>)"
| turn: "sys_reqs s = qs @ q # qs' \<Longrightarrow> q_wait q = None \<Longrightarrow> length (sys_held s) < 2 ^ 32 - 1 \<Longrightarrow>
    rl_turn (sys_zp s) q = Some (zp, None) \<Longrightarrow>
    rl_step s (granted zp (q_lock q) (s\<lparr>sys_reqs := qs @ qs'\<rparr>))"
| turn_wait: "sys_reqs s = qs @ q # qs' \<Longrightarrow> q_wait q = None \<Longrightarrow> length (sys_held s) < 2 ^ 32 - 1 \<Longrightarrow>
    rl_turn (sys_zp s) q = Some (zp, Some p) \<Longrightarrow> rd = (r_type (rl_at (sys_zp s) (q_lock q)) = RL_READER) \<Longrightarrow>
    rl_step s (s\<lparr>sys_zp := zp, sys_reqs := qs @ q\<lparr>q_wait := Some (p, \<not> rd)\<rparr> # qs'\<rparr>)"
| unlock: "h \<in> set (sys_held s) \<Longrightarrow> zfs_range_unlock (sys_zp s) h = Some (zp, wk) \<Longrightarrow>
    rl_step s (woken zp wk (s\<lparr>sys_held := remove1 h (sys_held s)\<rparr>))"
| reduce: "h \<in> set (sys_held s) \<Longrightarrow> length (inorder (z_range_avl (sys_zp s))) = 1 \<Longrightarrow>
    r_off (rl_at (sys_zp s) h) = 0 \<Longrightarrow> r_len (rl_at (sys_zp s) h) = - 1 \<Longrightarrow> r_type (rl_at (sys_zp s) h) = RL_WRITER \<Longrightarrow>
    len \<noteq> 0 \<Longrightarrow> unat off + unat len < 2 ^ 64 \<Longrightarrow> zfs_range_reduce (sys_zp s) h off len = (zp, wk) \<Longrightarrow>
    rl_step s (woken zp wk s)"
| spurious: "sys_reqs s = qs @ q # qs' \<Longrightarrow> rl_step s (s\<lparr>sys_reqs := qs @ q\<lparr>q_wait := None\<rparr> # qs'\<rparr>)"
| resize: "unat sz < 2 ^ 63 \<Longrightarrow> rl_step s (s\<lparr>sys_zp := (sys_zp s)\<lparr>zp_size := sz, z_blksz := blk\<rparr>\<rparr>)"

definition rl_init :: "rl_sys \<Rightarrow> bool" where
  "rl_init s \<longleftrightarrow> z_range_avl (sys_zp s) = Null \<and> rl_mem (sys_zp s) = (\<lambda>_. None) \<and> sys_reqs s = [] \<and> sys_held s = []
     \<and> unat (zp_size (sys_zp s)) < 2 ^ 63"

inductive rl_reachable :: "rl_sys \<Rightarrow> bool" where
  init: "rl_init s \<Longrightarrow> rl_reachable s"
| step: "rl_reachable s \<Longrightarrow> rl_step s s' \<Longrightarrow> rl_reachable s'"

subsection \<open>The invariant\<close>

definition req_ok :: "rl_req \<Rightarrow> rl \<Rightarrow> bool" where
  "req_ok q r \<longleftrightarrow> \<not> r_proxy r \<and> r_cnt r = 1 \<and> q_len q \<noteq> 0 \<and> unat (q_off q) + unat (q_len q) < 2 ^ 64
     \<and> (r_type r = RL_READER \<longrightarrow> r_off r = q_off q \<and> r_len r = q_len q)
     \<and> (r_type r = RL_APPEND \<longrightarrow> unat (q_len q) < 2 ^ 63)"

definition waits :: "rl_req list \<Rightarrow> rl_cv set" where
  "waits qs = {cv. \<exists>q\<in>set qs. q_wait q = Some cv}"

definition sys_inv :: "(rl_ptr \<Rightarrow> rl option) \<Rightarrow> (rl_ptr \<Rightarrow> rl option) \<Rightarrow> rl_sys \<Rightarrow> bool" where
  "sys_inv H Q s \<longleftrightarrow> core H Q (waits (sys_reqs s)) (holders H) (sys_zp s)
     \<and> dom H = set (sys_held s) \<and> distinct (sys_held s)
     \<and> dom Q = q_lock ` set (sys_reqs s) \<and> distinct (map q_lock (sys_reqs s))
     \<and> (\<forall>q\<in>set (sys_reqs s). \<forall>r. Q (q_lock q) = Some r \<longrightarrow> req_ok q r)
     \<and> unat (zp_size (sys_zp s)) < 2 ^ 63"

lemma waits_simps [simp]:
  "waits [] = {}" "waits (qs @ qs') = waits qs \<union> waits qs'" "waits (q # qs) = set_option (q_wait q) \<union> waits qs"
  by (auto simp: waits_def)

lemma sys_invD:
  assumes "sys_inv H Q s"
  shows inv_core: "core H Q (waits (sys_reqs s)) (holders H) (sys_zp s)"
    and inv_held: "dom H = set (sys_held s)" "distinct (sys_held s)"
    and inv_reqs: "dom Q = q_lock ` set (sys_reqs s)" "distinct (map q_lock (sys_reqs s))"
    and inv_req: "q \<in> set (sys_reqs s) \<Longrightarrow> Q (q_lock q) = Some r \<Longrightarrow> req_ok q r"
    and inv_size: "unat (zp_size (sys_zp s)) < 2 ^ 63"
  using assms unfolding sys_inv_def by blast+

lemma holders_card: "finite (dom H) \<Longrightarrow> holders H b \<le> card (dom H)"
  unfolding holders_def by (rule card_mono) auto

text \<open>No count overflows.\<close>

lemma inv_counts:
  assumes I: "sys_inv H Q s" and n: "length (sys_held s) < 2 ^ 32 - 1" and x: "x \<in> set (rl_nodes (sys_zp s))"
  shows "unat (r_cnt (rl_at (sys_zp s) x)) < 2 ^ 32 - 1"
proof -
  note C = inv_core [OF I]
  have "within (lo (rl_at (sys_zp s) x)) (rl_at (sys_zp s) x)" using core_good [OF C x] by (simp add: good_def)
  then have "unat (r_cnt (rl_at (sys_zp s) x)) = holders H (lo (rl_at (sys_zp s) x))" using core_count [OF C x] by simp
  also have "\<dots> \<le> card (dom H)" by (rule holders_card [OF holders_finite [OF C]])
  also have "\<dots> = length (sys_held s)" using inv_held [OF I] by (simp add: distinct_card)
  finally show ?thesis using n by simp
qed

lemma unat_max: "unat (- 1 :: u64) = 2 ^ 64 - 1"
  by (simp add: unsigned_minus_1_eq_mask mask_eq_exp_minus_1)

lemma clamp_ok:
  assumes "len \<noteq> 0" "off \<noteq> - 1"
  shows "clamp off len \<noteq> 0" "unat off + unat (clamp off len) < 2 ^ 64" "unat (clamp off len) \<le> unat len"
proof -
  have "clamp off len \<noteq> 0 \<and> unat off + unat (clamp off len) < 2 ^ 64 \<and> unat (clamp off len) \<le> unat len"
  proof (cases "len + off < off")
    case True
    have m: "unat (- 1 - off) = 2 ^ 64 - 1 - unat off" by (simp add: unat_sub unat_max)
    have o: "unat off < 2 ^ 64" "unat len < 2 ^ 64" using unsigned_less [of off, where ?'a = nat] unsigned_less [of len, where ?'a = nat] by simp_all
    have "- 1 - off \<noteq> 0" using assms(2) by (metis right_minus_eq)
    moreover have "2 ^ 64 \<le> unat len + unat off"
    proof (rule ccontr)
      assume "\<not> 2 ^ 64 \<le> unat len + unat off"
      then have "unat (len + off) = unat len + unat off" by (simp add: unat_word_ariths)
      then show False using True by (simp add: word_less_nat_alt)
    qed
    ultimately show ?thesis using True m o by (simp add: clamp_def)
  next
    case False
    have "unat off + unat len < 2 ^ 64"
    proof (rule ccontr)
      assume c: "\<not> unat off + unat len < 2 ^ 64"
      have o: "unat off < 2 ^ 64" "unat len < 2 ^ 64" using unsigned_less [of off, where ?'a = nat] unsigned_less [of len, where ?'a = nat] by simp_all
      have "unat (len + off) = unat len + unat off - 2 ^ 64" using c o by (simp add: unat_word_ariths mod_if)
      then show False using False c o by (simp add: word_less_nat_alt)
    qed
    then show ?thesis using False assms(1) by (simp add: clamp_def)
  qed
  then show "clamp off len \<noteq> 0" "unat off + unat (clamp off len) < 2 ^ 64" "unat (clamp off len) \<le> unat len" by blast+
qed

lemma writer_range_ok:
  assumes "unat (zp_size zp) < 2 ^ 63" "req_ok q (rl_at zp (q_lock q))" "writer_range zp (q_lock q) (q_off q) (q_len q) = (off, len)"
  shows "len \<noteq> 0" "unat off + unat len < 2 ^ 64"
proof -
  have "len \<noteq> 0 \<and> unat off + unat len < 2 ^ 64"
    using assms by (auto simp: writer_range_def req_ok_def Let_def unat_max split: if_splits)
  then show "len \<noteq> 0" "unat off + unat len < 2 ^ 64" by blast+
qed


subsection \<open>The steps\<close>

text \<open>What a granted lock has to be for a request.\<close>

definition serves :: "znode \<Rightarrow> u64 \<Rightarrow> u64 \<Rightarrow> rl_type \<Rightarrow> rl \<Rightarrow> bool" where
  "serves zp off len ty g \<longleftrightarrow>
     (let start = (if ty = RL_APPEND \<and> z_vnode zp then zp_size zp else off)
      in lo g \<le> unat start \<and> unat start + unat len \<le> hi g
         \<and> (if ty = RL_READER then r_type g = RL_READER \<and> r_off g = off \<and> r_len g = len else r_type g = RL_WRITER))"

lemma turn_core:
  assumes C: "core H Q W c zp" and q: "Q (q_lock q) = Some r" "req_ok q r" and sz: "unat (zp_size zp) < 2 ^ 63"
    and cnt: "\<And>x. x \<in> set (rl_nodes zp) \<Longrightarrow> unat (r_cnt (rl_at zp x)) < 2 ^ 32 - 1"
  obtains zp' wt where "rl_turn zp q = Some (zp', wt)" "env zp' = env zp"
    "wt = None \<Longrightarrow> \<exists>g. core (H(q_lock q \<mapsto> g)) (Q(q_lock q := None)) W (\<lambda>b. c b + ind (lo g) (hi g) b) zp'
       \<and> serves zp (q_off q) (q_len q) (r_type r) g"
    "\<And>p. wt = Some p \<Longrightarrow> \<exists>r'. core H (Q(q_lock q \<mapsto> r')) (insert (p, r_type r \<noteq> RL_READER) W) c zp'
       \<and> req_ok q r' \<and> p \<in> set (rl_nodes zp)"
proof (cases "r_type r = RL_READER")
  case True
  have at: "rl_at zp (q_lock q) = r" by (rule core_req_at [OF C q(1)])
  have r: "r_off r = q_off q" "r_len r = q_len q" "q_len q \<noteq> 0" "unat (q_off q) + unat (q_len q) < 2 ^ 64" "\<not> r_proxy r" "r_cnt r = 1"
    using q(2) True by (auto simp: req_ok_def)
  then have g: "good r" by (simp add: good_def lo_def hi_def unat_gt_0)
  obtain zp' wt where run: "zfs_range_lock_reader zp (q_lock q) = Some (zp', wt)" "env zp' = env zp"
    "wt = None \<Longrightarrow> core (H(q_lock q \<mapsto> r)) (Q(q_lock q := None)) W (\<lambda>b. c b + ind (lo r) (hi r) b) zp'"
    "\<And>p. wt = Some p \<Longrightarrow> core H Q (insert (p, False) W) c zp' \<and> p \<in> set (rl_nodes zp) \<and> overlap (rl_at zp p) r"
    by (rule lock_reader_core [OF C q(1) g True r(5,6) cnt]) (assumption | rule that)+
  have s: "serves zp (q_off q) (q_len q) (r_type r) r" using True r by (simp add: serves_def lo_def hi_def)
  have Q: "Q(q_lock q \<mapsto> r) = Q" using q(1) by auto
  show thesis
    by (rule that [of zp' wt]) (use run s q True in \<open>auto simp: rl_turn_def at Q intro!: exI [of _ r]\<close>)
next
  case False
  have at: "rl_at zp (q_lock q) = r" by (rule core_req_at [OF C q(1)])
  obtain off len where range: "writer_range zp (q_lock q) (q_off q) (q_len q) = (off, len)" by fastforce
  obtain zp' wt where run: "zfs_range_lock_writer zp (q_lock q) (q_off q) (q_len q) = (zp', wt)" by fastforce
  have "req_ok q (rl_at zp (q_lock q))" using q(2) at by simp
  note ok = writer_range_ok [OF sz this range]
  define g where "g = r\<lparr>r_off := off, r_len := len, r_type := RL_WRITER\<rparr>"
  have r: "\<not> r_proxy r" "r_cnt r = 1" using q(2) by (auto simp: req_ok_def)
  note L = lock_writer_core [OF C q(1) r range ok g_def run]
  have s: "serves zp (q_off q) (q_len q) (r_type r) g"
    using range q(2) False sz by (auto simp: serves_def g_def writer_range_def at Let_def lo_def hi_def unat_max req_ok_def split: if_splits)
  have r': "req_ok q (r\<lparr>r_off := off, r_len := len\<rparr>)" using q(2) False by (simp add: req_ok_def)
  show thesis
    by (rule that [of zp' wt]) (use L s r' False run in \<open>auto simp: rl_turn_def at\<close>)
qed


lemma lock_core:
  assumes C: "core H Q W c zp" and a: "len \<noteq> 0" "off \<noteq> - 1" "ty = RL_APPEND \<Longrightarrow> unat len < 2 ^ 63"
    and sz: "unat (zp_size zp) < 2 ^ 63"
    and cnt: "\<And>x. x \<in> set (rl_nodes zp) \<Longrightarrow> unat (r_cnt (rl_at zp x)) < 2 ^ 32 - 1"
  obtains zp' new wt where "zfs_range_lock zp off len ty = Some (zp', new, wt)" "env zp' = env zp" "new = rl_brk zp"
    "wt = None \<Longrightarrow> \<exists>g. core (H(new \<mapsto> g)) Q W (\<lambda>b. c b + ind (lo g) (hi g) b) zp' \<and> serves zp off (clamp off len) ty g"
    "\<And>p. wt = Some p \<Longrightarrow> \<exists>r. core H (Q(new \<mapsto> r)) (insert (p, ty \<noteq> RL_READER) W) c zp'
       \<and> req_ok \<lparr>q_lock = new, q_off = off, q_len = clamp off len, q_wait = w\<rparr> r"
proof -
  define r where "r = \<lparr>r_off = off, r_len = clamp off len, r_cnt = 1, r_type = ty, r_proxy = False,
    r_write_wanted = False, r_read_wanted = False\<rparr>"
  obtain zp1 new where al: "rl_alloc r zp = (zp1, new)" by fastforce
  note A = core_alloc [OF C al]
  define q where "q = \<lparr>q_lock = new, q_off = off, q_len = clamp off len, q_wait = w\<rparr>"
  have q: "(Q(new \<mapsto> r)) (q_lock q) = Some r" "req_ok q r"
    using clamp_ok [OF a(1,2)] a(3) by (auto simp: q_def r_def req_ok_def)
  have env: "unat (zp_size zp1) < 2 ^ 63" "serves zp1 = serves zp"
    using A(4) sz by (auto simp: env_def serves_def fun_eq_iff)
  have fresh: "new \<notin> set (rl_nodes zp)" "Q new = None" "H new = None" using core_fresh [OF C] A(2) by auto
  have cnt1: "unat (r_cnt (rl_at zp1 x)) < 2 ^ 32 - 1" if "x \<in> set (rl_nodes zp1)" for x
    using cnt [of x] that fresh A(3,5) by (metis (no_types))
  have Q: "Q(new := None) = Q" using fresh by auto
  have run: "zfs_range_lock zp off len ty = map_option (\<lambda>(zp, wt). (zp, new, wt))
     (if ty = RL_READER \<and> z_range_avl zp1 = Null then Some (rl_avl_add new zp1, None) else rl_turn zp1 q)"
  proof -
    have at: "r_type (rl_at zp1 new) = ty" using A(6) by (simp add: r_def)
    show ?thesis
      using al [unfolded r_def] at by (cases "ty = RL_READER")
        (simp_all add: zfs_range_lock_def clamp_def [symmetric] Let_def rl_turn_def q_def)
  qed
  show thesis
  proof (cases "ty = RL_READER \<and> z_range_avl zp1 = Null")
    case True
    have g: "good r" using clamp_ok [OF a(1,2)] by (simp add: r_def good_def lo_def hi_def unat_gt_0)
    have ok: "node_ok (Some r) r" using g True by (simp add: node_ok_def agrees_def r_def)
    have N: "rl_nodes zp1 = [] @ []" using True by simp
    have z: "rl_nodes (rl_avl_add new zp1) = [] @ new # []" "balanced (z_range_avl (rl_avl_add new zp1))"
      using add_in_place [OF N] A(6) g True by simp_all
    have "core (H(new \<mapsto> r)) (Q(new \<mapsto> r, new := None)) W (\<lambda>b. c b + ind (lo r) (hi r) b) (rl_avl_add new zp1)"
      by (rule core_enter [OF A(1) N _ ok _ _ _ z])
        (use holders_add [OF holders_finite [OF C] fresh(3)] core_holders [OF C] in \<open>auto simp: r_def\<close>)
    moreover have "serves zp off (clamp off len) ty r" using True by (simp add: serves_def r_def lo_def hi_def)
    ultimately show thesis using that [of "rl_avl_add new zp1" new None] run True A(2,4) Q by auto
  next
    case False
    have ty: "r_type r = ty" by (simp add: r_def)
    obtain zp' wt where t: "rl_turn zp1 q = Some (zp', wt)" "env zp' = env zp1"
      "wt = None \<Longrightarrow> \<exists>g. core (H(q_lock q \<mapsto> g)) (Q(new \<mapsto> r, q_lock q := None)) W (\<lambda>b. c b + ind (lo g) (hi g) b) zp'
        \<and> serves zp1 (q_off q) (q_len q) (r_type r) g"
      "\<And>p. wt = Some p \<Longrightarrow> \<exists>r'. core H (Q(new \<mapsto> r, q_lock q \<mapsto> r')) (insert (p, r_type r \<noteq> RL_READER) W) c zp'
        \<and> req_ok q r' \<and> p \<in> set (rl_nodes zp1)"
      by (rule turn_core [OF A(1) q env(1) cnt1]) (assumption | rule that)+
    show thesis
      by (rule that [of zp' new wt]) (use run False t A(2,4) Q env(2) ty in \<open>auto simp: q_def\<close>)
  qed
qed

lemma rl_wake_simps [simp]:
  "q_lock (rl_wake wk q) = q_lock q" "req_ok (rl_wake wk q) r = req_ok q r"
  "q_off (rl_wake wk q) = q_off q" "q_len (rl_wake wk q) = q_len q"
  by (auto simp: rl_wake_def req_ok_def split: option.split)

lemma waits_wake: "waits (map (rl_wake wk) qs) = {x \<in> waits qs. x \<notin> set wk}"
proof (induction qs)
  case (Cons q qs)
  then show ?case by (cases "q_wait q") (auto simp: rl_wake_def)
qed simp

lemma env_size: "env zp' = env zp \<Longrightarrow> zp_size zp' = zp_size zp"
  by (simp add: env_def)

text \<open>A lock is added to, or taken from, the granted ones.\<close>

lemma granted_inv:
  assumes I: "sys_inv H Q s" and new: "H new = None"
    and C: "core (H(new \<mapsto> g)) Q' (waits qs) (\<lambda>b. holders H b + ind (lo g) (hi g) b) zp" and sz: "env zp = env (sys_zp s)"
    and qs: "dom Q' = q_lock ` set qs" "distinct (map q_lock qs)" "\<And>q r. q \<in> set qs \<Longrightarrow> Q' (q_lock q) = Some r \<Longrightarrow> req_ok q r"
  shows "sys_inv (H(new \<mapsto> g)) Q' (granted zp new (s\<lparr>sys_reqs := qs\<rparr>))"
proof -
  have "core (H(new \<mapsto> g)) Q' (waits qs) (holders (H(new \<mapsto> g))) zp"
    by (rule core_cong [OF C]) (rule holders_add [OF holders_finite [OF inv_core [OF I]] new])
  moreover have "new \<notin> set (sys_held s)" using new inv_held(1) [OF I] by blast
  ultimately show ?thesis
    using inv_held [OF I] inv_size [OF I] env_size [OF sz] qs by (auto simp: sys_inv_def granted_def)
qed

lemma released_holders:
  assumes "finite (dom H)" "H h = Some g"
  shows "holders (H(h := None)) b = holders H b - ind (lo g) (hi g) b"
proof -
  have "H = H(h := None, h \<mapsto> g)" using assms(2) by auto
  then show ?thesis using holders_add [of "H(h := None)" h g b] assms(1) by simp
qed

lemma woken_inv:
  assumes I: "sys_inv H Q s" and C: "core H' Q {x \<in> waits (sys_reqs s). x \<notin> set wk} (holders H') zp" and sz: "env zp = env (sys_zp s)"
    and H': "dom H' = set hs" "distinct hs"
  shows "sys_inv H' Q (woken zp wk (s\<lparr>sys_held := hs\<rparr>))"
  using C H' inv_reqs [OF I] inv_req [OF I] inv_size [OF I] env_size [OF sz]
  by (auto simp: sys_inv_def woken_def waits_wake image_image comp_def)


lemma lock_inv:
  assumes I: "sys_inv H Q s" and ok: "may_lock s off len ty"
  obtains zp new wt where "zfs_range_lock (sys_zp s) off len ty = Some (zp, new, wt)"
    "wt = None \<Longrightarrow> \<exists>H'. sys_inv H' Q (granted zp new s) \<and> (\<exists>g. H' new = Some g \<and> serves (sys_zp s) off (clamp off len) ty g)"
    "\<And>p. wt = Some p \<Longrightarrow> \<exists>Q'. sys_inv H Q' (s\<lparr>sys_zp := zp,
      sys_reqs := \<lparr>q_lock = new, q_off = off, q_len = clamp off len, q_wait = Some (p, ty \<noteq> RL_READER)\<rparr> # sys_reqs s\<rparr>)"
proof -
  note C = inv_core [OF I]
  have a: "len \<noteq> 0" "off \<noteq> - 1" "ty = RL_APPEND \<Longrightarrow> unat len < 2 ^ 63" "length (sys_held s) < 2 ^ 32 - 1"
    using ok by (auto simp: may_lock_def)
  obtain zp new wt where run: "zfs_range_lock (sys_zp s) off len ty = Some (zp, new, wt)" "env zp = env (sys_zp s)" "new = rl_brk (sys_zp s)"
    and now: "wt = None \<Longrightarrow> \<exists>g. core (H(new \<mapsto> g)) Q (waits (sys_reqs s)) (\<lambda>b. holders H b + ind (lo g) (hi g) b) zp
        \<and> serves (sys_zp s) off (clamp off len) ty g"
    and wait: "\<And>p. wt = Some p \<Longrightarrow> \<exists>r. core H (Q(new \<mapsto> r)) (insert (p, ty \<noteq> RL_READER) (waits (sys_reqs s))) (holders H) zp
        \<and> req_ok \<lparr>q_lock = new, q_off = off, q_len = clamp off len, q_wait = None\<rparr> r"
    by (rule lock_core [OF C a(1-3) inv_size [OF I] inv_counts [OF I a(4)], where w = None]) (assumption | rule that)+
  have fresh: "H new = None" "Q new = None" using core_fresh [OF C] run(3) by auto
  then have other: "new \<notin> q_lock ` set (sys_reqs s)" using inv_reqs(1) [OF I] by blast
  have G: "\<exists>H'. sys_inv H' Q (granted zp new s) \<and> (\<exists>g. H' new = Some g \<and> serves (sys_zp s) off (clamp off len) ty g)" if n: "wt = None"
  proof -
    obtain g where g: "core (H(new \<mapsto> g)) Q (waits (sys_reqs s)) (\<lambda>b. holders H b + ind (lo g) (hi g) b) zp"
      "serves (sys_zp s) off (clamp off len) ty g" using now [OF n] by blast
    show ?thesis
      using granted_inv [OF I fresh(1) g(1) run(2) inv_reqs [OF I] inv_req [OF I]] g(2) by auto
  qed
  have "\<exists>Q'. sys_inv H Q' (s\<lparr>sys_zp := zp,
      sys_reqs := \<lparr>q_lock = new, q_off = off, q_len = clamp off len, q_wait = Some (p, ty \<noteq> RL_READER)\<rparr> # sys_reqs s\<rparr>)" if n: "wt = Some p" for p
  proof -
    obtain r where r: "core H (Q(new \<mapsto> r)) (insert (p, ty \<noteq> RL_READER) (waits (sys_reqs s))) (holders H) zp"
      "req_ok \<lparr>q_lock = new, q_off = off, q_len = clamp off len, q_wait = None\<rparr> r" using wait [OF n] by blast
    have reqs: "req_ok q r'" if "q \<in> set (sys_reqs s)" "(Q(new \<mapsto> r)) (q_lock q) = Some r'" for q r'
      using inv_req [OF I that(1)] that other by (auto split: if_splits)
    have "sys_inv H (Q(new \<mapsto> r)) (s\<lparr>sys_zp := zp,
      sys_reqs := \<lparr>q_lock = new, q_off = off, q_len = clamp off len, q_wait = Some (p, ty \<noteq> RL_READER)\<rparr> # sys_reqs s\<rparr>)"
      using r reqs other inv_held [OF I] inv_reqs [OF I] inv_size [OF I] env_size [OF run(2)] by (auto simp: sys_inv_def req_ok_def)
    then show ?thesis by blast
  qed
  then show thesis using that [OF run(1)] G by blast
qed

lemma turn_inv:
  assumes I: "sys_inv H Q s" and n: "length (sys_held s) < 2 ^ 32 - 1" and s: "sys_reqs s = qs @ q # qs'" "q_wait q = None"
  obtains zp wt where "rl_turn (sys_zp s) q = Some (zp, wt)"
    "wt = None \<Longrightarrow> \<exists>H' Q'. sys_inv H' Q' (granted zp (q_lock q) (s\<lparr>sys_reqs := qs @ qs'\<rparr>))"
    "\<And>p. wt = Some p \<Longrightarrow> p \<in> set (rl_nodes (sys_zp s)) \<and> (\<exists>Q'. sys_inv H Q' (s\<lparr>sys_zp := zp,
       sys_reqs := qs @ q\<lparr>q_wait := Some (p, r_type (rl_at (sys_zp s) (q_lock q)) \<noteq> RL_READER)\<rparr> # qs'\<rparr>))"
proof -
  note C = inv_core [OF I]
  have qin: "q \<in> set (sys_reqs s)" using s(1) by simp
  then obtain r where r: "Q (q_lock q) = Some r" using inv_reqs(1) [OF I] by blast
  have at: "rl_at (sys_zp s) (q_lock q) = r" by (rule core_req_at [OF C r])
  obtain zp wt where run: "rl_turn (sys_zp s) q = Some (zp, wt)" "env zp = env (sys_zp s)"
    and now: "wt = None \<Longrightarrow> \<exists>g. core (H(q_lock q \<mapsto> g)) (Q(q_lock q := None)) (waits (sys_reqs s)) (\<lambda>b. holders H b + ind (lo g) (hi g) b) zp
        \<and> serves (sys_zp s) (q_off q) (q_len q) (r_type r) g"
    and wait: "\<And>p. wt = Some p \<Longrightarrow> \<exists>r'. core H (Q(q_lock q \<mapsto> r')) (insert (p, r_type r \<noteq> RL_READER) (waits (sys_reqs s))) (holders H) zp
        \<and> req_ok q r' \<and> p \<in> set (rl_nodes (sys_zp s))"
    by (rule turn_core [OF C r inv_req [OF I qin r] inv_size [OF I] inv_counts [OF I n]]) (assumption | rule that)+
  have new: "H (q_lock q) = None" using core_req [OF C r] by blast
  have d: "q_lock q \<notin> q_lock ` set (qs @ qs')" "distinct (map q_lock (qs @ qs'))" using inv_reqs(2) [OF I] s(1) by auto
  have others: "req_ok x r'" if "x \<in> set (qs @ qs')" "Q (q_lock x) = Some r'" for x r'
    using inv_req [OF I _ that(2)] that(1) s(1) by auto
  have dom: "dom Q = insert (q_lock q) (q_lock ` set (qs @ qs'))" using inv_reqs(1) [OF I] s(1) by auto
  have w: "waits (sys_reqs s) = waits (qs @ qs')" using s by simp
  have G: "\<exists>H' Q'. sys_inv H' Q' (granted zp (q_lock q) (s\<lparr>sys_reqs := qs @ qs'\<rparr>))" if n: "wt = None"
  proof -
    obtain g where "core (H(q_lock q \<mapsto> g)) (Q(q_lock q := None)) (waits (qs @ qs')) (\<lambda>b. holders H b + ind (lo g) (hi g) b) zp"
      using now [OF n] unfolding w by blast
    moreover have "dom (Q(q_lock q := None)) = q_lock ` set (qs @ qs')" using dom d(1) by auto
    moreover have "req_ok x r'" if "x \<in> set (qs @ qs')" "(Q(q_lock q := None)) (q_lock x) = Some r'" for x r'
      using others [OF that(1)] that(2) by (simp split: if_splits)
    ultimately have "sys_inv (H(q_lock q \<mapsto> g)) (Q(q_lock q := None)) (granted zp (q_lock q) (s\<lparr>sys_reqs := qs @ qs'\<rparr>))"
      using granted_inv [OF I new _ run(2) _ d(2)] by blast
    then show ?thesis by blast
  qed
  have "p \<in> set (rl_nodes (sys_zp s)) \<and> (\<exists>Q'. sys_inv H Q' (s\<lparr>sys_zp := zp,
       sys_reqs := qs @ q\<lparr>q_wait := Some (p, r_type (rl_at (sys_zp s) (q_lock q)) \<noteq> RL_READER)\<rparr> # qs'\<rparr>))" if n: "wt = Some p" for p
  proof -
    obtain r' where r': "core H (Q(q_lock q \<mapsto> r')) (insert (p, r_type r \<noteq> RL_READER) (waits (qs @ qs'))) (holders H) zp"
      "req_ok q r'" "p \<in> set (rl_nodes (sys_zp s))" using wait [OF n] unfolding w by blast
    have reqs: "req_ok x r''" if "x \<in> set (qs @ qs')" "(Q(q_lock q \<mapsto> r')) (q_lock x) = Some r''" for x r''
    proof -
      have "q_lock x \<noteq> q_lock q" using that(1) d(1) by (metis imageI)
      then show ?thesis using others [OF that(1)] that(2) by simp
    qed
    have "sys_inv H (Q(q_lock q \<mapsto> r')) (s\<lparr>sys_zp := zp,
       sys_reqs := qs @ q\<lparr>q_wait := Some (p, r_type r \<noteq> RL_READER)\<rparr> # qs'\<rparr>)"
      using r' reqs d dom inv_held [OF I] inv_size [OF I] env_size [OF run(2)] by (auto simp: sys_inv_def req_ok_def)
    then show ?thesis using r'(3) at by auto
  qed
  then show thesis using that [OF run(1)] G by blast
qed


lemma unlock_inv:
  assumes I: "sys_inv H Q s" and h: "h \<in> set (sys_held s)"
  obtains zp wk H' where "zfs_range_unlock (sys_zp s) h = Some (zp, wk)"
    "sys_inv H' Q (woken zp wk (s\<lparr>sys_held := remove1 h (sys_held s)\<rparr>))"
proof -
  note C = inv_core [OF I]
  obtain g where g: "H h = Some g" using h inv_held(1) [OF I] by blast
  note rel = released_holders [OF holders_finite [OF C] g]
  obtain zp wk where u: "zfs_range_unlock (sys_zp s) h = Some (zp, wk)" "env zp = env (sys_zp s)"
    "core (H(h := None)) Q {x \<in> waits (sys_reqs s). x \<notin> set wk} (\<lambda>b. holders H b - ind (lo g) (hi g) b) zp"
    using unlock_core [OF C g] rel by auto
  have "core (H(h := None)) Q {x \<in> waits (sys_reqs s). x \<notin> set wk} (holders (H(h := None))) zp"
    by (rule core_cong [OF u(3) rel])
  then have "sys_inv (H(h := None)) Q (woken zp wk (s\<lparr>sys_held := remove1 h (sys_held s)\<rparr>))"
    by (rule woken_inv [OF I _ u(2)]) (use inv_held [OF I] in simp_all)
  then show thesis by (rule that [OF u(1)])
qed

lemma core_held:
  assumes C: "core H Q W c zp" and h: "H h = Some g"
  shows "agrees g (rl_at zp h)" "good (rl_at zp h)" "r_type g = RL_WRITER \<Longrightarrow> h \<in> set (rl_nodes zp) \<and> r_cnt (rl_at zp h) = 1"
    "lo (rl_at zp h) = lo g" "hi (rl_at zp h) = hi g"
proof -
  have "agrees g (rl_at zp h) \<and> good (rl_at zp h) \<and> (r_type g = RL_WRITER \<longrightarrow> h \<in> set (rl_nodes zp) \<and> r_cnt (rl_at zp h) = 1)"
    using core_node(2) [OF C, of h] core_off(2) [OF C h] h
    by (cases "h \<in> set (rl_nodes zp)") (auto simp: node_ok_def off_tree_def agrees_def)
  then show "agrees g (rl_at zp h)" "good (rl_at zp h)" "r_type g = RL_WRITER \<Longrightarrow> h \<in> set (rl_nodes zp) \<and> r_cnt (rl_at zp h) = 1"
    "lo (rl_at zp h) = lo g" "hi (rl_at zp h) = hi g" using agrees_range [of g "rl_at zp h"] by auto
qed

lemma core_exclusion:
  assumes C: "core H Q W (holders H) zp" and h: "H h = Some g" "H h' = Some g'" "h \<noteq> h'" "r_type g = RL_WRITER"
  shows "\<not> overlap g g'"
proof
  assume "overlap g g'"
  then have b: "within (max (lo g) (lo g')) g" "within (max (lo g) (lo g')) g'"
    using core_held(2,4,5) [OF C h(1)] core_held(2,4,5) [OF C h(2)] by (auto simp: overlap_def good_def)
  then have "holders H (max (lo g) (lo g')) = 1"
    using core_count [OF C, of h] core_held(3-5) [OF C h(1)] h(4) by simp
  moreover have "holders H (max (lo g) (lo g')) = holders (H(h := None)) (max (lo g) (lo g')) + 1"
    using holders_add [of "H(h := None)" h g "max (lo g) (lo g')"] holders_finite [OF C] h(1) b(1) by (simp add: ind_def fun_upd_idem)
  moreover have "0 < holders (H(h := None)) (max (lo g) (lo g'))"
    unfolding holders_def card_gt_0_iff
    using holders_set_finite [of "H(h := None)" "max (lo g) (lo g')"] holders_finite [OF C] h(2,3) b(2) by auto
  ultimately show False by simp
qed

lemma reduce_inv:
  assumes I: "sys_inv H Q s" and h: "h \<in> set (sys_held s)" and N: "length (rl_nodes (sys_zp s)) = 1"
    and all: "r_off (rl_at (sys_zp s) h) = 0" "r_len (rl_at (sys_zp s) h) = - 1" "r_type (rl_at (sys_zp s) h) = RL_WRITER"
    and new: "len \<noteq> 0" "unat off + unat len < 2 ^ 64" and run: "zfs_range_reduce (sys_zp s) h off len = (zp, wk)"
  shows "\<exists>H'. sys_inv H' Q (woken zp wk s)"
proof -
  note C = inv_core [OF I]
  obtain g where g: "H h = Some g" using h inv_held(1) [OF I] by blast
  have "lo (rl_at (sys_zp s) h) = 0" "hi (rl_at (sys_zp s) h) = 2 ^ 64 - 1" using all(1,2) by (simp_all add: lo_def hi_def unat_max)
  then have w: "r_type g = RL_WRITER" "lo g = 0" "hi g = 2 ^ 64 - 1" using core_held(1,4,5) [OF C g] all(3) by (simp_all add: agrees_def)
  have "h' = h" if "H h' = Some g'" for h' g'
  proof (rule ccontr)
    assume "h' \<noteq> h"
    then have "\<not> overlap g g'" using core_exclusion [OF C g that _ w(1)] by blast
    moreover have "lo g' < hi g'" "hi g' < 2 ^ 64" using core_held(2,4,5) [OF C that] by (simp_all add: good_def)
    ultimately show False using w(2,3) by (simp add: overlap_def)
  qed
  then have alone: "dom H = {h}" using g by blast
  have nodes: "rl_nodes (sys_zp s) = [h]" using N core_held(3) [OF C g w(1)] by (auto simp: length_Suc_conv)
  define g' where "g' = g\<lparr>r_off := off, r_len := len\<rparr>"
  have "good g'" using new by (simp add: g'_def good_def lo_def hi_def unat_gt_0)
  note R = reduce_core [OF C g nodes alone g'_def this run]
  have e: "H(h := None) = Map.empty" using alone by (metis Diff_cancel dom_eq_empty_conv dom_fun_upd)
  have "holders (H(h \<mapsto> g')) b = ind (lo g') (hi g') b" for b
  proof -
    have "H(h \<mapsto> g') = [h \<mapsto> g']" using e by (metis fun_upd_upd)
    moreover have "holders Map.empty b = 0" by (simp add: holders_def)
    ultimately show ?thesis using holders_add [of Map.empty h g' b] by simp
  qed
  then have "core (H(h \<mapsto> g')) Q {x \<in> waits (sys_reqs s). x \<notin> set wk} (holders (H(h \<mapsto> g'))) zp" by (rule core_cong [OF R(2)])
  then have "sys_inv (H(h \<mapsto> g')) Q (woken zp wk (s\<lparr>sys_held := sys_held s\<rparr>))"
    by (rule woken_inv [OF I _ R(1)]) (use alone inv_held [OF I] in auto)
  then show ?thesis by auto
qed

lemma core_env: "core H Q W c (zp\<lparr>zp_size := sz, z_blksz := blk\<rparr>) = core H Q W c zp"
proof -
  have at: "rl_at (zp\<lparr>zp_size := sz, z_blksz := blk\<rparr>) = rl_at zp" by (simp add: rl_at_def fun_eq_iff)
  show ?thesis unfolding core_def cov_def ordered_def starts_def [abs_def] ends_def [abs_def] at by simp
qed

lemma step_inv:
  assumes "rl_step s s'" "sys_inv H Q s"
  shows "\<exists>H' Q'. sys_inv H' Q' s'"
  using assms
proof (cases rule: rl_step.cases)
  case (lock off len ty zp new)
  show ?thesis by (rule lock_inv [OF assms(2) lock(3)]) (use lock in auto)
next
  case (lock_wait off len ty zp new p)
  show ?thesis by (rule lock_inv [OF assms(2) lock_wait(3)]) (use lock_wait in auto)
next
  case (turn qs q qs' zp)
  show ?thesis by (rule turn_inv [OF assms(2) turn(4,2,3)]) (use turn in auto)
next
  case (turn_wait qs q qs' zp p rd)
  show ?thesis by (rule turn_inv [OF assms(2) turn_wait(4,2,3)]) (use turn_wait in auto)
next
  case (unlock h zp wk)
  show ?thesis by (rule unlock_inv [OF assms(2) unlock(2)]) (use unlock in auto)
next
  case (reduce h len off zp wk)
  then show ?thesis using reduce_inv [OF assms(2)] by blast
next
  case (spurious qs q qs')
  have "core H Q (waits (qs @ q\<lparr>q_wait := None\<rparr> # qs')) (holders H) (sys_zp s)"
    by (rule core_fewer_waits [OF inv_core [OF assms(2)]]) (use spurious in auto)
  then have "sys_inv H Q s'" using assms(2) spurious by (auto simp: sys_inv_def req_ok_def)
  then show ?thesis by blast
next
  case (resize sz blk)
  then show ?thesis using assms(2) by (auto simp: sys_inv_def core_env)
qed

lemma init_inv: "rl_init s \<Longrightarrow> sys_inv Map.empty Map.empty s"
  by (simp add: rl_init_def sys_inv_def core_def holders_def starts_def)

lemma reachable_inv: "rl_reachable s \<Longrightarrow> \<exists>H Q. sys_inv H Q s"
  by (induction rule: rl_reachable.induct) (use init_inv step_inv in blast)+

end
