(* ===== verification/Rlock_Theorems.thy ===== *)
theory Rlock_Theorems
  imports Rlock_System
begin

text \<open>
  The theorems about file range locks, and a run on which they are seen at work: one thread reads bytes 5 to 14 of a file,
  a second wants to write bytes 10 to 29 and waits, the first lets go.
\<close>

subsection \<open>A run\<close>

definition run_range :: "u64 \<Rightarrow> u64 \<Rightarrow> rl_type \<Rightarrow> bool \<Rightarrow> rl" where
  "run_range off len ty ww = \<lparr>r_off = off, r_len = len, r_cnt = 1, r_type = ty, r_proxy = False, r_write_wanted = ww, r_read_wanted = False\<rparr>"

definition run_znode :: "rl_ptr atree \<Rightarrow> (rl_ptr \<Rightarrow> rl option) \<Rightarrow> rl_ptr \<Rightarrow> znode" where
  "run_znode t m n = \<lparr>z_range_avl = t, rl_mem = m, rl_brk = n, z_vnode = False, zp_size = 0, z_blksz = 512, z_max_blksz = 131072\<rparr>"

definition run_start :: rl_sys where
  "run_start = \<lparr>sys_zp = run_znode Null Map.empty 0, sys_reqs = [], sys_held = []\<rparr>"

definition run_read :: rl_sys where
  "run_read = \<lparr>sys_zp = run_znode (Node Null 0 0 Null) [0 \<mapsto> run_range 5 10 RL_READER False] 1, sys_reqs = [], sys_held = [0]\<rparr>"

definition run_beside :: rl_sys where
  "run_beside = \<lparr>sys_zp = run_znode (Node Null 0 1 (Node Null 1 0 Null))
      [0 \<mapsto> run_range 5 10 RL_READER False, 1 \<mapsto> run_range 20 20 RL_WRITER False] 2, sys_reqs = [], sys_held = [1, 0]\<rparr>"

definition run_request :: "rl_cv option \<Rightarrow> rl_req" where
  "run_request wt = \<lparr>q_lock = 1, q_off = 10, q_len = 20, q_wait = wt\<rparr>"

definition run_wait :: rl_sys where
  "run_wait = \<lparr>sys_zp = run_znode (Node Null 0 0 Null) [1 \<mapsto> run_range 10 20 RL_WRITER False, 0 \<mapsto> run_range 5 10 RL_READER True] 2,
     sys_reqs = [run_request (Some (0, True))], sys_held = [0]\<rparr>"

definition run_free :: rl_sys where
  "run_free = \<lparr>sys_zp = run_znode Null [1 \<mapsto> run_range 10 20 RL_WRITER False] 2, sys_reqs = [run_request None], sys_held = []\<rparr>"

lemmas run_defs = run_range_def run_znode_def run_start_def run_read_def run_beside_def run_request_def run_wait_def run_free_def

lemmas run_eval =
  zfs_range_lock_def zfs_range_lock_writer_def zfs_range_lock_reader_def writer_range_def writer_conflict_def
  zfs_range_unlock_def zfs_range_unlock_reader_def rl_wakeups_def
  rl_alloc_def rl_free_def rl_upd_def rl_at_def rl_avl_add_def rl_avl_find_def rl_avl_insert_def rl_avl_remove_def zfs_range_compare_def
  tree_add_def tree_insert_def tree_nearest_def tree_walk_def tree_remove_def mk_def child2balance_def
  granted_def woken_def rl_wake_def clamp_def may_lock_def

lemma run_start_reachable: "rl_reachable run_start"
  by (rule rl_reachable.init) (simp add: rl_init_def run_defs)

lemma run_read_reachable: "rl_reachable run_read"
proof (rule rl_reachable.step [OF run_start_reachable])
  have "rl_step run_start (granted (sys_zp run_read) 0 run_start)"
    by (rule rl_step.lock [of _ 5 10 RL_READER]) (simp_all add: run_defs run_eval Let_def)
  then show "rl_step run_start run_read" by (simp add: run_defs granted_def)
qed

lemma run_beside_reachable: "rl_reachable run_beside"
proof (rule rl_reachable.step [OF run_read_reachable])
  have "rl_step run_read (granted (sys_zp run_beside) 1 run_read)"
    by (rule rl_step.lock [of _ 20 20 RL_WRITER]) (simp_all add: run_defs run_eval Let_def)
  then show "rl_step run_read run_beside" by (simp add: run_defs granted_def)
qed

lemma run_wait_reachable: "rl_reachable run_wait"
proof (rule rl_reachable.step [OF run_read_reachable])
  have "zfs_range_lock (sys_zp run_read) 10 20 RL_WRITER = Some (sys_zp run_wait, 1, Some 0)" "may_lock run_read 10 20 RL_WRITER"
    by (simp_all add: run_defs run_eval Let_def)
  from rl_step.lock_wait [OF this] show "rl_step run_read run_wait" by (simp add: run_defs clamp_def)
qed

lemma run_free_reachable: "rl_reachable run_free"
proof (rule rl_reachable.step [OF run_wait_reachable])
  have "0 \<in> set (sys_held run_wait)" "zfs_range_unlock (sys_zp run_wait) 0 = Some (sys_zp run_free, [(0, True)])"
    by (simp_all add: run_defs run_eval Let_def)
  from rl_step.unlock [OF this] show "rl_step run_wait run_free" by (simp add: run_defs woken_def rl_wake_def)
qed

text \<open>A second reader, of bytes 10 to 29, shares bytes 10 to 14: the first range is split and both halves become proxies.\<close>

lemma run_share: "\<exists>zp. zfs_range_lock (sys_zp run_read) 10 20 RL_READER = Some (zp, 1, None)"
  by (simp add: run_defs run_eval Let_def reader_conflict_def tree_visit_def zfs_range_add_reader_def reader_start_def
      zfs_range_split_def zfs_range_proxify_def zfs_range_new_proxy_def new_proxy_def tree_insert_here_def slot_beside_def
      add_reader_loop.simps fill_gap_def add_reader_end_def rl_bump_def)

subsection \<open>What holds in every reachable state\<close>

lemma agrees_serves: "agrees g r \<Longrightarrow> serves zp off len ty g \<Longrightarrow> serves zp off len ty r"
  using agrees_range [of g r] by (auto simp: serves_def agrees_def Let_def split: if_splits)

lemma node_held:
  assumes I: "sys_inv H Q s" and p: "p \<in> set (rl_nodes (sys_zp s))"
  shows "\<exists>h\<in>set (sys_held s). overlap (rl_at (sys_zp s) h) (rl_at (sys_zp s) p)"
proof -
  note C = inv_core [OF I]
  have w: "within (lo (rl_at (sys_zp s) p)) (rl_at (sys_zp s) p)" using core_good [OF C p] by (simp add: good_def)
  then have "holders H (lo (rl_at (sys_zp s) p)) \<noteq> 0"
    using core_count [OF C p w] core_node(2) [OF C p] by (simp add: node_ok_def unat_eq_0)
  then obtain h g where h: "H h = Some g" "within (lo (rl_at (sys_zp s) p)) g" unfolding holders_def by (auto simp: card_eq_0_iff)
  then have "overlap (rl_at (sys_zp s) h) (rl_at (sys_zp s) p)" using core_held(4,5) [OF C h(1)] w by (simp add: overlap_def)
  then show ?thesis using h(1) inv_held(1) [OF I] by blast
qed

text \<open>
  (C2) Mutual exclusion: in every state the threads of a file can reach, the range of a lock held for writing has no byte
  in common with the range of any other lock held, whatever was split, proxied or reduced on the way.
\<close>

theorem range_lock_exclusion:
  assumes "rl_reachable s" "h \<in> set (sys_held s)" "h' \<in> set (sys_held s)" "h \<noteq> h'" "r_type (rl_at (sys_zp s) h) = RL_WRITER"
  shows "\<not> overlap (rl_at (sys_zp s) h) (rl_at (sys_zp s) h')"
proof -
  obtain H Q where I: "sys_inv H Q s" using reachable_inv [OF assms(1)] by blast
  note C = inv_core [OF I]
  obtain g g' where g: "H h = Some g" "H h' = Some g'" using assms(2,3) inv_held(1) [OF I] by blast
  have "r_type g = RL_WRITER" using core_held(1) [OF C g(1)] assms(5) by (simp add: agrees_def)
  from core_exclusion [OF C g assms(4) this] show ?thesis
    using core_held(4,5) [OF C g(1)] core_held(4,5) [OF C g(2)] by (simp add: overlap_def)
qed

theorem range_lock_exclusion_witness:
  "1 \<in> set (sys_held run_beside) \<and> 0 \<in> set (sys_held run_beside) \<and> r_type (rl_at (sys_zp run_beside) 1) = RL_WRITER
   \<and> \<not> overlap (rl_at (sys_zp run_beside) 1) (rl_at (sys_zp run_beside) 0)"
  using range_lock_exclusion [OF run_beside_reachable, of 1 0] by (simp add: run_defs rl_at_def)

text \<open>
  (C9) \<^verbatim>\<open>zfs_range_lock()\<close> always returns from its loops, in every reachable state and for every request; if it
  grants the lock at once, a reader has exactly the bytes it asked for (up to the largest offset), a writer at least those, and
  an append at least that many bytes from the current end of the file.
\<close>

theorem range_lock_serves:
  assumes "rl_reachable s" "may_lock s off len ty"
  shows "\<exists>zp new wt. zfs_range_lock (sys_zp s) off len ty = Some (zp, new, wt)
     \<and> (wt = None \<longrightarrow> serves (sys_zp s) off (clamp off len) ty (rl_at zp new))"
proof -
  obtain H Q where I: "sys_inv H Q s" using reachable_inv [OF assms(1)] by blast
  obtain zp new wt where run: "zfs_range_lock (sys_zp s) off len ty = Some (zp, new, wt)"
    and now: "wt = None \<Longrightarrow> \<exists>H'. sys_inv H' Q (granted zp new s) \<and> (\<exists>g. H' new = Some g \<and> serves (sys_zp s) off (clamp off len) ty g)"
    by (rule lock_inv [OF I assms(2)]) (rule that)
  have "serves (sys_zp s) off (clamp off len) ty (rl_at zp new)" if n: "wt = None"
  proof -
    obtain H' g where H': "sys_inv H' Q (granted zp new s)" "H' new = Some g" "serves (sys_zp s) off (clamp off len) ty g"
      using now [OF n] by blast
    show ?thesis using agrees_serves [OF core_held(1) [OF inv_core [OF H'(1)] H'(2)] H'(3)] by (simp add: granted_def)
  qed
  then show ?thesis using run by blast
qed

theorem range_lock_serves_witness:
  "may_lock run_read 10 20 RL_READER
   \<and> (\<exists>zp. zfs_range_lock (sys_zp run_read) 10 20 RL_READER = Some (zp, 1, None)
        \<and> serves (sys_zp run_read) 10 (clamp 10 20) RL_READER (rl_at zp 1))"
proof -
  have "may_lock run_read 10 20 RL_READER" by (simp add: run_defs may_lock_def)
  then show ?thesis using range_lock_serves [OF run_read_reachable] run_share by fastforce
qed

text \<open>
  (C8) No wake-up is lost: whoever sleeps in \<^verbatim>\<open>zfs_range_lock()\<close> sleeps on a lock that is still in the tree, whose flag for such
  sleepers is set, and that overlaps a lock somebody holds, so that an unlock to come signals it.
\<close>

theorem range_lock_no_lost_wakeup:
  assumes "rl_reachable s" "q \<in> set (sys_reqs s)" "q_wait q = Some (p, w)"
  shows "p \<in> set (inorder (z_range_avl (sys_zp s))) \<and> wanted w (rl_at (sys_zp s) p)
    \<and> (\<exists>h\<in>set (sys_held s). overlap (rl_at (sys_zp s) h) (rl_at (sys_zp s) p))"
proof -
  obtain H Q where I: "sys_inv H Q s" using reachable_inv [OF assms(1)] by blast
  have "(p, w) \<in> waits (sys_reqs s)" using assms(2,3) by (auto simp: waits_def)
  then have "p \<in> set (rl_nodes (sys_zp s)) \<and> wanted w (rl_at (sys_zp s) p)" by (rule core_waits [OF inv_core [OF I]])
  then show ?thesis using node_held [OF I] by blast
qed

theorem range_lock_no_lost_wakeup_witness:
  "wanted True (rl_at (sys_zp run_wait) 0) \<and> (\<exists>h\<in>set (sys_held run_wait). overlap (rl_at (sys_zp run_wait) h) (rl_at (sys_zp run_wait) 0))"
  using range_lock_no_lost_wakeup [OF run_wait_reachable, of "run_request (Some (0, True))" 0 True] by (simp add: run_defs)

text \<open>
  (C11) Every unlock returns, and so does every further turn of a caller that was woken: the loops over the tree end, and never
  run off its end.
\<close>

theorem range_lock_returns:
  assumes "rl_reachable s"
  shows "(\<forall>h\<in>set (sys_held s). \<exists>zp wk. zfs_range_unlock (sys_zp s) h = Some (zp, wk))
    \<and> (\<forall>q\<in>set (sys_reqs s). q_wait q = None \<longrightarrow> length (sys_held s) < 2 ^ 32 - 1 \<longrightarrow> (\<exists>zp wt. rl_turn (sys_zp s) q = Some (zp, wt)))"
proof -
  obtain H Q where I: "sys_inv H Q s" using reachable_inv [OF assms(1)] by blast
  have "\<exists>zp wk. zfs_range_unlock (sys_zp s) h = Some (zp, wk)" if "h \<in> set (sys_held s)" for h
    by (rule unlock_inv [OF I that]) blast
  moreover have "\<exists>zp wt. rl_turn (sys_zp s) q = Some (zp, wt)"
    if q: "q \<in> set (sys_reqs s)" "q_wait q = None" "length (sys_held s) < 2 ^ 32 - 1" for q
  proof -
    obtain qs qs' where "sys_reqs s = qs @ q # qs'" using split_list [OF q(1)] by blast
    then show ?thesis by (rule turn_inv [OF I q(3) _ q(2)]) blast
  qed
  ultimately show ?thesis by blast
qed

theorem range_lock_returns_witness: "\<exists>zp wk. zfs_range_unlock (sys_zp run_wait) 0 = Some (zp, wk)"
  using range_lock_returns [OF run_wait_reachable] by (simp add: run_wait_def)

text \<open>
  (C10) When nothing is held, the tree is empty, the only range structures in memory are those of the callers, none of which
  sleeps, and whichever of them goes first gets its lock.
\<close>

theorem range_lock_idle:
  assumes "rl_reachable s" "sys_held s = []"
  shows "z_range_avl (sys_zp s) = Null \<and> dom (rl_mem (sys_zp s)) = q_lock ` set (sys_reqs s)
    \<and> (\<forall>q\<in>set (sys_reqs s). q_wait q = None \<and> (\<exists>zp. rl_turn (sys_zp s) q = Some (zp, None)))"
proof -
  obtain H Q where I: "sys_inv H Q s" using reachable_inv [OF assms(1)] by blast
  note C = inv_core [OF I]
  have N: "rl_nodes (sys_zp s) = []" using node_held [OF I] assms(2) by (metis list.set_intros(1) list.exhaust empty_iff empty_set)
  have H: "dom H = {}" using inv_held(1) [OF I] assms(2) by simp
  have idle: "q_wait q = None" if "q \<in> set (sys_reqs s)" for q
  proof (cases "q_wait q")
    case (Some cv)
    then have "cv \<in> waits (sys_reqs s)" using that by (auto simp: waits_def)
    then show ?thesis using core_waits [OF C, of "fst cv" "snd cv"] N by simp
  qed
  have "\<exists>zp. rl_turn (sys_zp s) q = Some (zp, None)" if q: "q \<in> set (sys_reqs s)" for q
  proof -
    obtain qs qs' where s: "sys_reqs s = qs @ q # qs'" using split_list [OF q] by blast
    have "length (sys_held s) < 2 ^ 32 - 1" using assms(2) by simp
    then show ?thesis
    proof (rule turn_inv [OF I _ s idle [OF q]])
      fix zp wt
      assume run: "rl_turn (sys_zp s) q = Some (zp, wt)"
        and "\<And>p. wt = Some p \<Longrightarrow> p \<in> set (rl_nodes (sys_zp s)) \<and> (\<exists>Q'. sys_inv H Q' (s\<lparr>sys_zp := zp,
          sys_reqs := qs @ q\<lparr>q_wait := Some (p, r_type (rl_at (sys_zp s) (q_lock q)) \<noteq> RL_READER)\<rparr> # qs'\<rparr>))"
      then have "wt = None" using N by (cases wt) auto
      then show ?thesis using run by blast
    qed
  qed
  moreover have "z_range_avl (sys_zp s) = Null" using N by (cases "z_range_avl (sys_zp s)") auto
  ultimately show ?thesis using core_dom [OF C] N H inv_reqs(1) [OF I] idle by simp
qed

theorem range_lock_idle_witness: "\<exists>zp. rl_turn (sys_zp run_free) (run_request None) = Some (zp, None)"
  using range_lock_idle [OF run_free_reachable] by (simp add: run_free_def)

end
