(* ===== verification/Space_Ref.thy ===== *)
theory Space_Ref
  imports Block_Picker
begin

text \<open>
  Space map reference trees, \<^verbatim>\<open>lib/libzpool/space_map.c\<close>: a tree of offsets at which a reference count changes.
  Nodes at the same offset are told apart by their addresses, which the allocator chooses: \<open>kmem_alloc\<close> is a
  parameter that answers, given the addresses of the nodes in use, the address of a new one.
\<close>

record space_ref =
  sr_addr :: nat
  sr_offset :: u64
  sr_refcnt :: u64

type_synonym allocator = "nat list \<Rightarrow> nat"

definition space_map_ref_compare :: "space_ref \<Rightarrow> space_ref \<Rightarrow> int" where
  "space_map_ref_compare sr1 sr2 =
     (if sr_offset sr1 < sr_offset sr2 then - 1
      else if sr_offset sr2 < sr_offset sr1 then 1
      else if sr_addr sr1 < sr_addr sr2 then - 1
      else if sr_addr sr2 < sr_addr sr1 then 1
      else 0)"

definition space_map_ref_create :: "space_ref atree" where
  "space_map_ref_create = Null"

text \<open>The nodes freed, in the order of the teardown, and the tree left.\<close>

definition space_map_ref_destroy :: "space_ref atree \<Rightarrow> nat list \<times> space_ref atree" where
  "space_map_ref_destroy t = (map sr_addr (postorder t), Null)"

definition space_map_ref_add_node :: "allocator \<Rightarrow> u64 \<Rightarrow> u64 \<Rightarrow> space_ref atree \<Rightarrow> space_ref atree" where
  "space_map_ref_add_node kmem_alloc offset refcnt t =
     tree_add space_map_ref_compare
       \<lparr>sr_addr = kmem_alloc (map sr_addr (inorder t)), sr_offset = offset, sr_refcnt = refcnt\<rparr> t"

definition space_map_ref_add_seg :: "allocator \<Rightarrow> u64 \<Rightarrow> u64 \<Rightarrow> u64 \<Rightarrow> space_ref atree \<Rightarrow> space_ref atree" where
  "space_map_ref_add_seg kmem_alloc start fin refcnt t =
     space_map_ref_add_node kmem_alloc fin (- refcnt) (space_map_ref_add_node kmem_alloc start refcnt t)"

definition space_map_ref_add_map :: "allocator \<Rightarrow> space_map \<Rightarrow> u64 \<Rightarrow> space_ref atree \<Rightarrow> space_ref atree" where
  "space_map_ref_add_map kmem_alloc sm refcnt =
     fold (\<lambda>ss. space_map_ref_add_seg kmem_alloc (ss_start ss) (ss_end ss) refcnt)
       (tree_visit (tree_first (sm_root sm)) (sm_root sm))"

fun ref_loop :: "bool \<Rightarrow> u64 \<Rightarrow> space_ref list \<Rightarrow> u64 \<Rightarrow> u64 \<Rightarrow> space_map \<Rightarrow> space_map outcome" where
  "ref_loop zfs_recover minref [] start refcnt sm = Inr sm"
| "ref_loop zfs_recover minref (sr # srs) start refcnt sm =
    (let refcnt = refcnt + sr_refcnt sr
     in if sint minref \<le> sint refcnt
        then ref_loop zfs_recover minref srs (if start = - 1 then sr_offset sr else start) refcnt sm
        else if start \<noteq> - 1
        then
          let fin = sr_offset sr
          in bind_outcome (if start < fin then space_map_add zfs_recover sm start (fin - start) else Inr sm)
               (ref_loop zfs_recover minref srs (- 1) refcnt)
        else ref_loop zfs_recover minref srs start refcnt sm)"

definition space_map_ref_generate_map :: "bool \<Rightarrow> space_ref atree \<Rightarrow> space_map \<Rightarrow> u64 \<Rightarrow> space_map outcome" where
  "space_map_ref_generate_map zfs_recover t sm minref =
     bind_outcome (space_map_vacate None sm sm)
       (\<lambda>(sm, _). ref_loop zfs_recover minref (tree_visit (tree_first t) t) (- 1) 0 sm)"

subsection \<open>Trees and reference counts\<close>

interpretation ref_order: compare_fn space_map_ref_compare
  by unfold_locales (auto simp: space_map_ref_compare_def split: if_splits)

definition ref_ok :: "space_ref atree \<Rightarrow> bool" where
  "ref_ok t \<longleftrightarrow> balanced t \<and> sorted_wrt (\<lambda>a b. space_map_ref_compare a b < 0) (inorder t)"

text \<open>The reference count of an offset: what the nodes up to it add up to.\<close>

definition refs_sum :: "space_ref list \<Rightarrow> int" where
  "refs_sum xs = (\<Sum>sr\<leftarrow>xs. sint (sr_refcnt sr))"

definition refs_at :: "space_ref list \<Rightarrow> u64 \<Rightarrow> int" where
  "refs_at xs b = refs_sum (filter (\<lambda>sr. sr_offset sr \<le> b) xs)"

lemma refs_simps [simp]:
  "refs_sum [] = 0" "refs_sum (x # xs) = sint (sr_refcnt x) + refs_sum xs" "refs_sum (xs @ ys) = refs_sum xs + refs_sum ys"
  "refs_at [] b = 0" "refs_at (xs @ ys) b = refs_at xs b + refs_at ys b"
  "refs_at (x # xs) b = (if sr_offset x \<le> b then sint (sr_refcnt x) else 0) + refs_at xs b"
  by (simp_all add: refs_sum_def refs_at_def)


lemma sint_of_int: "- (2 ^ 63) \<le> i \<Longrightarrow> i < 2 ^ 63 \<Longrightarrow> sint (of_int i :: u64) = i"
  by (simp add: sint_sbintrunc' signed_take_bit_int_eq_self)

lemma refs_below:
  assumes "\<And>sr. sr \<in> set ps \<Longrightarrow> sr_offset sr \<le> b" "\<And>sr. sr \<in> set srs \<Longrightarrow> b < sr_offset sr"
  shows "refs_at (ps @ srs) b = refs_sum ps"
proof -
  have "filter (\<lambda>sr. sr_offset sr \<le> b) ps = ps" "filter (\<lambda>sr. sr_offset sr \<le> b) srs = []"
    using assms by (auto simp: filter_empty_conv not_le)
  then show ?thesis by (simp add: refs_at_def)
qed

subsection \<open>The generated map\<close>

text \<open>Maps of the same geometry, without a picker tree.\<close>

definition sm_like :: "space_map \<Rightarrow> space_map \<Rightarrow> bool" where
  "sm_like sm0 sm \<longleftrightarrow> sm_ok sm \<and> sm_start sm = sm_start sm0 \<and> sm_size sm = sm_size sm0 \<and> sm_shift sm = sm_shift sm0
     \<and> sm_pp_root sm = None"

text \<open>
  The loop when it has passed the nodes \<open>ps\<close> and stands at offset \<open>x\<close>: \<open>start\<close> is where the segment it is in
  began. Counts between two nodes at the same offset are of no consequence: a segment they open or close in error is empty
  or is continued by the next one.
\<close>

definition ref_inv :: "space_map \<Rightarrow> u64 \<Rightarrow> (u64 \<Rightarrow> int) \<Rightarrow> space_ref list \<Rightarrow> u64 \<Rightarrow> u64 \<Rightarrow> u64 \<Rightarrow> space_map \<Rightarrow> bool" where
  "ref_inv sm0 minref w ps x start refcnt sm \<longleftrightarrow>
     sm_like sm0 sm \<and> refcnt = of_int (refs_sum ps) \<and> (\<forall>sr\<in>set ps. sr_offset sr \<le> x)
     \<and> (if start = - 1 then sm_set sm = {b. b < x \<and> sint minref \<le> w b}
        else start \<le> x \<and> sm_set sm = {b. b < start \<and> sint minref \<le> w b} \<and> (\<forall>b. start \<le> b \<longrightarrow> b < x \<longrightarrow> sint minref \<le> w b)
          \<and> start \<in> sr_offset ` set ps)
     \<and> (if sint minref \<le> sint refcnt then start \<noteq> - 1 \<or> x = - 1 else start = - 1)"

lemma ref_inv_advance:
  assumes I: "ref_inv sm0 minref w ps x start refcnt sm" and w: "w = refs_at (ps @ srs)" "\<And>b. \<bar>w b\<bar> < 2 ^ 63"
    and y: "x \<le> y" "\<And>sr. sr \<in> set srs \<Longrightarrow> y \<le> sr_offset sr"
  shows "ref_inv sm0 minref w ps y start refcnt sm"
proof (cases "x = y")
  case False
  have b: "w b = refs_sum ps \<and> sint refcnt = refs_sum ps" if "x \<le> b" "b < y" for b
  proof -
    have "w b = refs_sum ps" unfolding w(1) by (rule refs_below) (use I y that in \<open>force simp: ref_inv_def\<close>)+
    moreover have "- (2 ^ 63) \<le> refs_sum ps" "refs_sum ps < 2 ^ 63" using w(2) [of b] calculation by linarith+
    ultimately show ?thesis using I sint_of_int by (simp add: ref_inv_def)
  qed
  have xy: "x < y" using False y(1) by simp
  then have c: "sint minref \<le> sint refcnt \<longleftrightarrow> sint minref \<le> w b" if "x \<le> b" "b < y" for b using b [OF that] by simp
  have x: "x \<noteq> - 1" using xy by (metis word_not_simps(3))
  show ?thesis
  proof (cases "start = - 1")
    case True
    then have "\<not> sint minref \<le> sint refcnt" using I x by (auto simp: ref_inv_def)
    then have "{b. b < y \<and> sint minref \<le> w b} = {b. b < x \<and> sint minref \<le> w b}"
      using c xy by (metis (lifting) leI order_less_trans)
    then show ?thesis using I True y(1) x by (auto simp: ref_inv_def)
  next
    case start: False
    then have "sint minref \<le> sint refcnt" using I by (auto simp: ref_inv_def split: if_splits)
    then have "sint minref \<le> w b" if "start \<le> b" "b < y" for b
      using c [of b] I start that by (cases "b < x") (auto simp: ref_inv_def)
    then show ?thesis using I start y(1) by (auto simp: ref_inv_def)
  qed
qed (use I in simp)


lemma sm_like_add:
  assumes sm: "sm_like sm0 sm" and y: "start < y" "sm_start sm0 \<le> start" "y \<le> sm_start sm0 + sm_size sm0"
    and align: "P2PHASE start (sm_unit sm0) = 0" "P2PHASE y (sm_unit sm0) = 0" and free: "{start..<y} \<inter> sm_set sm = {}"
  obtains sm' where "space_map_add rec sm start (y - start) = Inr sm'" "sm_like sm0 sm'" "sm_set sm' = sm_set sm \<union> {start..<y}"
proof -
  have sz: "y - start \<noteq> 0" "start + (y - start) = y" "unat (y - start) = unat y - unat start" "unat start < unat y"
    using y(1) unat_sub [OF less_imp_le [OF y(1)]] by (auto simp: word_less_nat_alt)
  have seg: "seg_set (seg_of start (y - start)) = {start..<y}" by (simp add: seg_set_def)
  have fields: "sm_ok sm" "sm_start sm = sm_start sm0" "sm_size sm = sm_size sm0" "sm_shift sm = sm_shift sm0" "sm_pp_root sm = None"
    using sm by (simp_all add: sm_like_def)
  have "unat start + unat (y - start) < 2 ^ 64" using sz(3,4) unsigned_less [of y, where ?'a = nat] by simp
  moreover have "P2PHASE (y - start) (sm_unit sm) = 0" using P2PHASE_diff [OF align(2,1)] y(1) by (simp add: fields)
  ultimately obtain sm' where "space_map_add rec sm start (y - start) = Inr sm'" "sm_ok sm'" "sm_set sm' = sm_set sm \<union> {start..<y}"
    and upd: "sm' = sm\<lparr>sm_root := sm_root sm', sm_pp_root := sm_pp_root sm', sm_space := sm_space sm'\<rparr>"
    using space_map_add_effect [OF fields(1) sz(1), of start rec] y align(1) free seg sz(2) by (auto simp: fields)
  moreover have "sm_pp_root sm' = None"
    using calculation(1) fields(5)
    by (auto simp: space_map_add_def space_map_add_link_def Let_def verify_def pp_add_def pp_remove_def pp_modify_def zfs_panic_recover_def
        split: if_splits option.splits prod.splits)
  moreover have "sm_start sm' = sm_start sm" "sm_size sm' = sm_size sm" "sm_shift sm' = sm_shift sm"
    by (subst upd, simp)+
  ultimately show thesis using that sm by (auto simp: sm_like_def)
qed


definition ref_within :: "space_map \<Rightarrow> space_ref \<Rightarrow> bool" where
  "ref_within sm sr \<longleftrightarrow> sm_start sm \<le> sr_offset sr \<and> sr_offset sr \<le> sm_start sm + sm_size sm \<and> P2PHASE (sr_offset sr) (sm_unit sm) = 0"

text \<open>One node is passed.\<close>

lemma ref_inv_step:
  assumes I: "ref_inv sm0 minref w ps (sr_offset sr) start refcnt sm" and ok: "\<forall>sr\<in>set (sr # ps). ref_within sm0 sr"
  defines "refcnt' \<equiv> refcnt + sr_refcnt sr"
  obtains (opens) "sint minref \<le> sint refcnt'"
      "ref_inv sm0 minref w (ps @ [sr]) (sr_offset sr) (if start = - 1 then sr_offset sr else start) refcnt' sm"
  | (closes) sm' where "\<not> sint minref \<le> sint refcnt'" "start \<noteq> - 1"
      "(if start < sr_offset sr then space_map_add rec sm start (sr_offset sr - start) else Inr sm) = Inr sm'"
      "ref_inv sm0 minref w (ps @ [sr]) (sr_offset sr) (- 1) refcnt' sm'"
  | (idle) "\<not> sint minref \<le> sint refcnt'" "start = - 1" "ref_inv sm0 minref w (ps @ [sr]) (sr_offset sr) start refcnt' sm"
proof -
  have cnt: "refcnt' = of_int (refs_sum (ps @ [sr]))" using I by (simp add: ref_inv_def refcnt'_def)
  consider "sint minref \<le> sint refcnt'" | "\<not> sint minref \<le> sint refcnt'" "start = - 1" | "\<not> sint minref \<le> sint refcnt'" "start \<noteq> - 1" by blast
  then show thesis
  proof cases
    case 1
    then show thesis using opens I cnt by (auto simp: ref_inv_def split: if_splits)
  next
    case 2
    then show thesis using idle I cnt by (auto simp: ref_inv_def)
  next
    case 3
    have s: "sm_like sm0 sm" "start \<le> sr_offset sr" "sm_set sm = {b. b < start \<and> sint minref \<le> w b}"
      "\<forall>b. start \<le> b \<longrightarrow> b < sr_offset sr \<longrightarrow> sint minref \<le> w b" "start \<in> sr_offset ` set ps" "\<forall>x\<in>set ps. sr_offset x \<le> sr_offset sr"
      using I 3 by (auto simp: ref_inv_def)
    have "\<exists>sm'. (if start < sr_offset sr then space_map_add rec sm start (sr_offset sr - start) else Inr sm) = Inr sm'
        \<and> sm_like sm0 sm' \<and> sm_set sm' = sm_set sm \<union> {start..<sr_offset sr}"
    proof (cases "start < sr_offset sr")
      case True
      have w: "sr_offset sr \<le> sm_start sm0 + sm_size sm0" "P2PHASE (sr_offset sr) (sm_unit sm0) = 0"
        "sm_start sm0 \<le> start" "P2PHASE start (sm_unit sm0) = 0" using ok s(5) by (auto simp: ref_within_def)
      have "{start..<sr_offset sr} \<inter> sm_set sm = {}" unfolding s(3) by auto
      then obtain sm' where "space_map_add rec sm start (sr_offset sr - start) = Inr sm'" "sm_like sm0 sm'"
          "sm_set sm' = sm_set sm \<union> {start..<sr_offset sr}"
        by (rule sm_like_add [OF s(1) True w(3,1,4,2), of rec])
      then show ?thesis using True by auto
    qed (use s(1) in auto)
    then obtain sm' where sm': "(if start < sr_offset sr then space_map_add rec sm start (sr_offset sr - start) else Inr sm) = Inr sm'"
        "sm_like sm0 sm'" "sm_set sm' = sm_set sm \<union> {start..<sr_offset sr}" by blast
    have "sm_set sm' = {b. b < sr_offset sr \<and> sint minref \<le> w b}" unfolding sm'(3) s(3) using s(2,4) by auto
    then show thesis using closes [OF 3 sm'(1)] sm'(2) cnt s(6) 3 by (auto simp: ref_inv_def)
  qed
qed

lemma ref_loop_correct:
  assumes "ref_inv sm0 minref w ps x start refcnt sm" "w = refs_at (ps @ srs)" "\<And>b. \<bar>w b\<bar> < 2 ^ 63"
    and "sorted (map sr_offset srs)" "\<forall>sr\<in>set srs. x \<le> sr_offset sr" "\<forall>sr\<in>set (ps @ srs). ref_within sm0 sr"
    and "refs_sum (ps @ srs) = 0" "0 < sint minref"
  shows "\<exists>sm'. ref_loop rec minref srs start refcnt sm = Inr sm' \<and> sm_like sm0 sm' \<and> sm_set sm' = {b. sint minref \<le> w b}"
  using assms
proof (induction srs arbitrary: ps x start refcnt sm)
  case Nil
  have "refcnt = 0" using Nil.prems(1,7) by (simp add: ref_inv_def)
  then have "start = - 1" using Nil.prems(1,8) by (simp add: ref_inv_def)
  moreover have "w b = 0" if "x \<le> b" for b
    using refs_below [of ps b "[]"] Nil.prems(1,2,7) that by (force simp: ref_inv_def)
  ultimately have "sm_set sm = {b. sint minref \<le> w b}"
    using Nil.prems(1,8) by (auto simp: ref_inv_def)
  then show ?case using Nil.prems(1) by (simp add: ref_inv_def)
next
  case (Cons sr srs)
  have I: "ref_inv sm0 minref w ps (sr_offset sr) start refcnt sm"
    by (rule ref_inv_advance [OF Cons.prems(1,2,3)]) (use Cons.prems(4,5) in auto)
  have ok: "\<forall>sr\<in>set (sr # ps). ref_within sm0 sr" using Cons.prems(6) by simp
  note IH = Cons.IH [of "ps @ [sr]" "sr_offset sr"]
  show ?case
    by (rule ref_inv_step [OF I ok, where rec = rec])
      (use IH Cons.prems in \<open>auto simp: Let_def bind_outcome_def\<close>)
qed


subsection \<open>Building the tree\<close>

text \<open>A tree in which offset \<open>b\<close> has the reference count \<open>f b\<close>.\<close>

definition counts :: "space_map \<Rightarrow> space_ref atree \<Rightarrow> (u64 \<Rightarrow> int) \<Rightarrow> bool" where
  "counts sm0 t f \<longleftrightarrow> ref_ok t \<and> (\<forall>b. refs_at (inorder t) b = f b) \<and> refs_sum (inorder t) = 0
     \<and> (\<forall>sr\<in>set (inorder t). ref_within sm0 sr)"

definition fresh_alloc :: "allocator \<Rightarrow> bool" where
  "fresh_alloc kmem_alloc \<longleftrightarrow> (\<forall>xs. kmem_alloc xs \<notin> set xs)"

lemma refs_sum_set: "distinct xs \<Longrightarrow> refs_sum xs = (\<Sum>sr\<in>set xs. sint (sr_refcnt sr))"
  by (simp add: refs_sum_def sum_list_distinct_conv_sum_set)

lemma ref_ok_distinct: "ref_ok t \<Longrightarrow> distinct (inorder t)"
  using ref_order.distinct_sorted by (auto simp: ref_ok_def)

lemma add_node_effect:
  fixes off cnt :: u64
  assumes t: "ref_ok t" and a: "fresh_alloc kmem_alloc"
  defines "t' \<equiv> space_map_ref_add_node kmem_alloc off cnt t"
  shows "ref_ok t'" "refs_sum (inorder t') = refs_sum (inorder t) + sint cnt"
    "refs_at (inorder t') b = refs_at (inorder t) b + (if off \<le> b then sint cnt else 0)"
    "\<exists>n. set (inorder t') = insert \<lparr>sr_addr = n, sr_offset = off, sr_refcnt = cnt\<rparr> (set (inorder t))"
proof -
  define sr where "sr = \<lparr>sr_addr = kmem_alloc (map sr_addr (inorder t)), sr_offset = off, sr_refcnt = cnt\<rparr>"
  have new: "\<forall>y\<in>set (inorder t). space_map_ref_compare sr y \<noteq> 0"
  proof
    fix y assume "y \<in> set (inorder t)"
    then have "sr_addr y \<in> set (map sr_addr (inorder t))" by simp
    then have "sr_addr sr \<noteq> sr_addr y" using a unfolding fresh_alloc_def sr_def by (metis space_ref.select_convs(1))
    then show "space_map_ref_compare sr y \<noteq> 0" by (auto simp: space_map_ref_compare_def)
  qed
  have t': "t' = tree_add space_map_ref_compare sr t" by (simp add: t'_def space_map_ref_add_node_def sr_def)
  have b: "balanced t" "sorted_wrt (\<lambda>a b. space_map_ref_compare a b < 0) (inorder t)" using t by (simp_all add: ref_ok_def)
  note add = ref_order.tree_add_new [OF b new]
  show ok: "ref_ok t'" using add(1,2) by (simp add: ref_ok_def t')
  note d = ref_ok_distinct [OF ok] ref_ok_distinct [OF t]
  have s: "set (inorder t') = insert sr (set (inorder t))" using add(3) by (simp add: t')
  then show "\<exists>n. set (inorder t') = insert \<lparr>sr_addr = n, sr_offset = off, sr_refcnt = cnt\<rparr> (set (inorder t))" by (auto simp: sr_def)
  have out: "sr \<notin> set (inorder t)" using new by auto
  show "refs_sum (inorder t') = refs_sum (inorder t) + sint cnt"
    using out by (simp add: refs_sum_set d s) (simp add: sr_def)
  have "{x \<in> insert sr (set (inorder t)). sr_offset x \<le> b} =
      (if off \<le> b then insert sr {x \<in> set (inorder t). sr_offset x \<le> b} else {x \<in> set (inorder t). sr_offset x \<le> b})"
    by (auto simp: sr_def)
  then show "refs_at (inorder t') b = refs_at (inorder t) b + (if off \<le> b then sint cnt else 0)"
    using out by (simp add: refs_at_def refs_sum_set d s) (simp add: sr_def)
qed

lemma sint_minus: "sint k \<noteq> - (2 ^ 63) \<Longrightarrow> sint (- k :: u64) = - sint k"
  using sint_ge [of k] sint_lt [of k] sint_of_int [of "- sint k"] by simp

lemma counts_add_seg:
  assumes C: "counts sm0 t f" and a: "fresh_alloc kmem_alloc" and k: "sint k \<noteq> - (2 ^ 63)"
    and seg: "start \<le> fin" "sm_start sm0 \<le> start" "fin \<le> sm_start sm0 + sm_size sm0"
    and align: "P2PHASE start (sm_unit sm0) = 0" "P2PHASE fin (sm_unit sm0) = 0"
  shows "counts sm0 (space_map_ref_add_seg kmem_alloc start fin k t) (\<lambda>b. f b + (if b \<in> {start..<fin} then sint k else 0))"
proof -
  define t1 where "t1 = space_map_ref_add_node kmem_alloc start k t"
  define t2 where "t2 = space_map_ref_add_node kmem_alloc fin (- k) t1"
  have t: "ref_ok t" using C by (simp add: counts_def)
  note A = add_node_effect [OF t a, of start k, folded t1_def]
  note B = add_node_effect [OF A(1) a, of fin "- k", folded t2_def]
  have within: "ref_within sm0 sr" if "sr \<in> set (inorder t2)" for sr
    using that A(4) B(4) C seg align by (auto simp: counts_def ref_within_def)
  have "refs_at (inorder t2) b = f b + (if b \<in> {start..<fin} then sint k else 0)" for b
    using A(3) [of b] B(3) [of b] C seg(1) by (auto simp: counts_def sint_minus [OF k])
  moreover have "refs_sum (inorder t2) = 0" using A(2) B(2) C by (simp add: counts_def sint_minus [OF k])
  ultimately show ?thesis using B(1) within by (simp add: counts_def space_map_ref_add_seg_def t1_def t2_def)
qed

lemma counts_add_segs:
  assumes "counts sm0 t f" "fresh_alloc kmem_alloc" "sint k \<noteq> - (2 ^ 63)"
    and "segs_ok (sm_unit sm0) (sm_start sm0) (sm_start sm0 + sm_size sm0) xs"
  shows "counts sm0 (fold (\<lambda>ss. space_map_ref_add_seg kmem_alloc (ss_start ss) (ss_end ss) k) xs t)
    (\<lambda>b. f b + (if b \<in> cover xs then sint k else 0))"
  using assms
proof (induction xs arbitrary: t f)
  case (Cons x xs)
  have x: "ss_start x \<le> ss_end x" "sm_start sm0 \<le> ss_start x" "ss_end x \<le> sm_start sm0 + sm_size sm0"
    "P2PHASE (ss_start x) (sm_unit sm0) = 0" "P2PHASE (ss_end x) (sm_unit sm0) = 0"
    and xs: "segs_ok (sm_unit sm0) (sm_start sm0) (sm_start sm0 + sm_size sm0) xs" "\<forall>y\<in>set xs. seg_gap x y"
    using Cons.prems(4) by (auto simp: segs_ok_Cons seg_ok_def)
  have "seg_set x \<inter> cover xs = {}" using xs(2) by (fastforce simp: cover_def seg_set_def seg_gap_def)
  then have e: "f b + (if b \<in> {ss_start x..<ss_end x} then sint k else 0) + (if b \<in> cover xs then sint k else 0)
      = f b + (if b \<in> cover (x # xs) then sint k else 0)" for b
    by (auto simp: seg_set_def)
  show ?case using Cons.IH [OF counts_add_seg [OF Cons.prems(1-3) x] Cons.prems(2,3) xs(1)] unfolding e by simp
qed simp

lemma counts_add_map:
  assumes "counts sm0 t f" "fresh_alloc kmem_alloc" "sint k \<noteq> - (2 ^ 63)" "sm_like sm0 sm"
  shows "counts sm0 (space_map_ref_add_map kmem_alloc sm k t) (\<lambda>b. f b + (if b \<in> sm_set sm then sint k else 0))"
proof -
  have s: "segs_ok (sm_unit sm0) (sm_start sm0) (sm_start sm0 + sm_size sm0) (segs sm)"
    using assms(4) by (auto simp: sm_like_def sm_ok_def)
  have "tree_visit (tree_first (sm_root sm)) (sm_root sm) = segs sm"
    by (rule tree_visit_first [OF segs_ok_distinct [OF s]])
  then show ?thesis using counts_add_segs [OF assms(1-3) s] by (simp add: space_map_ref_add_map_def sm_set_def)
qed

lemma counts_create: "counts sm0 space_map_ref_create (\<lambda>_. 0)"
  by (simp add: counts_def space_map_ref_create_def ref_ok_def)

lemma sm_like_vacated: "sm_like sm0 sm \<Longrightarrow> sm_like sm0 (sm_vacated sm) \<and> sm_set (sm_vacated sm) = {}"
  by (auto simp: sm_like_def sm_ok_def pp_ok_def sm_set_def)

lemma vacate_effect: "space_map_vacate None sm dest = Inr (sm_vacated sm, dest)"
proof -
  have "fold (\<lambda>ss m. bind_outcome m Inr) xs (Inr dest) = Inr dest" for xs :: "space_seg list"
    by (induction xs) (simp_all add: bind_outcome_def)
  then show ?thesis by (simp add: space_map_vacate_def bind_outcome_def)
qed

lemma generate_map_effect:
  assumes C: "counts sm0 t f" and f: "\<And>b. \<bar>f b\<bar> < 2 ^ 63" and m: "0 < sint minref" and sm: "sm_like sm0 sm"
  obtains sm' where "space_map_ref_generate_map rec t sm minref = Inr sm'" "sm_like sm0 sm'" "sm_set sm' = {b. sint minref \<le> f b}"
proof -
  have t: "ref_ok t" using C by (simp add: counts_def)
  have v: "tree_visit (tree_first t) t = inorder t" by (rule tree_visit_first [OF ref_ok_distinct [OF t]])
  have s: "sorted_wrt (\<lambda>a b. sr_offset a \<le> sr_offset b) (inorder t)"
    using t by (auto simp: ref_ok_def space_map_ref_compare_def elim!: sorted_wrt_mono_rel [rotated] split: if_splits)
  define sm1 where "sm1 = sm_vacated sm"
  have sm1: "sm_like sm0 sm1" "sm_set sm1 = {}" using sm_like_vacated [OF sm] by (simp_all add: sm1_def)
  have I: "ref_inv sm0 minref f [] 0 (- 1) 0 sm1" using sm1 m by (simp add: ref_inv_def)
  have w: "f = refs_at ([] @ inorder t)" using C by (simp add: counts_def fun_eq_iff)
  have "\<exists>sm'. ref_loop rec minref (inorder t) (- 1) 0 sm1 = Inr sm' \<and> sm_like sm0 sm' \<and> sm_set sm' = {b. sint minref \<le> f b}"
    by (rule ref_loop_correct [OF I w f]) (use s C m in \<open>auto simp: sorted_map counts_def\<close>)
  then show thesis using that by (auto simp: space_map_ref_generate_map_def vacate_effect sm1_def bind_outcome_def v)
qed


subsection \<open>Copying a map\<close>

lemma walk_segs:
  assumes "segs_ok (sm_unit sm0) (sm_start sm0) (sm_start sm0 + sm_size sm0) xs" "sm_like sm0 dest" "sm_set dest \<inter> cover xs = {}"
  shows "\<exists>dest'. fold (\<lambda>ss m. bind_outcome m (\<lambda>mdest. space_map_add rec mdest (ss_start ss) (ss_end ss - ss_start ss))) xs (Inr dest) = Inr dest'
    \<and> sm_like sm0 dest' \<and> sm_set dest' = sm_set dest \<union> cover xs"
  using assms
proof (induction xs arbitrary: dest)
  case (Cons x xs)
  have x: "ss_start x < ss_end x" "sm_start sm0 \<le> ss_start x" "ss_end x \<le> sm_start sm0 + sm_size sm0"
    "P2PHASE (ss_start x) (sm_unit sm0) = 0" "P2PHASE (ss_end x) (sm_unit sm0) = 0"
    and xs: "segs_ok (sm_unit sm0) (sm_start sm0) (sm_start sm0 + sm_size sm0) xs" "\<forall>y\<in>set xs. seg_gap x y"
    using Cons.prems(1) by (auto simp: segs_ok_Cons seg_ok_def)
  have free: "{ss_start x..<ss_end x} \<inter> sm_set dest = {}" using Cons.prems(3) by (auto simp: seg_set_def)
  obtain d where d: "space_map_add rec dest (ss_start x) (ss_end x - ss_start x) = Inr d" "sm_like sm0 d"
    "sm_set d = sm_set dest \<union> {ss_start x..<ss_end x}"
    by (rule sm_like_add [OF Cons.prems(2) x free])
  have "seg_set x \<inter> cover xs = {}" using xs(2) by (fastforce simp: cover_def seg_set_def seg_gap_def)
  then have "sm_set d \<inter> cover xs = {}" using d(3) Cons.prems(3) by (auto simp: seg_set_def)
  from Cons.IH [OF xs(1) d(2) this] show ?case using d(1,3) by (simp add: bind_outcome_def seg_set_def Un_assoc)
qed simp

lemma walk_effect:
  assumes "sm_like sm0 sm" "sm_like sm0 dest" "sm_set dest = {}"
  obtains dest' where "space_map_walk (space_map_add rec) sm dest = Inr dest'" "sm_like sm0 dest'" "sm_set dest' = sm_set sm"
proof -
  have s: "segs_ok (sm_unit sm0) (sm_start sm0) (sm_start sm0 + sm_size sm0) (segs sm)"
    using assms(1) by (auto simp: sm_like_def sm_ok_def)
  have v: "tree_visit (tree_first (sm_root sm)) (sm_root sm) = segs sm" by (rule tree_visit_first [OF segs_ok_distinct [OF s]])
  show thesis using walk_segs [OF s assms(2), of rec] assms(3) that by (auto simp: space_map_walk_def v sm_set_def [of sm])
qed

subsection \<open>The theorem\<close>

text \<open>The count of an offset when each map of a list is added with its reference count.\<close>

definition refs_of :: "(space_map \<times> u64) list \<Rightarrow> u64 \<Rightarrow> int" where
  "refs_of ms b = (\<Sum>(sm, k)\<leftarrow>ms. if b \<in> sm_set sm then sint k else 0)"

definition add_maps :: "allocator \<Rightarrow> (space_map \<times> u64) list \<Rightarrow> space_ref atree \<Rightarrow> space_ref atree" where
  "add_maps kmem_alloc ms t = fold (\<lambda>(sm, k). space_map_ref_add_map kmem_alloc sm k) ms t"

lemma add_maps_simps [simp]:
  "add_maps kmem_alloc [] t = t"
  "add_maps kmem_alloc ((sm, k) # ms) t = add_maps kmem_alloc ms (space_map_ref_add_map kmem_alloc sm k t)"
  by (simp_all add: add_maps_def)

lemma counts_add_maps:
  assumes "counts sm0 t f" "fresh_alloc kmem_alloc" "\<forall>(sm, k)\<in>set ms. sm_like sm0 sm \<and> sint k \<noteq> - (2 ^ 63)"
  shows "counts sm0 (add_maps kmem_alloc ms t) (\<lambda>b. f b + refs_of ms b)"
  using assms
proof (induction ms arbitrary: t f)
  case Nil
  then show ?case by (simp add: refs_of_def)
next
  case (Cons m ms)
  obtain sm k where m: "m = (sm, k)" by fastforce
  have "counts sm0 (space_map_ref_add_map kmem_alloc sm k t) (\<lambda>b. f b + (if b \<in> sm_set sm then sint k else 0))"
    using Cons.prems m by (intro counts_add_map) auto
  from Cons.IH [OF this Cons.prems(2)] Cons.prems(3) show ?case by (simp add: m refs_of_def add.assoc)
qed

lemma refs_of_bound: "\<bar>refs_of ms b\<bar> \<le> (\<Sum>(sm, k)\<leftarrow>ms. \<bar>sint k\<bar>)"
  by (induction ms) (auto simp: refs_of_def)

lemma sum_abs_member: "(sm, k) \<in> set ms \<Longrightarrow> \<bar>sint (k :: u64)\<bar> \<le> (\<Sum>(sm, k)\<leftarrow>ms. \<bar>sint k\<bar>)"
proof (induction ms)
  case (Cons m ms)
  have "0 \<le> (\<Sum>(sm, k)\<leftarrow>ms. \<bar>sint k\<bar>)" by (rule sum_list_nonneg) auto
  then show ?case using Cons by (cases m) auto
qed simp


definition next_address :: allocator where
  "next_address xs = Suc (sum_list xs)"

lemma next_address_fresh: "fresh_alloc next_address"
  unfolding fresh_alloc_def
proof (intro allI notI)
  fix xs assume "next_address xs \<in> set xs"
  from member_le_sum_list [OF this] show False by (simp add: next_address_def)
qed

text \<open>
  (C13) Space map reference trees compute unions, intersections and differences. Adding any list of maps of one geometry, each
  with its reference count, to an empty tree and generating a map from it succeeds, and the generated map is exactly the set
  of offsets whose counts add up to at least \<open>minref\<close>, in whatever order the allocator places nodes of equal offset.
\<close>

theorem space_map_ref_combines:
  assumes "fresh_alloc kmem_alloc" and "\<forall>(m, k)\<in>set ms. sm_like sm m" and "(\<Sum>(m, k)\<leftarrow>ms. \<bar>sint k\<bar>) < 2 ^ 63"
    and "0 < sint minref" and "sm_like sm sm"
  shows "\<exists>sm'. space_map_ref_generate_map rec
      (fold (\<lambda>(m, k). space_map_ref_add_map kmem_alloc m k) ms space_map_ref_create) sm minref = Inr sm'
    \<and> sm_like sm sm' \<and> sm_set sm' = {b. sint minref \<le> (\<Sum>(m, k)\<leftarrow>ms. if b \<in> sm_set m then sint k else 0)}"
proof -
  have "\<forall>(m, k)\<in>set ms. sm_like sm m \<and> sint k \<noteq> - (2 ^ 63)" using assms(2,3) sum_abs_member [of _ _ ms] by fastforce
  from counts_add_maps [OF counts_create assms(1) this]
  have C: "counts sm (add_maps kmem_alloc ms space_map_ref_create) (refs_of ms)" by simp
  have bound: "\<bar>refs_of ms b\<bar> < 2 ^ 63" for b using refs_of_bound [of ms b] assms(3) by linarith
  show ?thesis by (rule generate_map_effect [OF C bound assms(4,5), of rec]) (auto simp: add_maps_def refs_of_def)
qed

theorem space_map_ref_combines_witness:
  "\<exists>sm'. space_map_ref_generate_map False
      (fold (\<lambda>(m, k). space_map_ref_add_map next_address m k) [(example_seg_map, 1), (example_seg_map, 1)] space_map_ref_create)
      example_map 2 = Inr sm'
    \<and> sm_set sm' = {0x10200..<0x10800}"
proof -
  have "sm_like example_map example_map" "sm_like example_map example_seg_map"
    using example_map_ok example_seg_map_ok
    by (simp_all add: sm_like_def) (simp_all add: example_seg_map_def example_map_def space_map_create_def)
  then show ?thesis
    using space_map_ref_combines [OF next_address_fresh, of "[(example_seg_map, 1), (example_seg_map, 1)]" example_map 2 False]
      example_seg_map_ok(2) by (auto simp: atLeastLessThan_def)
qed

end
