(* ===== verification/Vdev_Dtl.thy ===== *)
theory Vdev_Dtl
  imports Space_Ref
begin

text \<open>
  Dirty time logs, \<^verbatim>\<open>lib/libzpool/vdev.c\<close>: for every virtual device of a pool, the transaction groups its data of which is
  missing, partly missing, was not repaired by the last scrub, or cannot be read at present. Each is a space map over the
  transaction group numbers; those of mirrors and RAID-Z devices are computed from those of their children.
\<close>

datatype vdev_dtl_type = DTL_MISSING | DTL_PARTIAL | DTL_SCRUB | DTL_OUTAGE

text \<open>The fields of a device that the logs depend on. A pointer is kept as whether it is null, or as the number of the device.\<close>

record vdev_info =
  vdev_guid :: nat
  vdev_is_root :: bool
  vdev_ishole :: bool
  vdev_aux :: bool
  vdev_op_leaf :: bool
  vdev_ops_missing :: bool
  vdev_state :: u64
  vdev_cant_read :: bool
  vdev_cant_write :: bool
  vdev_nparity :: u64
  vdev_dtl :: "vdev_dtl_type \<Rightarrow> space_map"

datatype vdev = Vdev (vd_info: vdev_info) (vdev_child: "vdev list")

text \<open>What the logs depend on of the pool, and the allocator of the reference trees.\<close>

record spa_env =
  spa_alloc :: allocator
  zfs_recover :: bool
  spa_scrub_started :: bool
  spa_scrub_errors :: u64

definition VDEV_STATE_DEGRADED :: u64 where
  "VDEV_STATE_DEGRADED = 6"

definition vdev_is_dead :: "vdev_info \<Rightarrow> bool" where
  "vdev_is_dead vd \<longleftrightarrow> vdev_state vd < VDEV_STATE_DEGRADED \<or> vdev_ishole vd \<or> vdev_ops_missing vd"

definition vdev_readable :: "vdev_info \<Rightarrow> bool" where
  "vdev_readable vd \<longleftrightarrow> \<not> vdev_is_dead vd \<and> \<not> vdev_cant_read vd"


abbreviation set_dtl :: "vdev_dtl_type \<Rightarrow> space_map \<Rightarrow> vdev_info \<Rightarrow> vdev_info" where
  "set_dtl t sm vd \<equiv> vd\<lparr>vdev_dtl := (vdev_dtl vd)(t := sm)\<rparr>"

definition vdev_dtl_dirty :: "spa_env \<Rightarrow> vdev_info \<Rightarrow> vdev_dtl_type \<Rightarrow> u64 \<Rightarrow> u64 \<Rightarrow> vdev_info outcome" where
  "vdev_dtl_dirty spa vd t txg sz =
     bind_outcome (space_map_contains (vdev_dtl vd t) txg sz) (\<lambda>contained.
       if contained then Inr vd
       else bind_outcome (space_map_add (zfs_recover spa) (vdev_dtl vd t) txg sz) (\<lambda>sm. Inr (set_dtl t sm vd)))"

definition vdev_dtl_contains :: "vdev_info \<Rightarrow> vdev_dtl_type \<Rightarrow> u64 \<Rightarrow> u64 \<Rightarrow> bool outcome" where
  "vdev_dtl_contains vd t txg sz =
     (if sm_space (vdev_dtl vd t) \<noteq> 0 then space_map_contains (vdev_dtl vd t) txg sz else Inr False)"

definition vdev_dtl_empty :: "vdev_info \<Rightarrow> vdev_dtl_type \<Rightarrow> bool" where
  "vdev_dtl_empty vd t \<longleftrightarrow> sm_space (vdev_dtl vd t) = 0"

subsection \<open>Reassessing\<close>

text \<open>\<^verbatim>\<open>space_map_vacate(sm, NULL, NULL)\<close> on one of the logs.\<close>

definition vacate_dtl :: "vdev_dtl_type \<Rightarrow> vdev_info \<Rightarrow> vdev_info outcome" where
  "vacate_dtl t vd = bind_outcome (space_map_vacate None (vdev_dtl vd t) (vdev_dtl vd t)) (\<lambda>(sm, _). Inr (set_dtl t sm vd))"

definition copy_dtl :: "spa_env \<Rightarrow> vdev_dtl_type \<Rightarrow> vdev_dtl_type \<Rightarrow> vdev_info \<Rightarrow> vdev_info outcome" where
  "copy_dtl spa s t vd =
     bind_outcome (space_map_walk (space_map_add (zfs_recover spa)) (vdev_dtl vd s) (vdev_dtl vd t)) (\<lambda>sm. Inr (set_dtl t sm vd))"

definition excise_scrubbed :: "spa_env \<Rightarrow> u64 \<Rightarrow> vdev_info \<Rightarrow> vdev_info outcome" where
  "excise_scrubbed spa scrub_txg vd =
    (if scrub_txg \<noteq> 0 \<and> (spa_scrub_started spa \<or> spa_scrub_errors spa = 0)
     then
       let reftree = space_map_ref_create;
           reftree = space_map_ref_add_map (spa_alloc spa) (vdev_dtl vd DTL_MISSING) 1 reftree;
           reftree = space_map_ref_add_seg (spa_alloc spa) 0 scrub_txg (- 1) reftree;
           reftree = space_map_ref_add_map (spa_alloc spa) (vdev_dtl vd DTL_SCRUB) 2 reftree
       in bind_outcome (space_map_ref_generate_map (zfs_recover spa) reftree (vdev_dtl vd DTL_MISSING) 1)
            (\<lambda>sm. Inr (set_dtl DTL_MISSING sm vd))
     else Inr vd)"

definition reassess_leaf :: "spa_env \<Rightarrow> u64 \<Rightarrow> bool \<Rightarrow> vdev_info \<Rightarrow> vdev_info outcome" where
  "reassess_leaf spa scrub_txg scrub_done vd =
    bind_outcome (excise_scrubbed spa scrub_txg vd) (\<lambda>vd.
    bind_outcome (vacate_dtl DTL_PARTIAL vd) (\<lambda>vd.
    bind_outcome (copy_dtl spa DTL_MISSING DTL_PARTIAL vd) (\<lambda>vd.
    bind_outcome (if scrub_done then vacate_dtl DTL_SCRUB vd else Inr vd) (\<lambda>vd.
    bind_outcome (vacate_dtl DTL_OUTAGE vd) (\<lambda>vd.
    if \<not> vdev_readable vd
    then bind_outcome (space_map_add (zfs_recover spa) (vdev_dtl vd DTL_OUTAGE) 0 (- 1)) (\<lambda>sm. Inr (set_dtl DTL_OUTAGE sm vd))
    else copy_dtl spa DTL_MISSING DTL_OUTAGE vd)))))"

text \<open>\<^verbatim>\<open>minref\<close> is a signed 32-bit integer, widened in the call.\<close>

definition dtl_minref :: "vdev_info \<Rightarrow> nat \<Rightarrow> vdev_dtl_type \<Rightarrow> u64" where
  "dtl_minref vd children t =
     (if t = DTL_PARTIAL then 1
      else scast (ucast (if vdev_nparity vd \<noteq> 0 then vdev_nparity vd + 1 else of_nat children) :: u32))"

definition reassess_type :: "spa_env \<Rightarrow> vdev list \<Rightarrow> vdev_dtl_type \<Rightarrow> vdev_info \<Rightarrow> vdev_info outcome" where
  "reassess_type spa cs t vd =
    (let s = (if t = DTL_MISSING then DTL_OUTAGE else t)
     in if t = DTL_SCRUB then Inr vd
        else
          let reftree = fold (\<lambda>cvd. space_map_ref_add_map (spa_alloc spa) (vdev_dtl (vd_info cvd) s) 1) cs space_map_ref_create
          in bind_outcome (space_map_ref_generate_map (zfs_recover spa) reftree (vdev_dtl vd t) (dtl_minref vd (length cs) t))
               (\<lambda>sm. Inr (set_dtl t sm vd)))"

definition reassess_interior :: "spa_env \<Rightarrow> vdev list \<Rightarrow> vdev_info \<Rightarrow> vdev_info outcome" where
  "reassess_interior spa cs vd =
     fold (\<lambda>t m. bind_outcome m (reassess_type spa cs t)) [DTL_MISSING, DTL_PARTIAL, DTL_SCRUB, DTL_OUTAGE] (Inr vd)"

text \<open>
  The second component lists the leaf devices marked dirty for their logs, \<^verbatim>\<open>vdev_dirty(vd->vdev_top, VDD_DTL, vd, txg)\<close>.
\<close>

fun vdev_dtl_reassess :: "spa_env \<Rightarrow> u64 \<Rightarrow> u64 \<Rightarrow> bool \<Rightarrow> vdev \<Rightarrow> (vdev \<times> nat list) outcome"
and reassess_children :: "spa_env \<Rightarrow> u64 \<Rightarrow> u64 \<Rightarrow> bool \<Rightarrow> vdev list \<Rightarrow> (vdev list \<times> nat list) outcome" where
  "vdev_dtl_reassess spa txg scrub_txg scrub_done (Vdev vd cs) =
     bind_outcome (reassess_children spa txg scrub_txg scrub_done cs) (\<lambda>(cs, dirty).
       if vdev_is_root vd \<or> vdev_ishole vd \<or> vdev_aux vd then Inr (Vdev vd cs, dirty)
       else if vdev_op_leaf vd
       then bind_outcome (reassess_leaf spa scrub_txg scrub_done vd) (\<lambda>vd.
              Inr (Vdev vd cs, dirty @ (if txg \<noteq> 0 then [vdev_guid vd] else [])))
       else bind_outcome (reassess_interior spa cs vd) (\<lambda>vd. Inr (Vdev vd cs, dirty)))"
| "reassess_children spa txg scrub_txg scrub_done [] = Inr ([], [])"
| "reassess_children spa txg scrub_txg scrub_done (c # cs) =
     bind_outcome (vdev_dtl_reassess spa txg scrub_txg scrub_done c) (\<lambda>(c, dirty).
     bind_outcome (reassess_children spa txg scrub_txg scrub_done cs) (\<lambda>(cs, dirty').
       Inr (c # cs, dirty @ dirty')))"

subsection \<open>What devices are needed\<close>

fun set_cant_read :: "nat \<Rightarrow> bool \<Rightarrow> vdev \<Rightarrow> vdev" where
  "set_cant_read g b (Vdev vd cs) =
     Vdev (if vdev_guid vd = g then vd\<lparr>vdev_cant_read := b\<rparr> else vd) (map (set_cant_read g b) cs)"

text \<open>
  \<open>tvd\<close> is the top-level device of the device in question, and \<open>cant_read\<close> its flag on entry.
\<close>

definition vdev_dtl_required :: "spa_env \<Rightarrow> vdev_info \<Rightarrow> vdev \<Rightarrow> (bool \<times> vdev) outcome" where
  "vdev_dtl_required spa vd tvd =
    (if vdev_is_root vd \<or> vdev_guid vd = vdev_guid (vd_info tvd) then Inr (True, tvd)
     else
       bind_outcome (vdev_dtl_reassess spa 0 0 False (set_cant_read (vdev_guid vd) True tvd)) (\<lambda>(tvd, _).
         let required = \<not> vdev_dtl_empty (vd_info tvd) DTL_OUTAGE
         in bind_outcome (vdev_dtl_reassess spa 0 0 False (set_cant_read (vdev_guid vd) (vdev_cant_read vd) tvd)) (\<lambda>(tvd, _).
              Inr (required, tvd))))"



subsection \<open>What the logs should be\<close>

abbreviation dtl_geometry :: space_map where
  "dtl_geometry \<equiv> space_map_create 0 (- 1) 0"

abbreviation dtl_set :: "vdev_info \<Rightarrow> vdev_dtl_type \<Rightarrow> u64 set" where
  "dtl_set vd t \<equiv> sm_set (vdev_dtl vd t)"

definition dtl_ok :: "vdev_info \<Rightarrow> bool" where
  "dtl_ok vd \<longleftrightarrow> (\<forall>t. sm_like dtl_geometry (vdev_dtl vd t))"

definition skipped :: "vdev_info \<Rightarrow> bool" where
  "skipped vd \<longleftrightarrow> vdev_is_root vd \<or> vdev_ishole vd \<or> vdev_aux vd"

fun vdev_ok :: "vdev \<Rightarrow> bool" where
  "vdev_ok (Vdev vd cs) \<longleftrightarrow> dtl_ok vd \<and> (\<forall>c\<in>set cs. vdev_ok c)
     \<and> (vdev_op_leaf vd \<or> skipped vd \<or> cs \<noteq> [] \<and> length cs < 2 ^ 31 \<and> unat (vdev_nparity vd) < 2 ^ 31 - 1)"

text \<open>
  A leaf: after a scrub up to \<open>scrub_txg\<close> what the scrub could not repair takes the place of what was missing before.
\<close>

definition leaf_missing :: "spa_env \<Rightarrow> u64 \<Rightarrow> vdev_info \<Rightarrow> u64 set" where
  "leaf_missing spa scrub_txg vd =
     (if scrub_txg \<noteq> 0 \<and> (spa_scrub_started spa \<or> spa_scrub_errors spa = 0)
      then dtl_set vd DTL_SCRUB \<union> {txg \<in> dtl_set vd DTL_MISSING. scrub_txg \<le> txg}
      else dtl_set vd DTL_MISSING)"

definition leaf_spec :: "spa_env \<Rightarrow> u64 \<Rightarrow> bool \<Rightarrow> vdev_info \<Rightarrow> vdev_dtl_type \<Rightarrow> u64 set" where
  "leaf_spec spa scrub_txg scrub_done vd t =
     (case t of
        DTL_MISSING \<Rightarrow> leaf_missing spa scrub_txg vd
      | DTL_PARTIAL \<Rightarrow> leaf_missing spa scrub_txg vd
      | DTL_SCRUB \<Rightarrow> if scrub_done then {} else dtl_set vd DTL_SCRUB
      | DTL_OUTAGE \<Rightarrow> if vdev_readable vd then leaf_missing spa scrub_txg vd else {0..<- 1})"

text \<open>How many children have to fail for a transaction group to be lost.\<close>

definition tolerance :: "vdev_info \<Rightarrow> nat \<Rightarrow> nat" where
  "tolerance vd children = (if vdev_nparity vd \<noteq> 0 then unat (vdev_nparity vd) + 1 else children)"

fun dtl_spec :: "spa_env \<Rightarrow> u64 \<Rightarrow> bool \<Rightarrow> vdev \<Rightarrow> vdev_dtl_type \<Rightarrow> u64 set" where
  "dtl_spec spa scrub_txg scrub_done (Vdev vd cs) t =
     (if skipped vd then dtl_set vd t
      else if vdev_op_leaf vd then leaf_spec spa scrub_txg scrub_done vd t
      else case t of
          DTL_SCRUB \<Rightarrow> dtl_set vd DTL_SCRUB
        | DTL_PARTIAL \<Rightarrow> {txg. \<exists>c\<in>set cs. txg \<in> dtl_spec spa scrub_txg scrub_done c DTL_PARTIAL}
        | _ \<Rightarrow> {txg. tolerance vd (length cs) \<le> length (filter (\<lambda>c. txg \<in> dtl_spec spa scrub_txg scrub_done c DTL_OUTAGE) cs)})"

text \<open>The devices after a reassessment: only the logs have changed, all the way down, to what they should be.\<close>

fun reassessed :: "spa_env \<Rightarrow> u64 \<Rightarrow> bool \<Rightarrow> vdev \<Rightarrow> vdev \<Rightarrow> bool" where
  "reassessed spa scrub_txg scrub_done (Vdev vd cs) v' \<longleftrightarrow>
     (\<exists>d. vd_info v' = vd\<lparr>vdev_dtl := d\<rparr>) \<and> dtl_ok (vd_info v')
     \<and> (\<forall>t. dtl_set (vd_info v') t = dtl_spec spa scrub_txg scrub_done (Vdev vd cs) t)
     \<and> list_all2 (reassessed spa scrub_txg scrub_done) cs (vdev_child v')"

fun dirty_leaves :: "u64 \<Rightarrow> vdev \<Rightarrow> nat list" where
  "dirty_leaves txg (Vdev vd cs) =
     concat (map (dirty_leaves txg) cs) @ (if vdev_op_leaf vd \<and> \<not> skipped vd \<and> txg \<noteq> 0 then [vdev_guid vd] else [])"

subsection \<open>Leaves\<close>

lemma bind_Inr [simp]: "bind_outcome (Inr x) f = f x"
  by (simp add: bind_outcome_def)

lemma dtl_okD: "dtl_ok vd \<Longrightarrow> sm_like dtl_geometry (vdev_dtl vd t)"
  by (simp add: dtl_ok_def)

lemma dtl_ok_set: "dtl_ok vd \<Longrightarrow> sm_like dtl_geometry sm \<Longrightarrow> dtl_ok (set_dtl t sm vd)"
  by (simp add: dtl_ok_def)

lemma vacate_dtl_eq [simp]: "vacate_dtl t vd = Inr (set_dtl t (sm_vacated (vdev_dtl vd t)) vd)"
  by (simp add: vacate_dtl_def vacate_effect)

lemma copy_dtl_effect:
  assumes "dtl_ok vd" "dtl_set vd t = {}"
  obtains sm where "copy_dtl spa s t vd = Inr (set_dtl t sm vd)" "sm_like dtl_geometry sm" "sm_set sm = dtl_set vd s"
proof -
  obtain sm where "space_map_walk (space_map_add (zfs_recover spa)) (vdev_dtl vd s) (vdev_dtl vd t) = Inr sm" "sm_like dtl_geometry sm"
    "sm_set sm = dtl_set vd s"
    by (rule walk_effect [OF dtl_okD [OF assms(1)] dtl_okD [OF assms(1)] assms(2)])
  then show thesis using that by (simp add: copy_dtl_def)
qed

lemma excise_effect:
  assumes ok: "dtl_ok vd" and a: "fresh_alloc (spa_alloc spa)"
  obtains sm where "excise_scrubbed spa scrub_txg vd = Inr (set_dtl DTL_MISSING sm vd)" "sm_like dtl_geometry sm"
    "sm_set sm = leaf_missing spa scrub_txg vd"
proof (cases "scrub_txg \<noteq> 0 \<and> (spa_scrub_started spa \<or> spa_scrub_errors spa = 0)")
  case True
  define t1 where "t1 = space_map_ref_add_map (spa_alloc spa) (vdev_dtl vd DTL_MISSING) 1 space_map_ref_create"
  define t2 where "t2 = space_map_ref_add_seg (spa_alloc spa) 0 scrub_txg (- 1) t1"
  define t3 where "t3 = space_map_ref_add_map (spa_alloc spa) (vdev_dtl vd DTL_SCRUB) 2 t2"
  define f where "f b = (0 + (if b \<in> dtl_set vd DTL_MISSING then sint (1 :: u64) else 0) + (if b \<in> {0..<scrub_txg} then sint (- 1 :: u64) else 0)
    + (if b \<in> dtl_set vd DTL_SCRUB then sint (2 :: u64) else 0))" for b
  have "counts dtl_geometry t1 (\<lambda>b. 0 + (if b \<in> dtl_set vd DTL_MISSING then sint (1 :: u64) else 0))"
    unfolding t1_def by (rule counts_add_map [OF counts_create a _ dtl_okD [OF ok]]) simp
  then have "counts dtl_geometry t2 (\<lambda>b. 0 + (if b \<in> dtl_set vd DTL_MISSING then sint (1 :: u64) else 0) + (if b \<in> {0..<scrub_txg} then sint (- 1 :: u64) else 0))"
    unfolding t2_def by (rule counts_add_seg [OF _ a]) (simp_all add: space_map_create_def P2PHASE_def)
  then have C: "counts dtl_geometry t3 f"
    unfolding t3_def f_def by (rule counts_add_map [OF _ a _ dtl_okD [OF ok]]) simp
  have bound: "\<bar>f b\<bar> < 2 ^ 63" for b by (simp add: f_def)
  have one: "0 < sint (1 :: u64)" by simp
  obtain sm where sm: "space_map_ref_generate_map (zfs_recover spa) t3 (vdev_dtl vd DTL_MISSING) 1 = Inr sm" "sm_like dtl_geometry sm"
    "sm_set sm = {b. sint (1 :: u64) \<le> f b}"
    by (rule generate_map_effect [OF C bound one dtl_okD [OF ok]])
  have "sm_set sm = leaf_missing spa scrub_txg vd"
    unfolding sm(3) leaf_missing_def using True by (auto simp: f_def not_less split: if_splits)
  then show thesis using that sm(1,2) True by (simp add: excise_scrubbed_def t1_def t2_def t3_def Let_def)
next
  case False
  show thesis
    by (rule that [of "vdev_dtl vd DTL_MISSING"]) (use False dtl_okD [OF ok] in \<open>auto simp: excise_scrubbed_def leaf_missing_def\<close>)
qed


lemma dtl_geometry_whole:
  assumes "sm_like dtl_geometry sm" "sm_set sm = {}"
  obtains sm' where "space_map_add rec sm 0 (- 1) = Inr sm'" "sm_like dtl_geometry sm'" "sm_set sm' = {0..<- 1}"
proof -
  have pos: "0 < (- 1 :: u64)" "sm_start dtl_geometry \<le> 0" "- 1 \<le> sm_start dtl_geometry + sm_size dtl_geometry"
    "P2PHASE 0 (sm_unit dtl_geometry) = 0" "P2PHASE (- 1) (sm_unit dtl_geometry) = 0"
    by (simp_all add: space_map_create_def P2PHASE_def word_gt_0)
  have "{0..<- 1 :: u64} \<inter> sm_set sm = {}" using assms(2) by simp
  then obtain sm' where "space_map_add rec sm 0 (- 1 - 0) = Inr sm'" "sm_like dtl_geometry sm'" "sm_set sm' = sm_set sm \<union> {0..<- 1}"
    by (rule sm_like_add [OF assms(1) pos])
  then show thesis using that assms(2) by simp
qed

lemma reassess_leaf_effect:
  assumes ok: "dtl_ok vd" and a: "fresh_alloc (spa_alloc spa)"
  obtains vd' where "reassess_leaf spa scrub_txg scrub_done vd = Inr vd'" "\<exists>d. vd' = vd\<lparr>vdev_dtl := d\<rparr>" "dtl_ok vd'"
    "\<And>t. dtl_set vd' t = leaf_spec spa scrub_txg scrub_done vd t"
proof -
  obtain m where m: "excise_scrubbed spa scrub_txg vd = Inr (set_dtl DTL_MISSING m vd)" "sm_like dtl_geometry m"
    "sm_set m = leaf_missing spa scrub_txg vd"
    by (rule excise_effect [OF ok a])
  define vd1 where "vd1 = set_dtl DTL_MISSING m vd"
  define vd2 where "vd2 = set_dtl DTL_PARTIAL (sm_vacated (vdev_dtl vd1 DTL_PARTIAL)) vd1"
  have ok1: "dtl_ok vd1" using dtl_ok_set [OF ok m(2)] by (simp add: vd1_def)
  have ok2: "dtl_ok vd2" "dtl_set vd2 DTL_PARTIAL = {}"
    using dtl_ok_set [OF ok1] sm_like_vacated [OF dtl_okD [OF ok1]] by (auto simp: vd2_def)
  obtain p where p: "copy_dtl spa DTL_MISSING DTL_PARTIAL vd2 = Inr (set_dtl DTL_PARTIAL p vd2)" "sm_like dtl_geometry p"
    "sm_set p = dtl_set vd2 DTL_MISSING"
    by (rule copy_dtl_effect [OF ok2])
  define vd3 where "vd3 = set_dtl DTL_PARTIAL p vd2"
  define vd4 where "vd4 = (if scrub_done then set_dtl DTL_SCRUB (sm_vacated (vdev_dtl vd3 DTL_SCRUB)) vd3 else vd3)"
  define vd5 where "vd5 = set_dtl DTL_OUTAGE (sm_vacated (vdev_dtl vd4 DTL_OUTAGE)) vd4"
  have ok3: "dtl_ok vd3" using dtl_ok_set [OF ok2(1) p(2)] by (simp add: vd3_def)
  have ok4: "dtl_ok vd4" using ok3 dtl_ok_set [OF ok3] sm_like_vacated [OF dtl_okD [OF ok3]] by (simp add: vd4_def)
  have ok5: "dtl_ok vd5" "dtl_set vd5 DTL_OUTAGE = {}"
    using dtl_ok_set [OF ok4] sm_like_vacated [OF dtl_okD [OF ok4]] by (auto simp: vd5_def)
  have m5: "dtl_set vd5 DTL_MISSING = leaf_missing spa scrub_txg vd"
    by (simp add: vd5_def vd4_def vd3_def vd2_def vd1_def m(3))
  have same: "vdev_readable vd5 = vdev_readable vd" "\<exists>d. vd5 = vd\<lparr>vdev_dtl := d\<rparr>"
    by (auto simp: vd5_def vd4_def vd3_def vd2_def vd1_def vdev_readable_def vdev_is_dead_def)
  obtain sm where out: "(if \<not> vdev_readable vd5
      then bind_outcome (space_map_add (zfs_recover spa) (vdev_dtl vd5 DTL_OUTAGE) 0 (- 1)) (\<lambda>sm. Inr (set_dtl DTL_OUTAGE sm vd5))
      else copy_dtl spa DTL_MISSING DTL_OUTAGE vd5) = Inr (set_dtl DTL_OUTAGE sm vd5)"
    "sm_like dtl_geometry sm" "sm_set sm = leaf_spec spa scrub_txg scrub_done vd DTL_OUTAGE"
  proof (cases "vdev_readable vd")
    case True
    obtain sm where "copy_dtl spa DTL_MISSING DTL_OUTAGE vd5 = Inr (set_dtl DTL_OUTAGE sm vd5)" "sm_like dtl_geometry sm"
      "sm_set sm = dtl_set vd5 DTL_MISSING" by (rule copy_dtl_effect [OF ok5])
    then show thesis using that True same m5 by (simp add: leaf_spec_def)
  next
    case False
    obtain sm where "space_map_add (zfs_recover spa) (vdev_dtl vd5 DTL_OUTAGE) 0 (- 1) = Inr sm" "sm_like dtl_geometry sm" "sm_set sm = {0..<- 1}"
      by (rule dtl_geometry_whole [OF dtl_okD [OF ok5(1)] ok5(2)])
    then show thesis using that False same by (simp add: leaf_spec_def)
  qed
  have run: "reassess_leaf spa scrub_txg scrub_done vd = Inr (set_dtl DTL_OUTAGE sm vd5)"
  proof -
    have "vacate_dtl DTL_PARTIAL vd1 = Inr vd2" "(if scrub_done then vacate_dtl DTL_SCRUB vd3 else Inr vd3) = Inr vd4"
      "vacate_dtl DTL_OUTAGE vd4 = Inr vd5" by (simp_all add: vd2_def vd4_def vd5_def)
    then show ?thesis
      by (simp only: reassess_leaf_def m(1) [folded vd1_def] p(1) [folded vd3_def] bind_Inr out(1))
  qed
  have sets: "dtl_set (set_dtl DTL_OUTAGE sm vd5) t = leaf_spec spa scrub_txg scrub_done vd t" for t
    using out(3) m p(3) sm_like_vacated [OF dtl_okD [OF ok3, of DTL_SCRUB]]
    by (cases t) (auto simp: leaf_spec_def vd5_def vd4_def vd3_def vd2_def vd1_def)
  show thesis by (rule that [OF run _ dtl_ok_set [OF ok5(1) out(2)] sets]) (use same(2) in auto)
qed


subsection \<open>Interior devices\<close>

lemma sint_narrow:
  assumes "unat (x :: u64) < 2 ^ 31"
  shows "sint (ucast x :: u32) = int (unat x)"
proof -
  have "int (unat x) < int (2 ^ 31)" using assms by (simp only: of_nat_less_iff)
  moreover have "- (2 ^ 31) \<le> uint x" by (rule order_trans [of _ 0]) simp_all
  ultimately have "signed_take_bit 31 (uint x) = uint x" by (intro signed_take_bit_int_eq_self) simp_all
  then show ?thesis by (simp add: signed_ucast_eq)
qed

lemma sint_widen: "sint (scast (x :: u32) :: u64) = sint x"
proof -
  have "signed_take_bit 63 (sint x) = sint x"
    using sint_ge [of x] sint_lt [of x] by (intro signed_take_bit_int_eq_self) simp_all
  then show ?thesis by (simp add: signed_scast_eq)
qed

lemma sint_minref:
  assumes "children < 2 ^ 31" "unat (vdev_nparity vd) < 2 ^ 31 - 1"
  shows "sint (dtl_minref vd children t) = int (if t = DTL_PARTIAL then 1 else tolerance vd children)"
proof -
  define x where "x = (if vdev_nparity vd \<noteq> 0 then vdev_nparity vd + 1 else of_nat children)"
  have x: "unat x = tolerance vd children" "unat x < 2 ^ 31"
    using assms by (auto simp: x_def tolerance_def unat_of_nat_small unat_word_ariths)
  have "sint (scast (ucast x :: u32) :: u64) = int (tolerance vd children)" using sint_widen sint_narrow [OF x(2)] x(1) by simp
  then show ?thesis by (simp add: dtl_minref_def x_def)
qed

lemma counts_children:
  assumes "counts dtl_geometry t f" "fresh_alloc a" "\<forall>c\<in>set cs. dtl_ok (vd_info c)"
  shows "counts dtl_geometry (fold (\<lambda>c. space_map_ref_add_map a (vdev_dtl (vd_info c) s) 1) cs t)
    (\<lambda>b. f b + int (length (filter (\<lambda>c. b \<in> dtl_set (vd_info c) s) cs)))"
  using assms
proof (induction cs arbitrary: t f)
  case (Cons c cs)
  have "counts dtl_geometry (space_map_ref_add_map a (vdev_dtl (vd_info c) s) 1 t) (\<lambda>b. f b + (if b \<in> dtl_set (vd_info c) s then sint (1 :: u64) else 0))"
    using Cons.prems by (intro counts_add_map dtl_okD) simp_all
  from Cons.IH [OF this] Cons.prems show ?case
    by (simp add: if_distrib [of int] if_distrib [of length] cong: if_cong) (rule back_subst [where P = "counts _ _"], assumption, auto)
qed simp


definition interior_spec :: "vdev list \<Rightarrow> vdev_info \<Rightarrow> vdev_dtl_type \<Rightarrow> u64 set" where
  "interior_spec cs vd t =
     (case t of
        DTL_SCRUB \<Rightarrow> dtl_set vd DTL_SCRUB
      | DTL_PARTIAL \<Rightarrow> {txg. \<exists>c\<in>set cs. txg \<in> dtl_set (vd_info c) DTL_PARTIAL}
      | _ \<Rightarrow> {txg. tolerance vd (length cs) \<le> length (filter (\<lambda>c. txg \<in> dtl_set (vd_info c) DTL_OUTAGE) cs)})"

lemma reassess_type_effect:
  assumes ok: "dtl_ok vd" and a: "fresh_alloc (spa_alloc spa)" and cs: "\<forall>c\<in>set cs. dtl_ok (vd_info c)"
    and n: "cs \<noteq> []" "length cs < 2 ^ 31" "unat (vdev_nparity vd) < 2 ^ 31 - 1"
  obtains sm where "reassess_type spa cs t vd = Inr (set_dtl t sm vd)" "sm_like dtl_geometry sm" "sm_set sm = interior_spec cs vd t"
proof (cases "t = DTL_SCRUB")
  case True
  show thesis
    by (rule that [of "vdev_dtl vd t"]) (use True dtl_okD [OF ok] in \<open>auto simp: reassess_type_def interior_spec_def\<close>)
next
  case False
  define s where "s = (if t = DTL_MISSING then DTL_OUTAGE else t)"
  define f where "f b = int (length (filter (\<lambda>c. b \<in> dtl_set (vd_info c) s) cs))" for b
  define r where "r = fold (\<lambda>cvd. space_map_ref_add_map (spa_alloc spa) (vdev_dtl (vd_info cvd) s) 1) cs space_map_ref_create"
  have C: "counts dtl_geometry r f" using counts_children [OF counts_create a cs, of s] by (simp add: r_def f_def [abs_def])
  have bound: "\<bar>f b\<bar> < 2 ^ 63" for b
    using order.strict_trans1 [OF length_filter_le [of "\<lambda>c. b \<in> dtl_set (vd_info c) s" cs] n(2)] by (simp add: f_def)
  note m = sint_minref [OF n(2,3), of t]
  have pos: "0 < sint (dtl_minref vd (length cs) t)" using n(1) by (simp add: m tolerance_def)
  obtain sm where sm: "space_map_ref_generate_map (zfs_recover spa) r (vdev_dtl vd t) (dtl_minref vd (length cs) t) = Inr sm"
    "sm_like dtl_geometry sm" "sm_set sm = {b. sint (dtl_minref vd (length cs) t) \<le> f b}"
    by (rule generate_map_effect [OF C bound pos dtl_okD [OF ok]])
  have "sm_set sm = interior_spec cs vd t"
    unfolding sm(3) m f_def of_nat_le_iff using False
    by (cases t) (simp_all add: interior_spec_def s_def Suc_le_eq filter_empty_conv)
  then show thesis using that sm(1,2) False by (simp add: reassess_type_def Let_def r_def s_def)
qed

lemma interior_spec_same:
  "vdev_nparity vd' = vdev_nparity vd \<Longrightarrow> dtl_set vd' DTL_SCRUB = dtl_set vd DTL_SCRUB \<Longrightarrow> interior_spec cs vd' t = interior_spec cs vd t"
  by (cases t) (simp_all add: interior_spec_def tolerance_def)

lemma reassess_interior_effect:
  assumes ok: "dtl_ok vd" and a: "fresh_alloc (spa_alloc spa)" and cs: "\<forall>c\<in>set cs. dtl_ok (vd_info c)"
    and n: "cs \<noteq> []" "length cs < 2 ^ 31" "unat (vdev_nparity vd) < 2 ^ 31 - 1"
  obtains vd' where "reassess_interior spa cs vd = Inr vd'" "\<exists>d. vd' = vd\<lparr>vdev_dtl := d\<rparr>" "dtl_ok vd'" "\<And>t. dtl_set vd' t = interior_spec cs vd t"
proof -
  have step: "\<exists>sm. reassess_type spa cs t v = Inr (set_dtl t sm v) \<and> dtl_ok (set_dtl t sm v) \<and> sm_set sm = interior_spec cs v t"
    if v: "dtl_ok v" "vdev_nparity v = vdev_nparity vd" for t v
  proof -
    have "unat (vdev_nparity v) < 2 ^ 31 - 1" using v(2) n(3) by simp
    then show ?thesis by (rule reassess_type_effect [OF v(1) a cs n(1,2), of t]) (use dtl_ok_set [OF v(1)] in blast)
  qed
  obtain m where m: "reassess_type spa cs DTL_MISSING vd = Inr (set_dtl DTL_MISSING m vd)" "dtl_ok (set_dtl DTL_MISSING m vd)"
    "sm_set m = interior_spec cs vd DTL_MISSING" using step [OF ok] by blast
  define v1 where "v1 = set_dtl DTL_MISSING m vd"
  obtain p where p: "reassess_type spa cs DTL_PARTIAL v1 = Inr (set_dtl DTL_PARTIAL p v1)" "dtl_ok (set_dtl DTL_PARTIAL p v1)"
    "sm_set p = interior_spec cs v1 DTL_PARTIAL" using step [of v1] m(2) by (auto simp: v1_def)
  define v2 where "v2 = set_dtl DTL_PARTIAL p v1"
  have s: "reassess_type spa cs DTL_SCRUB v2 = Inr v2" by (simp add: reassess_type_def)
  obtain q where q: "reassess_type spa cs DTL_OUTAGE v2 = Inr (set_dtl DTL_OUTAGE q v2)" "dtl_ok (set_dtl DTL_OUTAGE q v2)"
    "sm_set q = interior_spec cs v2 DTL_OUTAGE" using step [of v2] p(2) by (auto simp: v1_def v2_def)
  have "interior_spec cs v1 t = interior_spec cs vd t" "interior_spec cs v2 t = interior_spec cs vd t" for t
    by (rule interior_spec_same; simp add: v1_def v2_def)+
  then have sets: "dtl_set (set_dtl DTL_OUTAGE q v2) t = interior_spec cs vd t" for t
    using m(3) p(3) q(3) by (cases t) (simp_all add: v1_def v2_def interior_spec_def tolerance_def)
  have run: "reassess_interior spa cs vd = Inr (set_dtl DTL_OUTAGE q v2)"
    by (simp add: reassess_interior_def m(1) [folded v1_def] p(1) [folded v2_def] s q(1))
  have same: "\<exists>d. set_dtl DTL_OUTAGE q v2 = vd\<lparr>vdev_dtl := d\<rparr>" by (auto simp: v1_def v2_def)
  show thesis by (rule that [OF run same q(2) sets])
qed


subsection \<open>The whole tree\<close>

lemma dtl_spec_interior:
  assumes "\<not> skipped vd" "\<not> vdev_op_leaf vd" "list_all2 (\<lambda>c c'. \<forall>t. dtl_set (vd_info c') t = dtl_spec spa scrub_txg scrub_done c t) cs cs'"
  shows "dtl_spec spa scrub_txg scrub_done (Vdev vd cs) t = interior_spec cs' vd t"
proof -
  have "length (filter (\<lambda>c. txg \<in> dtl_set (vd_info c) s) cs') = length (filter (\<lambda>c. txg \<in> dtl_spec spa scrub_txg scrub_done c s) cs)"
    "(\<exists>c\<in>set cs'. txg \<in> dtl_set (vd_info c) s) = (\<exists>c\<in>set cs. txg \<in> dtl_spec spa scrub_txg scrub_done c s)" "length cs' = length cs" for txg s
    using assms(3) by (induction rule: list_all2_induct) auto
  then show ?thesis using assms(1,2) by (cases t) (simp_all add: interior_spec_def)
qed

lemma reassessedD:
  assumes "reassessed spa scrub_txg scrub_done c c'"
  shows "dtl_ok (vd_info c')" "\<forall>t. dtl_set (vd_info c') t = dtl_spec spa scrub_txg scrub_done c t"
  using assms by (cases c; simp)+

lemma reassessed_children_ok: "list_all2 (reassessed spa scrub_txg scrub_done) cs cs' \<Longrightarrow> \<forall>c\<in>set cs'. dtl_ok (vd_info c)"
  by (induction rule: list_all2_induct) (auto dest: reassessedD(1))

lemma reassess_children_effect:
  assumes "\<And>c. c \<in> set cs \<Longrightarrow>
      \<exists>c'. vdev_dtl_reassess spa txg scrub_txg scrub_done c = Inr (c', dirty_leaves txg c) \<and> reassessed spa scrub_txg scrub_done c c'"
  shows "\<exists>cs'. reassess_children spa txg scrub_txg scrub_done cs = Inr (cs', concat (map (dirty_leaves txg) cs))
      \<and> list_all2 (reassessed spa scrub_txg scrub_done) cs cs'"
  using assms by (induction cs) fastforce+

lemma reassess_effect:
  assumes "fresh_alloc (spa_alloc spa)" "vdev_ok v"
  shows "\<exists>v'. vdev_dtl_reassess spa txg scrub_txg scrub_done v = Inr (v', dirty_leaves txg v) \<and> reassessed spa scrub_txg scrub_done v v'"
  using assms(2)
proof (induction v)
  case (Vdev vd cs)
  have ok: "dtl_ok vd" using Vdev.prems by simp
  obtain cs' where cs': "reassess_children spa txg scrub_txg scrub_done cs = Inr (cs', concat (map (dirty_leaves txg) cs))"
    "list_all2 (reassessed spa scrub_txg scrub_done) cs cs'"
    using reassess_children_effect [of cs spa txg scrub_txg scrub_done] Vdev by auto
  consider (skip) "skipped vd" | (leaf) "\<not> skipped vd" "vdev_op_leaf vd" | (interior) "\<not> skipped vd" "\<not> vdev_op_leaf vd" by blast
  then show ?case
  proof cases
    case skip
    then show ?thesis using cs' ok by (auto simp: skipped_def intro!: exI [of _ "Vdev vd cs'"] exI [of _ "vdev_dtl vd"])
  next
    case leaf
    obtain vd' where "reassess_leaf spa scrub_txg scrub_done vd = Inr vd'" "\<exists>d. vd' = vd\<lparr>vdev_dtl := d\<rparr>" "dtl_ok vd'"
      "\<And>t. dtl_set vd' t = leaf_spec spa scrub_txg scrub_done vd t"
      by (rule reassess_leaf_effect [OF ok assms(1), of scrub_txg scrub_done]) (assumption | rule that)+
    then show ?thesis using leaf cs' by (auto simp: skipped_def intro!: exI [of _ "Vdev vd' cs'"])
  next
    case interior
    have c: "\<forall>c\<in>set cs'. dtl_ok (vd_info c)" "length cs' = length cs"
      using reassessed_children_ok [OF cs'(2)] list_all2_lengthD [OF cs'(2)] by auto
    have n: "cs' \<noteq> []" "length cs' < 2 ^ 31" "unat (vdev_nparity vd) < 2 ^ 31 - 1" using Vdev.prems interior c(2) by auto
    have "list_all2 (\<lambda>c c'. \<forall>t. dtl_set (vd_info c') t = dtl_spec spa scrub_txg scrub_done c t) cs cs'"
      using cs'(2) reassessedD(2) by (rule list_all2_mono)
    note spec = dtl_spec_interior [OF interior this]
    obtain vd' where "reassess_interior spa cs' vd = Inr vd'" "\<exists>d. vd' = vd\<lparr>vdev_dtl := d\<rparr>" "dtl_ok vd'"
      "\<And>t. dtl_set vd' t = interior_spec cs' vd t"
      by (rule reassess_interior_effect [OF ok assms(1) c(1) n]) (assumption | rule that)+
    then show ?thesis using interior cs' spec by (auto simp: skipped_def simp del: dtl_spec.simps intro!: exI [of _ "Vdev vd' cs'"])
  qed
qed


subsection \<open>Whether a device is needed\<close>

text \<open>Device \<open>g\<close> has the flag \<open>b\<close>.\<close>

fun has_cant_read :: "nat \<Rightarrow> bool \<Rightarrow> vdev \<Rightarrow> bool" where
  "has_cant_read g b (Vdev vd cs) \<longleftrightarrow> (vdev_guid vd = g \<longrightarrow> vdev_cant_read vd = b) \<and> (\<forall>c\<in>set cs. has_cant_read g b c)"

text \<open>Devices that differ only in logs a reassessment computes anew.\<close>

fun alike :: "spa_env \<Rightarrow> vdev \<Rightarrow> vdev \<Rightarrow> bool" where
  "alike spa (Vdev vd cs) v' \<longleftrightarrow>
     (\<exists>d. vd_info v' = vd\<lparr>vdev_dtl := d\<rparr>) \<and> (\<forall>t. dtl_spec spa 0 False v' t = dtl_spec spa 0 False (Vdev vd cs) t)
     \<and> list_all2 (alike spa) cs (vdev_child v')"

lemma dtl_set_cant_read [simp]:
  "dtl_ok (vd\<lparr>vdev_cant_read := b\<rparr>) = dtl_ok vd" "skipped (vd\<lparr>vdev_cant_read := b\<rparr>) = skipped vd"
  "skipped (vd\<lparr>vdev_dtl := d\<rparr>) = skipped vd" "tolerance (vd\<lparr>vdev_dtl := d\<rparr>) n = tolerance vd n" "tolerance (vd\<lparr>vdev_cant_read := b\<rparr>) n = tolerance vd n"
  "vdev_readable (vd\<lparr>vdev_dtl := d\<rparr>) = vdev_readable vd"
  by (simp_all add: dtl_ok_def skipped_def tolerance_def vdev_readable_def vdev_is_dead_def)

lemma vdev_ok_cant_read [simp]: "vdev_ok (set_cant_read g b v) = vdev_ok v"
  by (induction v) auto

lemma vdev_ok_reassessed: "vdev_ok v \<Longrightarrow> reassessed spa scrub_txg scrub_done v v' \<Longrightarrow> vdev_ok v'"
proof (induction v arbitrary: v')
  case (Vdev vd cs)
  obtain vd' cs' where v': "v' = Vdev vd' cs'" by (cases v')
  have l: "list_all2 (reassessed spa scrub_txg scrub_done) cs cs'" and vd': "dtl_ok vd'" "\<exists>d. vd' = vd\<lparr>vdev_dtl := d\<rparr>"
    using Vdev.prems(2) by (simp_all add: v')
  have "\<forall>c\<in>set cs'. vdev_ok c"
  proof
    fix c' assume "c' \<in> set cs'"
    then obtain i where i: "i < length cs'" "cs' ! i = c'" by (auto simp: in_set_conv_nth)
    then have c: "cs ! i \<in> set cs" "reassessed spa scrub_txg scrub_done (cs ! i) c'" using l by (auto simp: list_all2_conv_all_nth)
    have "vdev_ok (cs ! i)" using Vdev.prems(1) c(1) by simp
    then show "vdev_ok c'" by (rule Vdev.IH [OF c(1) _ c(2)])
  qed
  then show ?case using Vdev.prems(1) vd' list_all2_lengthD [OF l] by (auto simp: v')
qed

lemma alike_reassessed: "alike spa v w \<Longrightarrow> reassessed spa 0 False w w' \<Longrightarrow> reassessed spa 0 False v w'"
proof (induction v arbitrary: w w')
  case (Vdev vd cs)
  obtain wd ws where w: "w = Vdev wd ws" by (cases w)
  have l: "list_all2 (alike spa) cs ws" "list_all2 (reassessed spa 0 False) ws (vdev_child w')"
    using Vdev.prems by (simp_all add: w)
  have "list_all2 (reassessed spa 0 False) cs (vdev_child w')"
    unfolding list_all2_conv_all_nth
  proof (intro conjI allI impI)
    show "length cs = length (vdev_child w')" using l by (simp add: list_all2_lengthD)
    fix i assume i: "i < length cs"
    show "reassessed spa 0 False (cs ! i) (vdev_child w' ! i)"
      by (rule Vdev.IH [of _ "ws ! i"]) (use l i in \<open>auto simp: list_all2_conv_all_nth\<close>)
  qed
  moreover have "\<exists>d. vd_info w' = vd\<lparr>vdev_dtl := d\<rparr>" "dtl_ok (vd_info w')" using Vdev.prems by (auto simp: w)
  moreover have "\<forall>t. dtl_set (vd_info w') t = dtl_spec spa 0 False (Vdev vd cs) t" using Vdev.prems by (simp add: w)
  ultimately show ?case by simp
qed

lemma alike_spec: "alike spa v w \<Longrightarrow> \<forall>t. dtl_spec spa 0 False w t = dtl_spec spa 0 False v t"
  by (cases v) simp

lemma alike_restored:
  "reassessed spa 0 False (set_cant_read g True v) w \<Longrightarrow> has_cant_read g b v \<Longrightarrow> alike spa v (set_cant_read g b w)"
proof (induction v arbitrary: w)
  case (Vdev vd cs)
  obtain wd ws where w: "w = Vdev wd ws" by (cases w)
  define vd1 where "vd1 = (if vdev_guid vd = g then vd\<lparr>vdev_cant_read := True\<rparr> else vd)"
  define wd2 where "wd2 = (if vdev_guid wd = g then wd\<lparr>vdev_cant_read := b\<rparr> else wd)"
  have r: "list_all2 (reassessed spa 0 False) (map (set_cant_read g True) cs) ws" "\<exists>d. wd = vd1\<lparr>vdev_dtl := d\<rparr>"
    and sets: "\<And>t. dtl_set wd t = dtl_spec spa 0 False (Vdev vd1 (map (set_cant_read g True) cs)) t"
    using Vdev.prems(1) by (simp_all add: w vd1_def)
  obtain d where d: "wd = vd1\<lparr>vdev_dtl := d\<rparr>" using r(2) by blast
  have wd2: "wd2 = vd\<lparr>vdev_dtl := d\<rparr>" using Vdev.prems(2) by (auto simp: wd2_def d vd1_def intro!: vdev_info.equality)
  have len: "length ws = length cs" using list_all2_lengthD [OF r(1)] by simp
  have l: "list_all2 (alike spa) cs (map (set_cant_read g b) ws)"
    unfolding list_all2_conv_all_nth
  proof (intro conjI allI impI)
    show "length cs = length (map (set_cant_read g b) ws)" by (simp add: len)
    fix i assume i: "i < length cs"
    then have "reassessed spa 0 False (set_cant_read g True (cs ! i)) (ws ! i)" using r(1) by (simp add: list_all2_conv_all_nth)
    then show "alike spa (cs ! i) (map (set_cant_read g b) ws ! i)"
      using Vdev.IH [of "cs ! i"] Vdev.prems(2) i r(1) by (simp add: list_all2_conv_all_nth)
  qed
  have kids: "list_all2 (\<lambda>c c'. \<forall>t. dtl_spec spa 0 False c' t = dtl_spec spa 0 False c t) cs (map (set_cant_read g b) ws)"
    by (rule list_all2_mono [OF l alike_spec])
  have cnt: "length (filter (\<lambda>c. txg \<in> dtl_spec spa 0 False c s) (map (set_cant_read g b) ws)) = length (filter (\<lambda>c. txg \<in> dtl_spec spa 0 False c s) cs)"
    "(\<exists>c\<in>set (map (set_cant_read g b) ws). txg \<in> dtl_spec spa 0 False c s) = (\<exists>c\<in>set cs. txg \<in> dtl_spec spa 0 False c s)" for txg s
    using kids by (induction rule: list_all2_induct) auto
  have d2: "dtl_set wd2 t = dtl_set wd t" for t by (simp add: wd2_def)
  have flags: "skipped wd2 = skipped vd" "vdev_op_leaf wd2 = vdev_op_leaf vd" "vdev_readable wd2 = vdev_readable vd" "tolerance wd2 n = tolerance vd n"
    "skipped vd1 = skipped vd" "vdev_op_leaf vd1 = vdev_op_leaf vd" "dtl_set vd1 t = dtl_set vd t" for n t by (simp_all add: wd2 vd1_def)
  have "dtl_spec spa 0 False (Vdev wd2 (map (set_cant_read g b) ws)) t = dtl_spec spa 0 False (Vdev vd cs) t" for t
  proof (cases "skipped vd \<or> vdev_op_leaf vd")
    case True
    have "dtl_set wd2 DTL_MISSING = dtl_set vd DTL_MISSING" "dtl_set wd2 DTL_SCRUB = dtl_set vd DTL_SCRUB" "skipped vd \<Longrightarrow> dtl_set wd2 t = dtl_set vd t"
      unfolding d2 sets using True by (auto simp: flags leaf_spec_def leaf_missing_def)
    then show ?thesis using True by (cases t) (auto simp: flags leaf_spec_def leaf_missing_def)
  next
    case False
    have "dtl_set wd2 DTL_SCRUB = dtl_set vd DTL_SCRUB" unfolding d2 sets using False by (simp add: flags)
    then show ?thesis using False by (cases t) (simp_all add: flags cnt len del: filter_map set_map length_filter_map)
  qed
  moreover have "set_cant_read g b w = Vdev wd2 (map (set_cant_read g b) ws)" by (simp add: w wd2_def)
  ultimately show ?case using l wd2 by (simp del: dtl_spec.simps) blast
qed


lemma sm_space_empty: "sm_ok sm \<Longrightarrow> sm_space sm = 0 \<longleftrightarrow> sm_set sm = {}"
  using card_cover [of "sm_unit sm" "sm_start sm" "sm_start sm + sm_size sm" "segs sm"]
  by (auto simp: sm_ok_def sm_set_def card_eq_0_iff unat_eq_0 [symmetric])

lemma required_effect:
  assumes a: "fresh_alloc (spa_alloc spa)" and ok: "vdev_ok tvd" and f: "has_cant_read (vdev_guid vd) (vdev_cant_read vd) tvd"
    and vd: "\<not> vdev_is_root vd" "vdev_guid vd \<noteq> vdev_guid (vd_info tvd)"
  shows "\<exists>tvd'. vdev_dtl_required spa vd tvd
      = Inr (dtl_spec spa 0 False (set_cant_read (vdev_guid vd) True tvd) DTL_OUTAGE \<noteq> {}, tvd') \<and> reassessed spa 0 False tvd tvd'"
proof -
  define g where "g = vdev_guid vd"
  define b where "b = vdev_cant_read vd"
  obtain v1 where v1: "vdev_dtl_reassess spa 0 0 False (set_cant_read g True tvd) = Inr (v1, dirty_leaves 0 (set_cant_read g True tvd))"
    "reassessed spa 0 False (set_cant_read g True tvd) v1"
    using reassess_effect [OF a, of "set_cant_read g True tvd" 0 0 False] ok unfolding vdev_ok_cant_read by blast
  have ok1: "vdev_ok v1" by (rule vdev_ok_reassessed [OF _ v1(2)]) (simp add: ok)
  obtain v2 where v2: "vdev_dtl_reassess spa 0 0 False (set_cant_read g b v1) = Inr (v2, dirty_leaves 0 (set_cant_read g b v1))"
    "reassessed spa 0 False (set_cant_read g b v1) v2"
    using reassess_effect [OF a, of "set_cant_read g b v1" 0 0 False] ok1 unfolding vdev_ok_cant_read by blast
  have "sm_ok (vdev_dtl (vd_info v1) DTL_OUTAGE)" using reassessedD(1) [OF v1(2)] by (simp add: dtl_ok_def sm_like_def)
  then have "vdev_dtl_empty (vd_info v1) DTL_OUTAGE \<longleftrightarrow> dtl_spec spa 0 False (set_cant_read g True tvd) DTL_OUTAGE = {}"
    using reassessedD(2) [OF v1(2)] by (simp add: vdev_dtl_empty_def sm_space_empty)
  moreover have "reassessed spa 0 False tvd v2"
    by (rule alike_reassessed [OF alike_restored [OF v1(2)] v2(2)]) (use f in \<open>simp add: g_def b_def\<close>)
  ultimately show ?thesis using v1(1) v2(1) vd by (auto simp: vdev_dtl_required_def g_def b_def Let_def)
qed

subsection \<open>Single transaction groups\<close>

lemma next_txg:
  assumes "txg \<noteq> (- 1 :: u64)"
  shows "unat txg + 1 < 2 ^ 64" "{txg..<txg + 1} = {txg}" "txg < txg + 1"
proof -
  have "unat txg \<noteq> unat (- 1 :: u64)" using assms by (simp add: word_unat_eq_iff)
  then show n: "unat txg + 1 < 2 ^ 64"
    using unsigned_less [of txg, where ?'a = nat] by (simp add: unsigned_minus_1_eq_mask mask_eq_exp_minus_1)
  have u: "unat (txg + 1) = unat txg + 1" using n by (simp add: unat_word_ariths)
  then show "txg < txg + 1" by (simp add: word_less_nat_alt)
  show "{txg..<txg + 1} = {txg}" using u by (auto simp: word_less_nat_alt word_le_nat_alt word_unat_eq_iff)
qed

lemma dtl_contains_txg:
  assumes "dtl_ok vd" "txg \<noteq> - 1"
  shows "space_map_contains (vdev_dtl vd t) txg 1 = Inr (txg \<in> dtl_set vd t)" "vdev_dtl_contains vd t txg 1 = Inr (txg \<in> dtl_set vd t)"
proof -
  have ok: "sm_ok (vdev_dtl vd t)" "sm_shift (vdev_dtl vd t) = 0" using assms(1) by (simp_all add: dtl_ok_def sm_like_def space_map_create_def)
  have c: "space_map_contains (vdev_dtl vd t) txg 1 = Inr (txg \<in> dtl_set vd t)"
    using space_map_contains_iff [OF ok(1), of 1 txg] next_txg [OF assms(2)] by (simp add: ok(2) P2PHASE_def seg_set_def)
  then show "space_map_contains (vdev_dtl vd t) txg 1 = Inr (txg \<in> dtl_set vd t)" .
  show "vdev_dtl_contains vd t txg 1 = Inr (txg \<in> dtl_set vd t)" using c sm_space_empty [OF ok(1)] by (auto simp: vdev_dtl_contains_def)
qed

lemma dtl_dirty_txg:
  assumes "dtl_ok vd" "txg \<noteq> - 1"
  shows "\<exists>vd'. vdev_dtl_dirty spa vd t txg 1 = Inr vd' \<and> dtl_ok vd' \<and> dtl_set vd' t = insert txg (dtl_set vd t)"
proof (cases "txg \<in> dtl_set vd t")
  case True
  then show ?thesis using dtl_contains_txg(1) [OF assms, of t] assms(1) by (auto simp: vdev_dtl_dirty_def)
next
  case False
  have "{txg..<txg + 1} \<inter> dtl_set vd t = {}" using False next_txg(2) [OF assms(2)] by simp
  moreover have "sm_start dtl_geometry \<le> txg" "txg + 1 \<le> sm_start dtl_geometry + sm_size dtl_geometry"
    "P2PHASE txg (sm_unit dtl_geometry) = 0" "P2PHASE (txg + 1) (sm_unit dtl_geometry) = 0"
    by (simp_all add: space_map_create_def P2PHASE_def)
  ultimately obtain sm where "space_map_add (zfs_recover spa) (vdev_dtl vd t) txg (txg + 1 - txg) = Inr sm" "sm_like dtl_geometry sm"
    "sm_set sm = dtl_set vd t \<union> {txg..<txg + 1}"
    using sm_like_add [OF dtl_okD [OF assms(1)] next_txg(3) [OF assms(2)], of t "zfs_recover spa"] by blast
  then show ?thesis
    using False dtl_contains_txg(1) [OF assms, of t] dtl_ok_set [OF assms(1)] next_txg(2) [OF assms(2)]
    by (auto simp: vdev_dtl_dirty_def)
qed

subsection \<open>What to resilver\<close>









subsection \<open>The theorems\<close>

text \<open>
  A mirror of two devices: transaction groups 5 to 7 are missing on the first, the second cannot be read.
\<close>

definition example_leaf :: "nat \<Rightarrow> bool \<Rightarrow> space_map \<Rightarrow> vdev" where
  "example_leaf g cant_read sm =
     Vdev \<lparr>vdev_guid = g, vdev_is_root = False, vdev_ishole = False, vdev_aux = False, vdev_op_leaf = True, vdev_ops_missing = False,
       vdev_state = 7, vdev_cant_read = cant_read, vdev_cant_write = False, vdev_nparity = 0,
       vdev_dtl = (\<lambda>_. dtl_geometry)(DTL_MISSING := sm)\<rparr> []"

definition example_missing :: space_map where
  "example_missing = dtl_geometry\<lparr>sm_root := Node Null \<lparr>ss_start = 5, ss_end = 8\<rparr> 0 Null, sm_space := 3\<rparr>"

definition example_mirror :: "bool \<Rightarrow> vdev" where
  "example_mirror cant_read =
     Vdev \<lparr>vdev_guid = 1, vdev_is_root = False, vdev_ishole = False, vdev_aux = False, vdev_op_leaf = False, vdev_ops_missing = False,
       vdev_state = 7, vdev_cant_read = False, vdev_cant_write = False, vdev_nparity = 0, vdev_dtl = (\<lambda>_. dtl_geometry)\<rparr>
       [example_leaf 2 False example_missing, example_leaf 3 cant_read dtl_geometry]"

definition example_spa :: spa_env where
  "example_spa = \<lparr>spa_alloc = next_address, zfs_recover = False, spa_scrub_started = True, spa_scrub_errors = 0\<rparr>"

lemma example_maps:
  "sm_like dtl_geometry dtl_geometry" "sm_like dtl_geometry example_missing" "sm_set example_missing = {5..<8}" "sm_set dtl_geometry = {}"
  by (simp_all add: sm_like_def example_missing_def space_map_create_def sm_ok_def segs_ok_def total_def seg_len_def seg_ok_def pp_ok_def
      sm_set_def cover_def seg_set_def P2PHASE_def unsigned_minus_1_eq_mask mask_eq_exp_minus_1)

lemma example_mirror_ok: "vdev_ok (example_mirror b)" "fresh_alloc (spa_alloc example_spa)"
  by (auto simp: example_mirror_def example_leaf_def dtl_ok_def example_maps example_spa_def next_address_fresh)

lemma example_outage: "dtl_spec example_spa 0 False (example_mirror True) DTL_OUTAGE = {5..<8}"
proof -
  have "(5 :: u64) \<le> t \<Longrightarrow> t < 8 \<Longrightarrow> t < - 1" for t
    by (rule order.strict_trans, assumption) (simp add: word_less_nat_alt unsigned_minus_1_eq_mask mask_eq_exp_minus_1)
  then show ?thesis
    by (auto simp: example_mirror_def example_leaf_def skipped_def leaf_spec_def leaf_missing_def tolerance_def example_maps
        vdev_readable_def vdev_is_dead_def VDEV_STATE_DEGRADED_def)
qed

text \<open>
  (C12) Reassessing the logs of any tree of devices succeeds and marks exactly the leaves dirty. Afterwards, at every device: the
  log of a leaf that was scrubbed holds what the scrub could not repair and what is younger than the scrub; an unreadable leaf is
  out for all transaction groups; a mirror or RAID-Z device has lost a transaction group exactly when more children than its
  redundancy covers cannot deliver it, and has it partly exactly when some child has.
\<close>

theorem vdev_dtl_reassess_correct:
  assumes "fresh_alloc (spa_alloc spa)" "vdev_ok v"
  shows "\<exists>v'. vdev_dtl_reassess spa txg scrub_txg scrub_done v = Inr (v', dirty_leaves txg v) \<and> reassessed spa scrub_txg scrub_done v v'"
  using reassess_effect [OF assms] .

theorem vdev_dtl_reassess_correct_witness:
  "\<exists>v'. vdev_dtl_reassess example_spa 9 0 False (example_mirror True) = Inr (v', [2, 3]) \<and> dtl_set (vd_info v') DTL_OUTAGE = {5..<8}"
proof -
  obtain v' where v': "vdev_dtl_reassess example_spa 9 0 False (example_mirror True) = Inr (v', dirty_leaves 9 (example_mirror True))"
    "reassessed example_spa 0 False (example_mirror True) v'"
    using vdev_dtl_reassess_correct [OF example_mirror_ok(2) example_mirror_ok(1)] by blast
  have "dirty_leaves 9 (example_mirror True) = [2, 3]" by (simp add: example_mirror_def example_leaf_def skipped_def)
  then show ?thesis using v' reassessedD(2) [OF v'(2)] example_outage by auto
qed

text \<open>
  (C14) \<^verbatim>\<open>vdev_dtl_required()\<close> says that a device is needed exactly when, with that device unreadable, some transaction group could not
  be read from its top-level device; and it leaves the flags and logs of all devices as a reassessment without it would.
\<close>

theorem vdev_dtl_required_correct:
  assumes "fresh_alloc (spa_alloc spa)" "vdev_ok tvd" "has_cant_read (vdev_guid vd) (vdev_cant_read vd) tvd"
    and "\<not> vdev_is_root vd" "vdev_guid vd \<noteq> vdev_guid (vd_info tvd)"
  shows "\<exists>tvd'. vdev_dtl_required spa vd tvd
      = Inr (dtl_spec spa 0 False (set_cant_read (vdev_guid vd) True tvd) DTL_OUTAGE \<noteq> {}, tvd') \<and> reassessed spa 0 False tvd tvd'"
  using required_effect [OF assms] .

theorem vdev_dtl_required_correct_witness:
  "\<exists>tvd'. vdev_dtl_required example_spa (vd_info (example_leaf 3 False dtl_geometry)) (example_mirror False) = Inr (True, tvd')"
proof -
  define vd where "vd = vd_info (example_leaf 3 False dtl_geometry)"
  have vd: "vdev_guid vd = 3" "\<not> vdev_cant_read vd" "\<not> vdev_is_root vd" by (simp_all add: vd_def example_leaf_def)
  have "has_cant_read (vdev_guid vd) (vdev_cant_read vd) (example_mirror False)" "vdev_guid vd \<noteq> vdev_guid (vd_info (example_mirror False))"
    by (simp_all add: vd example_mirror_def example_leaf_def)
  moreover have "set_cant_read 3 True (example_mirror False) = example_mirror True" by (simp add: example_mirror_def example_leaf_def)
  moreover have "{5..<8 :: u64} \<noteq> {}" by simp
  ultimately show ?thesis
    using vdev_dtl_required_correct [OF example_mirror_ok(2) example_mirror_ok(1), of vd False] vd example_outage
    by (auto simp: vd_def [symmetric])
qed



end
