(* ===== verification/Spec2Isabelle.thy ===== *)
theory Spec2Isabelle
  imports Space_Log Wrap_Calls Wrap_Dir Avl_Theorems Zio_Compress Rlock_Theorems Vdev_Dtl
begin

text \<open>
  A verification library for libzfswrap, a user-space build of ZFS behind a library of \<^verbatim>\<open>lzfw_*\<close>
  calls.

  \<^bold>\<open>The program.\<close> An application calls \<^verbatim>\<open>zfswrap/libzfswrap.c\<close>. Each call enters the file system
  through a teardown lock, turns inode and generation numbers into vnodes, runs one or more vnode
  operations and gives back what it took. Underneath, the pool layer \<^verbatim>\<open>lib/libzpool\<close> allocates
  blocks: a metaslab keeps its free space in a space map (\<^verbatim>\<open>space_map.c\<close>), one of four policies of
  \<^verbatim>\<open>metaslab.c\<close> picks a block, and the changes go to an on-disk log. The space maps are AVL trees
  (\<^verbatim>\<open>lib/libavl/avl.c\<close>), and so are the range locks (\<^verbatim>\<open>zfswrap/zfs_rlock.c\<close>) with which reads and writes
  of one file keep out of each other's way. Names that reach the administration calls pass \<^verbatim>\<open>zfs_namecheck.c\<close>.

  \<^bold>\<open>Theories.\<close>
  \<^item> \<open>ZPrelude\<close>: machine integers, the outcome type of code that may panic, the alignment macros,
    lemmas on list ends and words. \<open>Bitops\<close>: \<^verbatim>\<open>highbit\<close>, \<^verbatim>\<open>lowbit\<close> and the bit-field macros.
  \<^item> \<open>Avl_Heap\<close>: \<^verbatim>\<open>avl.c\<close> and \<^verbatim>\<open>avl_impl.h\<close> routine by routine over a heap of nodes, with the packed
    parent word. \<open>Avl_Tree\<close> and \<open>Avl_Spec\<close>: the abstract trees with zippers for positions, and the
    contract \<open>ordered_tree\<close> they meet. \<open>Avl_Refine\<close>, \<open>Avl_Pointers\<close>, \<open>Avl_Client\<close> and \<open>Avl_Teardown\<close>
    prove that the pointer routines implement the abstract ones: they return, they keep every link,
    balance and count right, and they write only to the nodes concerned. \<open>Avl_Theorems\<close> states the
    results.
  \<^item> \<open>Space_Map\<close>: the segment maps of \<^verbatim>\<open>space_map.c\<close> over the abstract trees, as sets of addresses.
    \<open>Block_Picker\<close>: the allocation policies and their hooks; the contract \<open>block_picker\<close> covers all
    four. \<open>Space_Log\<close>: \<^verbatim>\<open>space_map_sync\<close>, \<^verbatim>\<open>space_map_load\<close> and \<^verbatim>\<open>space_map_truncate\<close> with the encoding
    of log entries; the object store is a parameter. \<open>Space_Ref\<close>: the reference trees with which maps are united, intersected and
    subtracted; the allocator, whose addresses break ties in the tree, is a parameter.
  \<^item> \<open>Vdev_Dtl\<close>: the dirty time logs of \<^verbatim>\<open>vdev.c\<close>, computed with reference trees for a whole tree of devices, and the decisions
    drawn from them: whether a device can be spared and what has to be resilvered.
  \<^item> \<open>Zle\<close> and \<open>Lzjb\<close>: the two compressors of the pool layer with their decompressors. \<open>Zio_Compress\<close>:
    the switch \<^verbatim>\<open>zio_compress.c\<close> over them and over zlib, which is a parameter, with the round trip of
    every entry of its table.
  \<^item> \<open>Rlock\<close>: \<^verbatim>\<open>zfs_rlock.c\<close> routine by routine over a heap of range structures and the abstract tree, with
    shared readers split into counted proxies. \<open>Rlock_Inv\<close>: the invariant, which ties the tree to the locks granted,
    to the callers that wait and to the number of locks on each byte. \<open>Rlock_Steps\<close>, \<open>Rlock_Ops\<close> and
    \<open>Rlock_Calls\<close>: its preservation by the primitive changes, by the loops and by whole calls. \<open>Rlock_System\<close>: all
    threads that lock ranges of a file as a step relation, \<open>Rlock_Theorems\<close> what holds in every state it reaches:
    exclusion, no lost wake-up, every call returns, nothing left behind.
  \<^item> \<open>Namecheck\<close>: the five checks of \<^verbatim>\<open>zfs_namecheck.c\<close> against grammars.
  \<^item> \<open>Wrap_Core\<close>: the machine under the public calls, a teardown lock count, reference counts of
    vnodes and a vnode layer that is a parameter (\<open>vfs_env\<close>): an arbitrary function from its state
    and an operation to an answer. \<open>Wrap_Ops\<close> and \<open>Wrap_Xattr\<close>: the calls. \<open>Wrap_Balance\<close>: an accounting
    judgement with one rule per construct. \<open>Wrap_Calls\<close>: sequences of calls. \<open>Wrap_Dir\<close>: directory
    reading.

  \<^bold>\<open>Conventions.\<close> Unsigned integers are words of their width, so sums wrap. A \<^verbatim>\<open>VERIFY\<close> stays in the
  model as a panic, an \<^verbatim>\<open>ASSERT\<close> is compiled out. Loops whose end depends on the data are partial
  functions with \<open>None\<close> for a loop that runs forever, and the theorems show that they return. The one
  fuel in the development, in \<open>tree_visit\<close>, is the number of nodes, which the loop cannot exceed. Locks
  of the pool layer are held by the callers and leave no trace in the model; the range locks, whose subject is the
  interleaving of threads, are modelled one critical section of \<^verbatim>\<open>z_range_lock\<close> per step, with a \<^verbatim>\<open>cv_wait\<close> that may
  return at any time.

  \<^bold>\<open>Not modelled.\<close> The vnode operations themselves (\<^verbatim>\<open>zfs_vnops.c\<close> and below), the caches, transactions
  and on-disk objects of the DMU, the intent log, the I/O of devices and its pipeline: their behaviour lies
  in threads, device answers and formats that the other parts see only through the interfaces that
  are parameters here. The control interface, the administration library and the setup calls of the
  wrapper marshal name/value lists (\<^verbatim>\<open>lib/libnvpair\<close>) and print. The checksums (\<^verbatim>\<open>fletcher.c\<close>, \<^verbatim>\<open>sha256.c\<close>) are digests of
  which only equality is ever used. The allocators and the host compatibility layer stand
  for what the logic has built in.
\<close>

end
